(* ===== verification/Demos_Prelude.thy ===== *)
theory Demos_Prelude
  imports Main "HOL-Library.Word" "HOL-Library.Signed_Division"
begin

text \<open>
  Shared vocabulary of the development.

  \<^item> \<open>error\<close> and \<open>result\<close>: every exception, failed assertion, failed system call and every
    operation the C++ standard leaves undefined is a value of \<open>error\<close>, and so is a call that never
    returns (\<open>Diverges\<close>); an operation that may fail returns \<open>error + 'a\<close> with \<open>Inl\<close> for the failure.
  \<^item> \<open>bindE\<close>, \<open>foldE\<close>: sequencing of such operations and the \<open>for (auto &x : xs)\<close> loop whose body
    may throw.
  \<^item> \<open>os\<close>: the operating system as the program sees it: the outcome of every checked system call
    is read from an arbitrary sequence, the calls made are recorded in order, and the random
    generator is an arbitrary sequence of numbers.
  \<^item> generic facts on lists, cyclic indices and decimal numbers.
\<close>

named_theorems result_simps \<open>rewriting of sequenced results\<close>
named_theorems result_dests \<open>inversion of a successful sequence\<close>
named_theorems result_elims \<open>elimination of a successful run, one rule per construct\<close>

subsection \<open>Errors and results\<close>

datatype error =
    Runtime_error string
  | IO_error nat
  | Assertion_error string
  | Undefined_behaviour string
  | Diverges
  | Out_of_fuel

type_synonym 'a result = "error + 'a"

fun bindE :: "'e + 'a \<Rightarrow> ('a \<Rightarrow> 'e + 'b) \<Rightarrow> 'e + 'b" where
  "bindE (Inl e) f = Inl e"
| "bindE (Inr x) f = f x"

text \<open>The range-based \<open>for\<close> loop over a container whose body may throw.\<close>

fun foldE :: "('a \<Rightarrow> 's \<Rightarrow> 'e + 's) \<Rightarrow> 'a list \<Rightarrow> 's \<Rightarrow> 'e + 's" where
  "foldE f [] s = Inr s"
| "foldE f (x # xs) s = bindE (f x s) (foldE f xs)"

text \<open>The same loop over elements that the body changes.\<close>

fun mapE :: "('a \<Rightarrow> 's \<Rightarrow> 'e + ('a \<times> 's)) \<Rightarrow> 'a list \<Rightarrow> 's \<Rightarrow> 'e + ('a list \<times> 's)" where
  "mapE f [] s = Inr ([], s)"
| "mapE f (x # xs) s =
     bindE (f x s) (\<lambda>(y, t). bindE (mapE f xs t) (\<lambda>(ys, u). Inr (y # ys, u)))"

lemma bindE_Inr_iff [result_dests]:
  "bindE m f = Inr y \<longleftrightarrow> (\<exists>x. m = Inr x \<and> f x = Inr y)"
  by (cases m) auto

lemma bindE_InrE [result_elims]: "bindE m f = Inr y \<Longrightarrow> (\<And>x. m = Inr x \<Longrightarrow> f x = Inr y \<Longrightarrow> P) \<Longrightarrow> P"
  by (auto simp: bindE_Inr_iff)

lemma let_InrE [result_elims]: "(let x = a in f x) = y \<Longrightarrow> (f a = y \<Longrightarrow> P) \<Longrightarrow> P"
  by simp

lemma if_InrE [result_elims]: "(if b then Inl e else m) = Inr y \<Longrightarrow> (\<not> b \<Longrightarrow> m = Inr y \<Longrightarrow> P) \<Longrightarrow> P"
  by (auto split: if_splits)

lemma prod_InrE [result_elims]: "(case p of (a, b) \<Rightarrow> f a b) = Inr y \<Longrightarrow> (\<And>a b. p = (a, b) \<Longrightarrow> f a b = Inr y \<Longrightarrow> P) \<Longrightarrow> P"
  by (cases p) auto

lemma bindE_Inl_iff:
  "bindE m f = Inl e \<longleftrightarrow> m = Inl e \<or> (\<exists>x. m = Inr x \<and> f x = Inl e)"
  by (cases m) auto

lemma bindE_assoc [result_simps]: "bindE (bindE m f) g = bindE m (\<lambda>x. bindE (f x) g)"
  by (cases m) auto

lemma bindE_cong [fundef_cong]:
  "m = m' \<Longrightarrow> (\<And>x. m' = Inr x \<Longrightarrow> f x = f' x) \<Longrightarrow> bindE m f = bindE m' f'"
  by (cases m) auto

lemma bindE_Inr_right [simp]: "bindE m Inr = m"
  by (cases m) auto

lemma foldE_append: "foldE f (xs @ ys) s = bindE (foldE f xs s) (foldE f ys)"
  by (induction xs arbitrary: s) (auto simp: result_simps intro: bindE_cong)

lemma foldE_invariant:
  assumes "foldE f xs s = Inr t" and "P s"
    and "\<And>x s t. x \<in> set xs \<Longrightarrow> P s \<Longrightarrow> f x s = Inr t \<Longrightarrow> P t"
  shows "P t"
  using assms
proof (induction xs arbitrary: s)
  case Nil
  then show ?case by simp
next
  case (Cons x xs)
  from Cons.prems(1) obtain u where u: "f x s = Inr u" "foldE f xs u = Inr t"
    by (auto simp: result_dests)
  from Cons.prems(3)[OF _ Cons.prems(2) u(1)] have "P u" by simp
  with u(2) show ?case by (rule Cons.IH) (use Cons.prems(3) in auto)
qed

lemma foldE_total:
  assumes "P s" and "\<And>x s. x \<in> set xs \<Longrightarrow> P s \<Longrightarrow> \<exists>t. f x s = Inr t \<and> P t"
  shows "\<exists>t. foldE f xs s = Inr t \<and> P t"
  using assms
proof (induction xs arbitrary: s)
  case Nil
  then show ?case by simp
next
  case (Cons x xs)
  from Cons.prems obtain u where u: "f x s = Inr u" "P u" by (meson list.set_intros(1))
  from u(2) have "\<exists>t. foldE f xs u = Inr t \<and> P t"
    by (rule Cons.IH) (use Cons.prems(2) in auto)
  with u(1) show ?case by simp
qed

lemma mapE_Cons_Inr_iff [result_dests]:
  "mapE f (x # xs) s = Inr (zs, u) \<longleftrightarrow>
     (\<exists>y t ys. f x s = Inr (y, t) \<and> mapE f xs t = Inr (ys, u) \<and> zs = y # ys)"
  by (auto simp: result_dests split: prod.splits)

lemma mapE_list_all2:
  assumes "mapE f xs s = Inr (ys, t)" and "P s"
    and "\<And>x y s t. x \<in> set xs \<Longrightarrow> P s \<Longrightarrow> f x s = Inr (y, t) \<Longrightarrow> P t \<and> R x y"
  shows "P t \<and> list_all2 R xs ys"
  using assms
proof (induction xs arbitrary: s ys)
  case Nil
  then show ?case by simp
next
  case (Cons x xs)
  from Cons.prems(1) obtain y u zs where
    u: "f x s = Inr (y, u)" "mapE f xs u = Inr (zs, t)" "ys = y # zs"
    by (auto simp only: mapE_Cons_Inr_iff)
  from Cons.prems(3)[OF _ Cons.prems(2) u(1)] have "P u" "R x y" by auto
  from Cons.IH[OF u(2) \<open>P u\<close>] Cons.prems(3) have "P t \<and> list_all2 R xs zs" by auto
  with \<open>R x y\<close> u(3) show ?case by simp
qed

lemma mapE_total:
  assumes "P s" and "\<And>x s. x \<in> set xs \<Longrightarrow> P s \<Longrightarrow> \<exists>y t. f x s = Inr (y, t) \<and> P t"
  shows "\<exists>ys t. mapE f xs s = Inr (ys, t) \<and> P t"
  using assms
proof (induction xs arbitrary: s)
  case Nil
  then show ?case by simp
next
  case (Cons x xs)
  from Cons.prems obtain y u where u: "f x s = Inr (y, u)" "P u" by (meson list.set_intros(1))
  from Cons.IH[OF u(2)] Cons.prems(2) obtain ys t where "mapE f xs u = Inr (ys, t)" "P t" by auto
  with u show ?case by simp
qed

subsection \<open>Components that react to events\<close>

text \<open>
  The contract of a component whose handlers keep an invariant, and what it gives for every
  sequence of events; \<open>live_machine\<close> adds that an enabled handler does not throw.
\<close>

locale event_machine =
  fixes step :: "'ev \<Rightarrow> 's \<Rightarrow> 'e + 's" and inv :: "'s \<Rightarrow> bool"
  assumes step_inv: "inv s \<Longrightarrow> step ev s = Inr t \<Longrightarrow> inv t"
begin

lemma run_inv: "inv s \<Longrightarrow> foldE step evs s = Inr t \<Longrightarrow> inv t"
  by (rule foldE_invariant[where P = inv]) (auto intro: step_inv)

lemma run_prefix_inv:
  assumes "inv s" and "foldE step (evs @ evs') s = Inr t"
  shows "\<exists>u. foldE step evs s = Inr u \<and> inv u"
  using assms run_inv by (auto simp: foldE_append bindE_Inr_iff)

end

locale live_machine = event_machine +
  fixes enabled :: "'ev \<Rightarrow> 's \<Rightarrow> bool"
  assumes step_total: "inv s \<Longrightarrow> enabled ev s \<Longrightarrow> \<exists>t. step ev s = Inr t"
begin

fun enabled_run :: "'ev list \<Rightarrow> 's \<Rightarrow> bool" where
  "enabled_run [] s = True"
| "enabled_run (ev # evs) s = (enabled ev s \<and> (\<forall>t. step ev s = Inr t \<longrightarrow> enabled_run evs t))"

lemma run_total: "inv s \<Longrightarrow> enabled_run evs s \<Longrightarrow> \<exists>t. foldE step evs s = Inr t \<and> inv t"
proof (induction evs arbitrary: s)
  case Nil
  then show ?case by simp
next
  case (Cons ev evs)
  then obtain u where u: "step ev s = Inr u" using step_total[of s ev] by auto
  with Cons.prems have "inv u" "enabled_run evs u" by (auto intro: step_inv)
  with Cons.IH[of u] u show ?case by simp
qed

end

subsection \<open>The operating system\<close>

text \<open>
  \<open>io_outcome n\<close> is the errno of the \<open>n\<close>-th checked call, \<open>None\<close> where the call succeeds;
  \<open>io_log\<close> holds the calls that succeeded, newest first. \<open>rand_seq\<close> is the sequence the
  generator yields, \<open>clock\<close> the sequence of values of \<open>steady_clock::now()\<close>, \<open>fork_pid n\<close> the pid that \<open>fork\<close> returns, \<open>read_file n\<close> what a read of a file
  returns and \<open>read_procs n\<close> the pids a \<open>cgroup.procs\<close> file lists after \<open>n\<close> calls.
  \<open>debug\<close> is the build type: assertions are compiled out of a release build
  (\<open>src/src/lib/assert.hpp\<close>).
\<close>

type_synonym cpu_set = "64 word"
type_synonym time_point = int
type_synonym milliseconds = int

datatype os_event =
    Open string
  | Write string string
  | Read string
  | Mkdir string
  | Rmdir string
  | Eventfd
  | Efd_write
  | Fd_read
  | Timerfd_create
  | Timerfd_settime int int
  | Fork
  | Kill int
  | Stdout string
  | Schedule_log int cpu_set string int

record os =
  debug :: bool
  io_outcome :: "nat \<Rightarrow> nat option"
  io_count :: nat
  io_log :: "os_event list"
  rand_seq :: "nat \<Rightarrow> nat"
  rand_count :: nat
  clock :: "nat \<Rightarrow> time_point"
  clock_count :: nat
  fork_pid :: "nat \<Rightarrow> int"
  read_file :: "nat \<Rightarrow> string \<Rightarrow> string"
  read_procs :: "nat \<Rightarrow> string \<Rightarrow> int list"

text \<open>A system call: its errno, if it fails, and the system after it.\<close>

definition syscall :: "os_event \<Rightarrow> os \<Rightarrow> nat option \<times> os" where
  "syscall ev s = (case io_outcome s (io_count s) of
     Some errno \<Rightarrow> (Some errno, s\<lparr>io_count := Suc (io_count s)\<rparr>)
   | None \<Rightarrow> (None, s\<lparr>io_count := Suc (io_count s), io_log := ev # io_log s\<rparr>))"

text \<open>\<open>CHECK(call)\<close> of \<open>src/src/lib/check_lib.hpp\<close>: \<open>IOError\<close> where the call returned -1.\<close>

definition CHECK :: "os_event \<Rightarrow> os \<Rightarrow> os result" where
  "CHECK ev s = (case syscall ev s of (Some errno, t) \<Rightarrow> Inl (IO_error errno) | (None, t) \<Rightarrow> Inr t)"

text \<open>
  A text that is written to a file stream with \<open><<\<close> stays in the buffer of the stream. The destructor of the
  stream writes it out when the block is left, and ignores a failure.
\<close>

definition write_stream :: "string \<Rightarrow> string \<Rightarrow> os \<Rightarrow> os" where
  "write_stream file txt s = snd (syscall (Write file txt) s)"

text \<open>An output whose failure the program does not look at.\<close>

definition emit :: "os_event \<Rightarrow> os \<Rightarrow> os" where
  "emit ev s = s\<lparr>io_log := ev # io_log s\<rparr>"

text \<open>\<open>ASSERT(expr)\<close> of \<open>src/src/lib/assert.hpp\<close>.\<close>

definition ASSERT :: "bool \<Rightarrow> string \<Rightarrow> os \<Rightarrow> os result" where
  "ASSERT c msg s = (if debug s \<and> \<not> c then Inl (Assertion_error msg) else Inr s)"

text \<open>
  \<open>std::uniform_int_distribution<long>(lo, hi)(gen)\<close>: a value of the closed range. Every sequence
  of values in the range is given by some \<open>rand_seq\<close>.
\<close>

definition uniform_int :: "int \<Rightarrow> int \<Rightarrow> os \<Rightarrow> int \<times> os" where
  "uniform_int lo hi s =
     (lo + int (rand_seq s (rand_count s)) mod (hi - lo + 1), s\<lparr>rand_count := Suc (rand_count s)\<rparr>)"

text \<open>\<open>std::chrono::steady_clock::now()\<close>.\<close>

definition steady_now :: "os \<Rightarrow> time_point \<times> os" where
  "steady_now s = (clock s (clock_count s), s\<lparr>clock_count := Suc (clock_count s)\<rparr>)"

definition io_ok :: "os \<Rightarrow> bool" where
  "io_ok s \<longleftrightarrow> (\<forall>n. io_outcome s n = None)"

text \<open>A system on which no call fails, for evaluating definitions on concrete inputs.\<close>

definition quiet_os :: "bool \<Rightarrow> os" where
  "quiet_os d = \<lparr>debug = d, io_outcome = (\<lambda>n. None), io_count = 0, io_log = [], rand_seq = (\<lambda>n. 0),
     rand_count = 0, clock = (\<lambda>n. 0), clock_count = 0, fork_pid = int, read_file = (\<lambda>n f. []), read_procs = (\<lambda>n f. [])\<rparr>"

lemma quiet_os_simps [simp]: "io_ok (quiet_os d)" "debug (quiet_os d) = d"
  by (simp_all add: io_ok_def quiet_os_def)

lemma CHECK_Inr_iff [result_dests]:
  "CHECK ev s = Inr t \<longleftrightarrow> io_outcome s (io_count s) = None \<and>
     t = s\<lparr>io_count := Suc (io_count s), io_log := ev # io_log s\<rparr>"
  by (auto simp: CHECK_def syscall_def split: option.splits)

lemma ASSERT_Inr_iff [result_dests]: "ASSERT c msg s = Inr t \<longleftrightarrow> t = s \<and> (debug s \<longrightarrow> c)"
  by (auto simp: ASSERT_def)

lemma ASSERT_True [simp]: "ASSERT True msg s = Inr s"
  by (simp add: ASSERT_def)

lemma CHECK_io_ok: "io_ok s \<Longrightarrow>
    CHECK ev s = Inr (s\<lparr>io_count := Suc (io_count s), io_log := ev # io_log s\<rparr>)"
  by (simp add: CHECK_def syscall_def io_ok_def)

lemma io_ok_update [simp]:
  "io_ok (s\<lparr>io_count := n\<rparr>) = io_ok s" "io_ok (s\<lparr>io_log := l\<rparr>) = io_ok s"
  "io_ok (s\<lparr>rand_count := m\<rparr>) = io_ok s" "io_ok (s\<lparr>clock_count := k\<rparr>) = io_ok s"
  by (simp_all add: io_ok_def)

lemma emit_simps [simp]:
  "debug (emit ev s) = debug s" "io_outcome (emit ev s) = io_outcome s"
  "io_count (emit ev s) = io_count s" "rand_seq (emit ev s) = rand_seq s"
  "rand_count (emit ev s) = rand_count s" "clock (emit ev s) = clock s"
  "clock_count (emit ev s) = clock_count s" "fork_pid (emit ev s) = fork_pid s"
  "read_file (emit ev s) = read_file s" "read_procs (emit ev s) = read_procs s"
  "io_log (emit ev s) = ev # io_log s" "io_ok (emit ev s) = io_ok s"
  by (simp_all add: emit_def)

lemma uniform_int_range:
  assumes "lo \<le> hi" and "uniform_int lo hi s = (v, t)"
  shows "lo \<le> v \<and> v \<le> hi"
proof -
  have "0 < hi - lo + 1" using assms(1) by simp
  then have "0 \<le> int (rand_seq s (rand_count s)) mod (hi - lo + 1)"
    and "int (rand_seq s (rand_count s)) mod (hi - lo + 1) < hi - lo + 1"
    by (rule pos_mod_sign, rule pos_mod_bound)
  with assms(2) show ?thesis by (auto simp: uniform_int_def)
qed

subsection \<open>Durations\<close>

text \<open>Time points are nanoseconds of \<open>steady_clock\<close>, durations in the configuration milliseconds.\<close>

definition ns_of_ms :: "milliseconds \<Rightarrow> int" where
  "ns_of_ms d = d * 1000000"

text \<open>\<open>duration_cast<milliseconds>\<close> truncates toward zero.\<close>

definition duration_cast_ms :: "int \<Rightarrow> milliseconds" where
  "duration_cast_ms d = d sdiv 1000000"

lemma duration_cast_ms_of_ms [simp]: "duration_cast_ms (ns_of_ms d) = d"
  by (simp add: duration_cast_ms_def ns_of_ms_def signed_divide_int_def sgn_if abs_mult)

lemma duration_cast_ms_nonneg: "0 \<le> d \<Longrightarrow> duration_cast_ms d = d div 1000000"
  by (auto simp: duration_cast_ms_def signed_divide_int_def sgn_if)

lemma duration_cast_ms_pos_bounds:
  "0 \<le> d \<Longrightarrow> ns_of_ms (duration_cast_ms d) \<le> d \<and> d < ns_of_ms (duration_cast_ms d + 1)"
  by (simp add: duration_cast_ms_nonneg ns_of_ms_def) presburger

lemma duration_cast_ms_zero_iff: "duration_cast_ms d = 0 \<longleftrightarrow> - 1000000 < d \<and> d < 1000000"
  by (auto simp: duration_cast_ms_def signed_divide_int_def sgn_if zdiv_eq_0_iff split: if_splits)

subsection \<open>Cyclic iterators\<close>

text \<open>
  Both the process queue of a partition and the windows of the major frame are lists with an
  iterator that is advanced by \<open>if (++it == list.end()) it = list.begin()\<close>. The contract and its
  consequences are stated once.
\<close>

definition next_index :: "nat \<Rightarrow> nat \<Rightarrow> nat" where
  "next_index i n = (if Suc i = n then 0 else Suc i)"

lemma next_index_less [simp]: "i < n \<Longrightarrow> next_index i n < n"
  by (auto simp: next_index_def)

lemma next_index_mod: "i < n \<Longrightarrow> next_index i n = Suc i mod n"
  by (auto simp: next_index_def)

locale cyclic_iterator =
  fixes pos :: "'q \<Rightarrow> nat" and len :: "'q \<Rightarrow> nat" and advance :: "'q \<Rightarrow> 'q"
  assumes len_advance: "len (advance q) = len q"
    and pos_advance: "pos (advance q) = next_index (pos q) (len q)"
begin

lemma len_funpow: "len ((advance ^^ k) q) = len q"
  by (induction k) (simp_all add: len_advance)

lemma pos_funpow: "pos q < len q \<Longrightarrow> pos ((advance ^^ k) q) = (pos q + k) mod len q"
proof (induction k)
  case 0
  then show ?case by simp
next
  case (Suc k)
  then have "(pos q + k) mod len q < len q" by simp
  with Suc show ?case by (simp add: pos_advance len_funpow next_index_mod mod_Suc_eq)
qed

lemma pos_funpow_less: "pos q < len q \<Longrightarrow> pos ((advance ^^ k) q) < len q"
  by (simp add: pos_funpow)

lemma pos_period: "pos q < len q \<Longrightarrow> pos ((advance ^^ len q) q) = pos q"
  by (simp add: pos_funpow)

lemma visits_every_position:
  assumes "pos q < len q" and "j < len q"
  shows "\<exists>k < len q. pos ((advance ^^ k) q) = j"
proof (cases "pos q \<le> j")
  case True
  with assms show ?thesis
    by (intro exI[of _ "j - pos q"]) (auto simp: pos_funpow)
next
  case False
  with assms show ?thesis
    by (intro exI[of _ "len q - pos q + j"]) (auto simp: pos_funpow)
qed

end

subsection \<open>Decimal numbers\<close>

definition is_digit :: "char \<Rightarrow> bool" where
  "is_digit c \<longleftrightarrow> 48 \<le> (of_char c :: nat) \<and> (of_char c :: nat) \<le> 57"

definition digit_char :: "nat \<Rightarrow> char" where
  "digit_char d = char_of (48 + d)"

fun nat_to_dec :: "nat \<Rightarrow> string" where
  "nat_to_dec n = (if n < 10 then [digit_char n] else nat_to_dec (n div 10) @ [digit_char (n mod 10)])"

declare nat_to_dec.simps [simp del]

definition dec_to_nat :: "string \<Rightarrow> nat" where
  "dec_to_nat s = fold (\<lambda>c n. 10 * n + (of_char c - 48)) s 0"

definition int_to_dec :: "int \<Rightarrow> string" where
  "int_to_dec i = (if i < 0 then CHR ''-'' # nat_to_dec (nat (- i)) else nat_to_dec (nat i))"

lemma of_char_digit_char: "d < 10 \<Longrightarrow> (of_char (digit_char d) :: nat) = 48 + d"
  by (simp add: digit_char_def)

lemma is_digit_digit_char [simp]: "d < 10 \<Longrightarrow> is_digit (digit_char d)"
  by (simp add: is_digit_def of_char_digit_char)

lemma nat_to_dec_digits: "c \<in> set (nat_to_dec n) \<Longrightarrow> is_digit c"
proof (induction n rule: nat_to_dec.induct)
  case (1 n)
  then show ?case by (subst (asm) (2) nat_to_dec.simps) (auto split: if_splits)
qed

lemma nat_to_dec_not_Nil [simp]: "nat_to_dec n \<noteq> []"
  by (subst nat_to_dec.simps) simp

lemma dec_to_nat_snoc: "dec_to_nat (s @ [c]) = 10 * dec_to_nat s + (of_char c - 48)"
  by (simp add: dec_to_nat_def)

lemma dec_to_nat_to_dec [simp]: "dec_to_nat (nat_to_dec n) = n"
proof (induction n rule: nat_to_dec.induct)
  case (1 n)
  show ?case
  proof (cases "n < 10")
    case True
    then show ?thesis by (subst nat_to_dec.simps) (simp add: dec_to_nat_def of_char_digit_char)
  next
    case False
    with 1 show ?thesis
      by (subst nat_to_dec.simps) (simp add: dec_to_nat_snoc of_char_digit_char)
  qed
qed

lemma hd_nat_to_dec_digit [simp]: "is_digit (hd (nat_to_dec n))"
  by (rule nat_to_dec_digits [of _ n]) simp

lemma takeWhile_nat_to_dec:
  "s = [] \<or> \<not> is_digit (hd s) \<Longrightarrow> takeWhile is_digit (nat_to_dec n @ s) = nat_to_dec n"
  by (cases s) (simp_all add: takeWhile_append nat_to_dec_digits)

lemma dropWhile_nat_to_dec:
  "s = [] \<or> \<not> is_digit (hd s) \<Longrightarrow> dropWhile is_digit (nat_to_dec n @ s) = s"
  by (cases s) (simp_all add: dropWhile_append nat_to_dec_digits)

lemma nat_to_dec_less_100: "n < 100 \<Longrightarrow> length (nat_to_dec n) \<le> 2"
  by (subst nat_to_dec.simps, subst nat_to_dec.simps) auto

subsection \<open>Text formats\<close>

text \<open>The contract of a printer and a reader of the same text format.\<close>

locale text_codec =
  fixes encode :: "'a \<Rightarrow> string option" and decode :: "string \<Rightarrow> 'a option" and valid :: "'a \<Rightarrow> bool"
  assumes decode_encode: "valid x \<Longrightarrow> encode x = Some t \<Longrightarrow> decode t = Some x"
begin

lemma encode_injective:
  "valid x \<Longrightarrow> valid y \<Longrightarrow> encode x = Some t \<Longrightarrow> encode y = Some t \<Longrightarrow> x = y"
  using decode_encode [of x t] decode_encode [of y t] by simp

lemma decode_surjective: "valid x \<Longrightarrow> encode x \<noteq> None \<Longrightarrow> \<exists>t. decode t = Some x"
  using decode_encode [of x] by blast

end

end
