(* ===== verification/Cpu_Set.thy ===== *)
theory Cpu_Set
  imports Demos_Prelude
begin

unbundle bit_operations_syntax

text \<open>
  CPU sets: the wrapper class \<open>cpu_set\<close> (\<open>src/src/lib/cpu_set.hpp\<close>) and the text formats of
  \<open>src/src/lib/cpuset.c\<close>. The default build has \<open>MAX_CPUS = 64\<close>, for which \<open>CPU_ALLOC_SIZE\<close> is 8
  bytes: the set is a word of 64 bits. C strings are character lists without the final NUL, a
  pointer into a string is the suffix it points at and \<open>NULL\<close> is \<open>None\<close>.
\<close>

subsection \<open>The class\<close>

definition max_cpus :: nat where
  "max_cpus = 64"

definition is_set :: "cpu_set \<Rightarrow> nat \<Rightarrow> bool" where
  "is_set s i \<longleftrightarrow> i < max_cpus \<and> bit s i"

definition set_cpu :: "nat \<Rightarrow> cpu_set \<Rightarrow> cpu_set" where
  "set_cpu i s = (if i < max_cpus then s OR push_bit i 1 else s)"

definition clr_cpu :: "nat \<Rightarrow> cpu_set \<Rightarrow> cpu_set" where
  "clr_cpu i s = (if i < max_cpus then s AND NOT (push_bit i 1) else s)"

definition cpu_count :: "cpu_set \<Rightarrow> nat" where
  "cpu_count s = length (filter (is_set s) [0..<max_cpus])"

text \<open>The constructor from a bit mask copies bit by bit.\<close>

definition cpu_set_of_mask :: "64 word \<Rightarrow> cpu_set" where
  "cpu_set_of_mask m =
     fold (\<lambda>i s. if m AND push_bit i 1 \<noteq> 0 then set_cpu i s else s) [0..<64] 0"

fun find_down :: "cpu_set \<Rightarrow> nat \<Rightarrow> nat result" where
  "find_down s 0 = Inl (Runtime_error ''empty cpu_set'')"
| "find_down s (Suc i) = (if is_set s i then Inr i else find_down s i)"

definition highest :: "cpu_set \<Rightarrow> nat result" where
  "highest s = find_down s max_cpus"

fun find_up :: "cpu_set \<Rightarrow> nat list \<Rightarrow> nat result" where
  "find_up s [] = Inl (Runtime_error ''empty cpu_set'')"
| "find_up s (i # is) = (if is_set s i then Inr i else find_up s is)"

definition lowest :: "cpu_set \<Rightarrow> nat result" where
  "lowest s = find_up s [0..<max_cpus]"

text \<open>\<open>explicit operator bool\<close>.\<close>

definition cpu_nonempty :: "cpu_set \<Rightarrow> bool" where
  "cpu_nonempty s \<longleftrightarrow> cpu_count s > 0"

subsection \<open>Parsing a cpulist\<close>

definition strchr :: "string \<Rightarrow> char \<Rightarrow> string option" where
  "strchr s c = (case dropWhile (\<lambda>x. x \<noteq> c) s of [] \<Rightarrow> None | t \<Rightarrow> Some t)"

definition nexttoken :: "string option \<Rightarrow> char \<Rightarrow> string option" where
  "nexttoken q sep = (case q of None \<Rightarrow> None | Some s \<Rightarrow> map_option tl (strchr s sep))"

text \<open>
  \<open>strtoul\<close> in base 10 on a string that starts with a digit: the value of the longest digit prefix
  and the rest; it sets \<open>errno\<close> where the value does not fit 64 bits. \<open>nextnumber\<close> then truncates
  the value to an \<open>unsigned int\<close>.
\<close>

definition nextnumber :: "string \<Rightarrow> (32 word \<times> string) option" where
  "nextnumber s =
     (if s = [] \<or> \<not> is_digit (hd s) then None
      else let v = dec_to_nat (takeWhile is_digit s)
           in if v \<ge> 2 ^ 64 then None else Some (of_nat v, dropWhile is_digit s))"

text \<open>
  The loop \<open>while (a <= b) { ...; a += s; }\<close> on 32-bit unsigned integers. It need not end, so its
  value is an option; the flag is set by the early \<open>return 2\<close>.
\<close>

partial_function (option) set_range ::
  "bool \<Rightarrow> 32 word \<Rightarrow> 32 word \<Rightarrow> 32 word \<Rightarrow> cpu_set \<Rightarrow> (bool \<times> cpu_set) option" where
  "set_range fail a b s cs =
     (if a \<le> b
      then if fail \<and> unat a \<ge> max_cpus then Some (True, cs)
           else set_range fail (a + s) b s (set_cpu (unat a) cs)
      else Some (False, cs))"

text \<open>\<open>c1 != NULL && (c2 == NULL || c1 < c2)\<close>: of two suffixes of a string the longer starts first.\<close>

definition ptr_before :: "string option \<Rightarrow> string option \<Rightarrow> bool" where
  "ptr_before c1 c2 \<longleftrightarrow> (case c1 of None \<Rightarrow> False
     | Some x \<Rightarrow> (case c2 of None \<Rightarrow> True | Some y \<Rightarrow> length y < length x))"

text \<open>
  One token: the range \<open>(a, b, s)\<close> and the pointer \<open>end\<close>, or \<open>None\<close> for \<open>return 1\<close>.
\<close>

definition parse_range :: "string \<Rightarrow> (32 word \<times> 32 word \<times> 32 word \<times> string) option" where
  "parse_range p =
     (case nextnumber p of None \<Rightarrow> None
      | Some (a, e) \<Rightarrow>
          let c1 = nexttoken (Some e) (CHR ''-''); c2 = nexttoken (Some e) (CHR '','')
          in if ptr_before c1 c2
             then (case nextnumber (the c1) of None \<Rightarrow> None
                   | Some (b, e') \<Rightarrow>
                       let c1' = (if e' \<noteq> [] then nexttoken (Some e') (CHR '':'') else None)
                       in if ptr_before c1' c2
                          then (case nextnumber (the c1') of None \<Rightarrow> None
                                | Some (s, e'') \<Rightarrow>
                                    if s = 0 then None
                                    else if \<not> a \<le> b then None else Some (a, b, s, e''))
                          else if \<not> a \<le> b then None else Some (a, b, 1, e'))
             else Some (a, a, 1, e))"

lemma nexttoken_length: "nexttoken (Some p) c = Some q \<Longrightarrow> length q < length p"
proof -
  assume "nexttoken (Some p) c = Some q"
  then obtain x xs where "dropWhile (\<lambda>x. x \<noteq> c) p = x # xs" and "q = xs"
    by (auto simp: nexttoken_def strchr_def split: list.splits)
  moreover have "length (dropWhile (\<lambda>x. x \<noteq> c) p) \<le> length p" by (rule length_dropWhile_le)
  ultimately show ?thesis by simp
qed

text \<open>
  The outer loop \<open>while (p = q, q = nexttoken(q, ','), p)\<close>. The result is the return code with the
  set; the code after the loop is \<open>return end && *end\<close>.
\<close>

function cpulist_loop ::
  "bool \<Rightarrow> string option \<Rightarrow> string \<Rightarrow> cpu_set \<Rightarrow> (nat \<times> cpu_set) option" where
  "cpulist_loop fail None e cs = Some (if e \<noteq> [] then 1 else 0, cs)"
| "cpulist_loop fail (Some p) e cs =
     (case parse_range p of None \<Rightarrow> Some (1, cs)
      | Some (a, b, s, e') \<Rightarrow>
          (case set_range fail a b s cs of
             None \<Rightarrow> None
           | Some (True, cs') \<Rightarrow> Some (2, cs')
           | Some (False, cs') \<Rightarrow> cpulist_loop fail (nexttoken (Some p) (CHR '','')) e' cs'))"
  by pat_completeness auto
termination
proof (relation "measure (\<lambda>(fail, q, e, cs). case q of None \<Rightarrow> 0 | Some p \<Rightarrow> Suc (length p))")
  fix fail p e cs a b s e' cs'
  show "((fail, nexttoken (Some p) (CHR '',''), e', cs'), fail, Some p, e, cs)
    \<in> measure (\<lambda>(fail, q, e, cs). case q of None \<Rightarrow> 0 | Some p \<Rightarrow> Suc (length p))"
    by (auto dest: nexttoken_length split: option.split)
qed simp

text \<open>
  \<open>cpulist_parse\<close>: \<open>None\<close> where it does not return. The initial value \<open>NULL\<close> of \<open>end\<close> is the
  empty string here: both make \<open>end && *end\<close> false, and the first token always sets it.
\<close>

definition cpulist_parse :: "string \<Rightarrow> bool \<Rightarrow> (nat \<times> cpu_set) option" where
  "cpulist_parse str fail = cpulist_loop fail (Some str) [] 0"

text \<open>The constructor from a cpulist; \<open>operator bool\<close> and the comparisons are word equality.\<close>

definition cpu_set_of_string :: "string \<Rightarrow> bool \<Rightarrow> cpu_set result" where
  "cpu_set_of_string cpulist fail =
     (case cpulist_parse cpulist fail of
        None \<Rightarrow> Inl Diverges
      | Some (ret, s) \<Rightarrow>
          if ret \<noteq> 0 then Inl (Runtime_error ''Could not parse cpulist'') else Inr s)"

subsection \<open>Printing a cpulist\<close>

text \<open>\<open>run\<close>: how many CPUs directly after \<open>i\<close> are set.\<close>

function run_length :: "cpu_set \<Rightarrow> nat \<Rightarrow> nat" where
  "run_length s j = (if j < max_cpus \<and> is_set s j then Suc (run_length s (Suc j)) else 0)"
  by pat_completeness auto
termination
  by (relation "measure (\<lambda>(s, j). max_cpus - j)") auto

declare run_length.simps [simp del]

definition range_text :: "nat \<Rightarrow> nat \<Rightarrow> string" where
  "range_text i run =
     (if run = 0 then nat_to_dec i @ '',''
      else if run = 1 then nat_to_dec i @ '','' @ nat_to_dec (i + 1) @ '',''
      else nat_to_dec i @ ''-'' @ nat_to_dec (i + run) @ '','')"

text \<open>
  The loop of \<open>cpulist_create\<close> writing into a buffer with \<open>len\<close> bytes left: \<open>snprintf\<close> stores at
  most \<open>len - 1\<close> characters and returns the length of the untruncated text. The first component
  says whether the function returned the string (\<open>False\<close> is \<open>NULL\<close>), the second is what the
  buffer holds.
\<close>

function create_loop :: "cpu_set \<Rightarrow> nat \<Rightarrow> nat \<Rightarrow> string \<Rightarrow> bool \<times> string" where
  "create_loop s i len out =
     (if i < max_cpus
      then if is_set s i
           then let run = run_length s (Suc i); txt = range_text i run
                in if length txt \<ge> len then (False, out @ take (len - 1) txt)
                   else create_loop s (Suc (i + run)) (len - length txt) (out @ txt)
           else create_loop s (Suc i) len out
      else (True, if out = [] then [] else butlast out))"
  by pat_completeness auto
termination
  by (relation "measure (\<lambda>(s, i, len, out). max_cpus - i)") auto

declare create_loop.simps [simp del]

definition cpulist_create :: "nat \<Rightarrow> cpu_set \<Rightarrow> bool \<times> string" where
  "cpulist_create len s = create_loop s 0 len []"

text \<open>\<open>as_list()\<close>: a buffer of 100 bytes whose contents are returned in either case.\<close>

definition as_list :: "cpu_set \<Rightarrow> string" where
  "as_list s = snd (cpulist_create 100 s)"

subsection \<open>Sets and bits\<close>

lemma bit_set_cpu: "bit (set_cpu i s) j \<longleftrightarrow> bit s j \<or> (i < max_cpus \<and> i = j)"
  by (auto simp: set_cpu_def max_cpus_def bit_simps)

lemma is_set_set_cpu [simp]: "is_set (set_cpu i s) j \<longleftrightarrow> is_set s j \<or> (i < max_cpus \<and> i = j)"
  by (auto simp: is_set_def bit_set_cpu)

lemma cpu_set_eqI: "(\<And>j. is_set s j \<longleftrightarrow> is_set t j) \<Longrightarrow> s = t"
  by (rule bit_eqI) (auto simp: is_set_def max_cpus_def)

lemma is_set_ops [simp]:
  "is_set (s OR t) j \<longleftrightarrow> is_set s j \<or> is_set t j"
  "is_set (s AND t) j \<longleftrightarrow> is_set s j \<and> is_set t j"
  "is_set (s XOR t) j \<longleftrightarrow> is_set s j \<noteq> is_set t j"
  "\<not> is_set 0 j"
  by (auto simp: is_set_def bit_simps)

lemma is_set_fold_set_cpu:
  "is_set (fold set_cpu xs s) j \<longleftrightarrow> is_set s j \<or> (j \<in> set xs \<and> j < max_cpus)"
  by (induction xs arbitrary: s) auto

lemma set_range_unfold_step:
  "a \<le> b \<Longrightarrow> \<not> (fail \<and> unat a \<ge> max_cpus) \<Longrightarrow>
     set_range fail a b s cs = set_range fail (a + s) b s (set_cpu (unat a) cs)"
  by (subst set_range.simps) auto

lemma set_range_stop: "\<not> a \<le> b \<Longrightarrow> set_range fail a b s cs = Some (False, cs)"
  by (subst set_range.simps) auto

text \<open>Where \<open>b + s\<close> does not wrap, the loop ends and sets the arithmetic progression from \<open>a\<close>.\<close>

lemma set_range_progression:
  assumes "0 < s" and "unat b + unat s < 2 ^ 32"
  shows "\<exists>cs'. set_range False a b s cs = Some (False, cs') \<and>
    (\<forall>j. is_set cs' j \<longleftrightarrow> is_set cs j \<or> (j < max_cpus \<and> (\<exists>k. j = unat a + k * unat s \<and> j \<le> unat b)))"
proof (induction "unat b + 1 - unat a" arbitrary: a cs rule: less_induct)
  case less
  show ?case
  proof (cases "a \<le> b")
    case True
    then have ab: "unat a \<le> unat b" by (simp add: word_le_nat_alt)
    have s: "0 < unat s" using assms(1) by (simp add: word_less_nat_alt)
    have "unat a + unat s < 2 ^ 32" using ab assms(2) by simp
    then have u: "unat (a + s) = unat a + unat s" by (simp add: unat_word_ariths)
    have "unat b + 1 - unat (a + s) < unat b + 1 - unat a" using u s ab by simp
    from less[OF this, of "set_cpu (unat a) cs"] obtain cs' where
      cs': "set_range False (a + s) b s (set_cpu (unat a) cs) = Some (False, cs')"
      and st: "\<And>j. is_set cs' j \<longleftrightarrow> is_set cs j \<or> (unat a < max_cpus \<and> unat a = j) \<or>
         (j < max_cpus \<and> (\<exists>k. j = unat a + unat s + k * unat s \<and> j \<le> unat b))"
      by (auto simp: u)
    have "(\<exists>k. j = unat a + k * unat s \<and> j \<le> unat b) \<longleftrightarrow>
        unat a = j \<or> (\<exists>k. j = unat a + unat s + k * unat s \<and> j \<le> unat b)" for j
    proof -
      have "(\<exists>k. Q k) \<longleftrightarrow> Q 0 \<or> (\<exists>k. Q (Suc k))" for Q :: "nat \<Rightarrow> bool"
        by (metis not0_implies_Suc)
      from this[of "\<lambda>k. j = unat a + k * unat s \<and> j \<le> unat b"] ab show ?thesis
        by (auto simp: add.assoc)
    qed
    with True cs' st show ?thesis
      by (intro exI[of _ cs']) (auto simp: set_range_unfold_step)
  next
    case False
    then have "\<not> unat a \<le> unat b" by (simp add: word_le_nat_alt)
    with False show ?thesis by (auto simp: set_range_stop)
  qed
qed

lemma set_range_diverges:
  assumes "set_range False a b s cs = Some r" shows "b \<noteq> - 1"
proof (rule set_range.raw_induct[where P = "\<lambda>fail a b s cs r. \<not> fail \<longrightarrow> b \<noteq> - 1", OF _ assms, simplified])
  fix f :: "bool \<Rightarrow> 32 word \<Rightarrow> 32 word \<Rightarrow> 32 word \<Rightarrow> cpu_set \<Rightarrow> (bool \<times> cpu_set) option"
    and fail and a b s :: "32 word" and cs r
  assume IH: "\<And>fail a b s cs r. f fail a b s cs = Some r \<Longrightarrow> \<not> fail \<longrightarrow> b \<noteq> - 1"
    and eq: "(if a \<le> b then if fail \<and> max_cpus \<le> unat a then Some (True, cs)
        else f fail (a + s) b s (set_cpu (unat a) cs) else Some (False, cs)) = Some r"
  show "\<not> fail \<longrightarrow> b \<noteq> - 1"
    using eq IH by (auto split: if_splits)
qed

lemma set_range_in_bounds:
  "b < max_cpus \<Longrightarrow> set_range fail (of_nat a) (of_nat b) 1 cs =
     Some (False, fold set_cpu [a..<Suc b] cs)" if "a \<le> Suc b"
proof -
  assume b: "b < max_cpus"
  show ?thesis using that
  proof (induction "Suc b - a" arbitrary: a cs)
    case 0
    then have "a = Suc b" by simp
    moreover have "\<not> (of_nat (Suc b) :: 32 word) \<le> of_nat b"
      using b by (simp add: word_le_nat_alt unat_of_nat max_cpus_def del: of_nat_Suc)
    ultimately show ?case by (simp add: set_range_stop del: of_nat_Suc)
  next
    case (Suc n)
    then have le: "a \<le> b" by simp
    then have w: "(of_nat a :: 32 word) \<le> of_nat b" "unat (of_nat a :: 32 word) = a"
      using b by (simp_all add: word_le_nat_alt unat_of_nat max_cpus_def)
    from Suc(1)[of "Suc a" "set_cpu a cs"] Suc(2) le
    have "set_range fail (of_nat a + 1) (of_nat b) 1 (set_cpu a cs)
        = Some (False, fold set_cpu [Suc a..<Suc b] (set_cpu a cs))"
      by (simp add: add.commute)
    with w le b show ?case
      by (simp add: set_range_unfold_step upt_conv_Cons del: upt_Suc)
  qed
qed

subsection \<open>The printed list as a sequence of tokens\<close>

function tokens :: "cpu_set \<Rightarrow> nat \<Rightarrow> (nat \<times> nat) list" where
  "tokens s i =
     (if i < max_cpus
      then if is_set s i
           then let run = run_length s (Suc i)
                in (if run = 1 then [(i, i), (i + 1, i + 1)] else [(i, i + run)]) @ tokens s (Suc (i + run))
           else tokens s (Suc i)
      else [])"
  by pat_completeness auto
termination
  by (relation "measure (\<lambda>(s, i). max_cpus - i)") auto

declare tokens.simps [simp del]

definition token_text :: "nat \<times> nat \<Rightarrow> string" where
  "token_text t = (if fst t = snd t then nat_to_dec (fst t)
     else nat_to_dec (fst t) @ ''-'' @ nat_to_dec (snd t))"

fun join_tokens :: "(nat \<times> nat) list \<Rightarrow> string" where
  "join_tokens [] = []"
| "join_tokens [t] = token_text t"
| "join_tokens (t # ts) = token_text t @ '','' @ join_tokens ts"

definition tokens_text :: "(nat \<times> nat) list \<Rightarrow> string" where
  "tokens_text ts = concat (map (\<lambda>t. token_text t @ '','') ts)"

lemma tokens_text_simps [simp]:
  "tokens_text [] = []" "tokens_text (t # ts) = token_text t @ '','' @ tokens_text ts"
  "tokens_text (ts @ us) = tokens_text ts @ tokens_text us"
  by (simp_all add: tokens_text_def)

lemma butlast_tokens_text: "butlast (tokens_text ts) = join_tokens ts"
proof (induction ts rule: join_tokens.induct)
  case 1
  then show ?case by simp
next
  case (2 t)
  then show ?case by simp
next
  case (3 t u ts)
  then show ?case by (simp add: butlast_append)
qed

lemma run_length_le: "run_length s j \<le> max_cpus - j"
proof (induction s j rule: run_length.induct)
  case (1 s j)
  then show ?case by (subst run_length.simps) auto
qed

lemma run_length_set: "k < run_length s j \<Longrightarrow> is_set s (j + k)"
proof (induction s j arbitrary: k rule: run_length.induct)
  case (1 s j)
  from "1.prems" have c: "j < max_cpus \<and> is_set s j"
    by (subst (asm) run_length.simps) (auto split: if_splits)
  then have "run_length s j = Suc (run_length s (Suc j))" by (subst run_length.simps) simp
  with "1.prems" "1.IH"[OF c, of "k - 1"] c show ?case by (cases k) auto
qed

text \<open>The text before truncation is the concatenation of the tokens, each with its comma.\<close>

lemma range_text_tokens:
  "range_text i run =
     tokens_text (if run = 1 then [(i, i), (i + 1, i + 1)] else [(i, i + run)])"
  by (simp add: range_text_def token_text_def)

lemma create_loop_tokens:
  "fst (create_loop s i len out) \<Longrightarrow>
   snd (create_loop s i len out) = butlast (out @ tokens_text (tokens s i))"
proof (induction s i len out rule: create_loop.induct)
  case (1 s i len out)
  let ?run = "run_length s (Suc i)"
  consider "\<not> i < max_cpus" | "i < max_cpus" "\<not> is_set s i" | "i < max_cpus" "is_set s i" by blast
  then show ?case
  proof cases
    case 1
    then show ?thesis by (simp add: create_loop.simps[of s i] tokens.simps[of s i])
  next
    case 2
    with "1.IH"(2) "1.prems" show ?thesis
      by (simp add: create_loop.simps[of s i] tokens.simps[of s i])
  next
    case 3
    with "1.prems" have "\<not> len \<le> length (range_text i ?run)"
      by (auto simp: create_loop.simps[of s i] Let_def split: if_splits)
    with "1.IH"(1)[OF 3 refl refl] "1.prems" 3 show ?thesis
      by (simp add: create_loop.simps[of s i] tokens.simps[of s i] Let_def range_text_tokens)
  qed
qed

lemma create_loop_fits:
  "length (tokens_text (tokens s i)) < len \<Longrightarrow> fst (create_loop s i len out)"
proof (induction s i len out rule: create_loop.induct)
  case (1 s i len out)
  let ?run = "run_length s (Suc i)"
  consider "\<not> i < max_cpus" | "i < max_cpus" "\<not> is_set s i" | "i < max_cpus" "is_set s i" by blast
  then show ?case
  proof cases
    case 1
    then show ?thesis by (simp add: create_loop.simps[of s i])
  next
    case 2
    with "1.IH"(2) "1.prems" show ?thesis
      by (simp add: create_loop.simps[of s i] tokens.simps[of s i])
  next
    case 3
    with "1.prems" have l: "length (range_text i ?run) + length (tokens_text (tokens s (Suc (i + ?run)))) < len"
      by (simp add: tokens.simps[of s i] Let_def range_text_tokens split: if_splits)
    with "1.IH"(1)[OF 3 refl refl] 3 show ?thesis
      by (simp add: create_loop.simps[of s i] Let_def)
  qed
qed

lemma cpulist_create_text:
  "fst (cpulist_create len s) \<Longrightarrow> snd (cpulist_create len s) = join_tokens (tokens s 0)"
  unfolding cpulist_create_def using create_loop_tokens[of s 0 len "[]"]
  by (simp add: butlast_tokens_text)

text \<open>The tokens cover exactly the set.\<close>

lemma tokens_range: "(a, b) \<in> set (tokens s i) \<Longrightarrow> i \<le> a \<and> a \<le> b \<and> b < max_cpus"
proof (induction s i rule: tokens.induct)
  case (1 s i)
  let ?run = "run_length s (Suc i)"
  have r: "?run \<le> max_cpus - Suc i" by (rule run_length_le)
  from 1 show ?case
    by (subst (asm) (3) tokens.simps) (use r in \<open>fastforce simp: Let_def split: if_splits\<close>)
qed

lemma tokens_cover:
  "(\<exists>(a, b) \<in> set (tokens s i). a \<le> j \<and> j \<le> b) \<longleftrightarrow> i \<le> j \<and> is_set s j"
proof (induction s i rule: tokens.induct)
  case (1 s i)
  let ?run = "run_length s (Suc i)"
  consider "\<not> i < max_cpus" | "i < max_cpus" "\<not> is_set s i" | "i < max_cpus" "is_set s i" by blast
  then show ?case
  proof cases
    case 1
    then show ?thesis by (auto simp: tokens.simps[of s i] is_set_def)
  next
    case 2
    with "1.IH"(2) show ?thesis
      by (simp add: tokens.simps[of s i]) (metis Suc_leD not_less_eq_eq le_antisym)
  next
    case 3
    have "is_set s (i + k)" if "k \<le> ?run" for k
      using that 3 run_length_set[of "k - 1" s "Suc i"] by (cases k) auto
    then have run: "is_set s j" if "i \<le> j" "j \<le> i + ?run" for j
      using that by (metis le_Suc_ex add_le_cancel_left)
    have split: "(\<exists>(a, b) \<in> set (tokens s i). a \<le> j \<and> j \<le> b) \<longleftrightarrow>
        (i \<le> j \<and> j \<le> i + ?run) \<or> (\<exists>(a, b) \<in> set (tokens s (Suc (i + ?run))). a \<le> j \<and> j \<le> b)"
      using 3 by (subst tokens.simps) (auto simp: Let_def)
    show ?thesis
      unfolding split "1.IH"(1)[OF 3 refl] using run by (auto simp: not_le)
  qed
qed

subsection \<open>Parsing a printed list\<close>

text \<open>What may follow a token: nothing, or a comma and further tokens.\<close>

definition token_rest :: "string \<Rightarrow> bool" where
  "token_rest r \<longleftrightarrow> CHR '':'' \<notin> set r \<and> (r = [] \<or> hd r = CHR '','')"

lemma not_digit_sep [simp]:
  "\<not> is_digit (CHR '','')" "\<not> is_digit (CHR ''-'')" "\<not> is_digit (CHR '':'')"
  by (simp_all add: is_digit_def)

lemma nat_to_dec_no_sep [simp]:
  "CHR '','' \<notin> set (nat_to_dec n)" "CHR ''-'' \<notin> set (nat_to_dec n)" "CHR '':'' \<notin> set (nat_to_dec n)"
  using nat_to_dec_digits not_digit_sep by blast+

lemma strchr_append: "c \<notin> set s \<Longrightarrow> strchr (s @ r) c = strchr r c"
  unfolding strchr_def by (simp add: dropWhile_append)

lemma strchr_hd [simp]: "strchr (c # s) c = Some (c # s)"
  by (simp add: strchr_def)

lemma nexttoken_skip: "c \<notin> set s \<Longrightarrow> nexttoken (Some (s @ r)) c = nexttoken (Some r) c"
  by (simp add: nexttoken_def strchr_append)

lemma nexttoken_hd [simp]: "nexttoken (Some (c # r)) c = Some r"
  by (simp add: nexttoken_def)

lemma nexttoken_None: "c \<notin> set r \<Longrightarrow> nexttoken (Some r) c = None"
proof -
  assume "c \<notin> set r"
  then have "dropWhile (\<lambda>x. x \<noteq> c) r = []" by (auto simp only: dropWhile_eq_Nil_conv)
  then have "strchr r c = None" unfolding strchr_def by (simp only: list.case)
  then show ?thesis by (simp add: nexttoken_def)
qed

lemma nextnumber_dec:
  "r = [] \<or> \<not> is_digit (hd r) \<Longrightarrow> n < 2 ^ 64 \<Longrightarrow>
   nextnumber (nat_to_dec n @ r) = Some (of_nat n, r)"
  by (auto simp: nextnumber_def Let_def takeWhile_nat_to_dec dropWhile_nat_to_dec hd_append)

lemma token_rest_cases:
  assumes "token_rest r" obtains "r = []" | r' where "r = CHR '','' # r'" "CHR '':'' \<notin> set r'"
  using assms by (cases r) (auto simp: token_rest_def)

lemma token_rest_not_digit: "token_rest r \<Longrightarrow> r = [] \<or> \<not> is_digit (hd r)"
  by (auto simp: token_rest_def)

lemma parse_single:
  assumes "token_rest r" and "a < 2 ^ 64"
  shows "parse_range (nat_to_dec a @ r) = Some (of_nat a, of_nat a, 1, r)"
proof -
  have "\<not> ptr_before (nexttoken (Some r) (CHR ''-'')) (nexttoken (Some r) (CHR '',''))"
    using assms(1)
  proof (cases rule: token_rest_cases)
    case 1
    then show ?thesis by (simp add: nexttoken_None ptr_before_def)
  next
    case (2 r')
    have "nexttoken (Some (CHR '','' # r')) (CHR ''-'') = nexttoken (Some r') (CHR ''-'')"
      using nexttoken_skip[of "CHR ''-''" "'',''" r'] by simp
    with 2 show ?thesis
      by (auto simp: ptr_before_def split: option.splits dest: nexttoken_length)
  qed
  then show ?thesis
    using assms by (simp add: parse_range_def nextnumber_dec token_rest_not_digit Let_def)
qed

lemma parse_dash:
  assumes "token_rest r" and "a \<le> b" and "b < 2 ^ 32"
  shows "parse_range (nat_to_dec a @ ''-'' @ nat_to_dec b @ r) = Some (of_nat a, of_nat b, 1, r)"
proof -
  let ?e = "''-'' @ nat_to_dec b @ r"
  have c1: "nexttoken (Some ?e) (CHR ''-'') = Some (nat_to_dec b @ r)" by simp
  have "CHR '','' \<notin> set (''-'' @ nat_to_dec b)" by simp
  from nexttoken_skip[OF this, of r]
  have c2: "nexttoken (Some ?e) (CHR '','') = nexttoken (Some r) (CHR '','')" by simp
  have before: "ptr_before (Some (nat_to_dec b @ r)) (nexttoken (Some r) (CHR '',''))"
    by (auto simp: ptr_before_def split: option.splits dest: nexttoken_length)
  have colon: "(if r \<noteq> [] then nexttoken (Some r) (CHR '':'') else None) = None"
    using assms(1) by (simp add: token_rest_def nexttoken_None)
  have le: "(of_nat a :: 32 word) \<le> of_nat b"
    using assms(2,3) by (simp add: word_le_nat_alt unat_of_nat)
  have n1: "nextnumber (nat_to_dec a @ ?e) = Some (of_nat a, ?e)"
    using assms by (intro nextnumber_dec) auto
  have n2: "nextnumber (nat_to_dec b @ r) = Some (of_nat b, r)"
    using assms by (intro nextnumber_dec token_rest_not_digit) auto
  show ?thesis
    unfolding parse_range_def n1 option.case prod.case Let_def c1 c2
    using before by (simp only: if_True option.sel n2 option.case prod.case colon) (simp add: ptr_before_def le)
qed

lemma parse_token:
  assumes "token_rest r" and "fst t \<le> snd t" and "snd t < max_cpus"
  shows "parse_range (token_text t @ r) = Some (of_nat (fst t), of_nat (snd t), 1, r)"
  using assms parse_single[of r "snd t"] parse_dash[of r "fst t" "snd t"]
  by (cases "fst t = snd t") (simp_all add: token_text_def max_cpus_def)

lemma token_text_no_comma [simp]: "CHR '','' \<notin> set (token_text t)" "CHR '':'' \<notin> set (token_text t)"
  by (auto simp: token_text_def)

lemma join_no_colon [simp]: "CHR '':'' \<notin> set (join_tokens ts)"
  by (induction ts rule: join_tokens.induct) auto

lemma cpulist_loop_join:
  assumes "ts \<noteq> []" and "\<And>t. t \<in> set ts \<Longrightarrow> fst t \<le> snd t \<and> snd t < max_cpus"
  shows "cpulist_loop fail (Some (join_tokens ts)) e cs =
    Some (0, fold (\<lambda>t. fold set_cpu [fst t..<Suc (snd t)]) ts cs)"
  using assms
proof (induction ts arbitrary: e cs rule: join_tokens.induct)
  case 1
  then show ?case by simp
next
  case (2 t)
  have "parse_range (token_text t @ []) = Some (of_nat (fst t), of_nat (snd t), 1, [])"
    using 2 by (intro parse_token) (auto simp: token_rest_def)
  moreover have "nexttoken (Some (token_text t)) (CHR '','') = None" by (simp add: nexttoken_None)
  ultimately show ?case
    using 2 set_range_in_bounds[of "fst t" "snd t" fail cs] by (simp add: le_SucI del: upt_Suc)
next
  case (3 t u ts)
  let ?r = "CHR '','' # join_tokens (u # ts)"
  have "parse_range (token_text t @ ?r) = Some (of_nat (fst t), of_nat (snd t), 1, ?r)"
    using 3 by (intro parse_token) (auto simp: token_rest_def)
  moreover have "nexttoken (Some (token_text t @ ?r)) (CHR '','') = Some (join_tokens (u # ts))"
    by (simp add: nexttoken_skip del: join_tokens.simps)
  ultimately show ?case
    using 3 set_range_in_bounds[of "fst t" "snd t" fail cs]
    by (simp add: le_SucI del: upt_Suc)
qed

lemma is_set_fold_tokens:
  "is_set (fold (\<lambda>t. fold set_cpu [fst t..<Suc (snd t)]) ts cs) j \<longleftrightarrow>
     is_set cs j \<or> j < max_cpus \<and> (\<exists>(a, b) \<in> set ts. a \<le> j \<and> j \<le> b)"
  by (induction ts arbitrary: cs) (auto simp: is_set_fold_set_cpu simp del: upt_Suc)

lemma tokens_not_Nil: "s \<noteq> 0 \<Longrightarrow> tokens s 0 \<noteq> []"
proof
  assume "s \<noteq> 0" and "tokens s 0 = []"
  then obtain j where "is_set s j" using cpu_set_eqI[of s 0] by auto
  with \<open>tokens s 0 = []\<close> tokens_cover[of s 0 j] show False by simp
qed

lemma cpulist_parse_join:
  assumes "s \<noteq> 0" shows "cpulist_parse (join_tokens (tokens s 0)) fail = Some (0, s)"
proof -
  have "fold (\<lambda>t. fold set_cpu [fst t..<Suc (snd t)]) (tokens s 0) 0 = s"
    by (rule cpu_set_eqI, simp only: is_set_fold_tokens tokens_cover) (auto simp: is_set_def bit_0_eq)
  moreover have "fst t \<le> snd t \<and> snd t < max_cpus" if "t \<in> set (tokens s 0)" for t
    using that tokens_range[of "fst t" "snd t" s 0] by simp
  ultimately show ?thesis
    using cpulist_loop_join[OF tokens_not_Nil[OF assms]] by (simp add: cpulist_parse_def del: upt_Suc)
qed

lemma tokens_text_length:
  "length (tokens_text (tokens s i)) \<le> 3 * length (filter (is_set s) [i..<max_cpus])"
proof (induction s i rule: tokens.induct)
  case (1 s i)
  let ?run = "run_length s (Suc i)"
  consider "\<not> i < max_cpus" | "i < max_cpus" "\<not> is_set s i" | "i < max_cpus" "is_set s i" by blast
  then show ?case
  proof cases
    case 1
    then show ?thesis by (simp add: tokens.simps[of s i])
  next
    case 2
    with "1.IH"(2) show ?thesis by (simp add: tokens.simps[of s i] upt_conv_Cons)
  next
    case 3
    have r: "i + ?run < max_cpus" using run_length_le[of s "Suc i"] 3 by simp
    have all: "is_set s j" if "i \<le> j" "j \<le> i + ?run" for j
      using that 3(2) run_length_set[of "j - Suc i" s "Suc i"] by (cases "j = i") auto
    have "[i..<max_cpus] = [i..<Suc (i + ?run)] @ [Suc (i + ?run)..<max_cpus]"
      using r by (metis Suc_leI le_add1 le_SucI upt_add_eq_append le_add_diff_inverse)
    moreover have "filter (is_set s) [i..<Suc (i + ?run)] = [i..<Suc (i + ?run)]"
      using all by (intro filter_True) auto
    ultimately have f: "length (filter (is_set s) [i..<max_cpus]) =
        Suc ?run + length (filter (is_set s) [Suc (i + ?run)..<max_cpus])"
      by (simp del: upt_Suc)
    have d: "length (nat_to_dec i) \<le> 2" "length (nat_to_dec (Suc i)) \<le> 2 \<or> \<not> Suc i < max_cpus"
        "length (nat_to_dec (i + ?run)) \<le> 2"
      using r by (auto intro!: nat_to_dec_less_100 simp: max_cpus_def)
    have "length (tokens_text (if ?run = 1 then [(i, i), (i + 1, i + 1)] else [(i, i + ?run)]))
        \<le> 3 * Suc ?run"
      using d r by (auto simp: token_text_def)
    with "1.IH"(1)[OF 3 refl] f 3 show ?thesis
      by (subst tokens.simps) (simp add: Let_def)
  qed
qed

lemma cpulist_create_fits: "3 * cpu_count s < len \<Longrightarrow> fst (cpulist_create len s)"
  unfolding cpulist_create_def
  by (rule create_loop_fits) (use tokens_text_length[of s 0] in \<open>simp add: cpu_count_def\<close>)

lemma find_up_Inr: "find_up s is = Inr i \<Longrightarrow> i \<in> set is \<and> is_set s i"
  by (induction "is") (auto split: if_splits)

lemma find_up_least: "sorted is \<Longrightarrow> find_up s is = Inr i \<Longrightarrow> j \<in> set is \<Longrightarrow> is_set s j \<Longrightarrow> i \<le> j"
  by (induction "is") (auto split: if_splits)

lemma find_up_Inl: "(\<exists>e. find_up s is = Inl e) \<longleftrightarrow> (\<forall>j \<in> set is. \<not> is_set s j)"
  by (induction "is") auto

lemma find_down_Inr: "find_down s n = Inr i \<Longrightarrow> i < n \<and> is_set s i \<and> (\<forall>j < n. is_set s j \<longrightarrow> j \<le> i)"
  by (induction n) (auto split: if_splits simp: less_Suc_eq)

lemma find_down_Inl: "(\<exists>e. find_down s n = Inl e) \<longleftrightarrow> (\<forall>j < n. \<not> is_set s j)"
  by (induction n) (auto simp: less_Suc_eq)

lemma is_set_less: "is_set s j \<Longrightarrow> j < max_cpus"
  by (simp add: is_set_def)

lemma nonempty_iff: "s \<noteq> 0 \<longleftrightarrow> (\<exists>j. is_set s j)"
  using cpu_set_eqI[of s 0] by auto

lemma cpu_count_eq_card: "cpu_count s = card {j. is_set s j}"
proof -
  have "distinct (filter (is_set s) [0..<max_cpus])" by simp
  from distinct_card[OF this] have "cpu_count s = card (set (filter (is_set s) [0..<max_cpus]))"
    by (simp add: cpu_count_def)
  also have "set (filter (is_set s) [0..<max_cpus]) = {j. is_set s j}"
    by (auto dest: is_set_less)
  finally show ?thesis .
qed

lemma cpu_count_pos_iff: "0 < cpu_count s \<longleftrightarrow> s \<noteq> 0"
proof -
  have "finite {j. is_set s j}"
    by (rule finite_subset[of _ "{..<max_cpus}"]) (auto dest: is_set_less)
  then show ?thesis by (auto simp: cpu_count_eq_card card_gt_0_iff nonempty_iff)
qed

lemma and_push_bit_1: "m AND push_bit i 1 \<noteq> 0 \<longleftrightarrow> is_set m i" for m :: cpu_set
  unfolding bit_eq_iff [of "m AND push_bit i 1" 0] is_set_def max_cpus_def by (auto simp: bit_simps)

lemma is_set_fold_mask:
  "is_set (fold (\<lambda>i s. if is_set m i then set_cpu i s else s) xs s) j \<longleftrightarrow>
     is_set s j \<or> j \<in> set xs \<and> is_set m j"
  by (induction xs arbitrary: s) (auto dest: is_set_less)

lemma cpu_set_of_mask_id: "cpu_set_of_mask m = m"
  unfolding cpu_set_of_mask_def and_push_bit_1
  by (rule cpu_set_eqI, unfold is_set_fold_mask) (auto dest: is_set_less simp: max_cpus_def)

subsection \<open>The codec\<close>

definition print_cpulist :: "nat \<Rightarrow> cpu_set \<Rightarrow> string option" where
  "print_cpulist len s = (if fst (cpulist_create len s) then Some (snd (cpulist_create len s)) else None)"

definition read_cpulist :: "bool \<Rightarrow> string \<Rightarrow> cpu_set option" where
  "read_cpulist fail t = (case cpu_set_of_string t fail of Inl e \<Rightarrow> None | Inr s \<Rightarrow> Some s)"

lemma cpu_set_of_create:
  "s \<noteq> 0 \<Longrightarrow> fst (cpulist_create len s) \<Longrightarrow> cpu_set_of_string (snd (cpulist_create len s)) fail = Inr s"
  by (simp add: cpulist_create_text cpulist_parse_join cpu_set_of_string_def)

interpretation cpulist: text_codec "print_cpulist len" "read_cpulist fail" "\<lambda>s. s \<noteq> 0" for len fail
  by unfold_locales
    (auto simp: print_cpulist_def read_cpulist_def cpu_set_of_create split: if_splits)

lemma find_up_None: "(\<forall>j \<in> set is. \<not> is_set s j) \<Longrightarrow> find_up s is = Inl (Runtime_error ''empty cpu_set'')"
  by (induction "is") auto

lemma find_down_None: "(\<forall>j < n. \<not> is_set s j) \<Longrightarrow> find_down s n = Inl (Runtime_error ''empty cpu_set'')"
  by (induction n) auto

lemma finite_is_set [simp]: "finite {j. is_set s j}"
  by (rule finite_subset[of _ "{..<max_cpus}"]) (auto dest: is_set_less)

lemma lowest_nonempty:
  assumes "s \<noteq> 0" shows "lowest s = Inr (Min {j. is_set s j})"
proof -
  obtain k where k: "is_set s k" using assms by (auto simp: nonempty_iff)
  then have "\<not> (\<exists>e. lowest s = Inl e)"
    unfolding lowest_def find_up_Inl using is_set_less[OF k] by auto
  then obtain i where i: "lowest s = Inr i" by (cases "lowest s") auto
  then have "is_set s i" and "\<And>j. is_set s j \<Longrightarrow> i \<le> j"
    using find_up_Inr[of s _ i] find_up_least[of "[0..<max_cpus]" s i]
    by (auto simp: lowest_def dest: is_set_less)
  then have "Min {j. is_set s j} = i" by (intro Min_eqI) auto
  with i show ?thesis by simp
qed

lemma highest_nonempty:
  assumes "s \<noteq> 0" shows "highest s = Inr (Max {j. is_set s j})"
proof -
  obtain k where k: "is_set s k" using assms by (auto simp: nonempty_iff)
  then have "\<not> (\<exists>e. highest s = Inl e)"
    unfolding highest_def find_down_Inl using is_set_less[OF k] by auto
  then obtain i where i: "highest s = Inr i" by (cases "highest s") auto
  then have "is_set s i" and "\<And>j. is_set s j \<Longrightarrow> j \<le> i"
    using find_down_Inr[of s max_cpus i] by (auto simp: highest_def dest: is_set_less)
  then have "Max {j. is_set s j} = i" by (intro Max_eqI) auto
  with i show ?thesis by simp
qed

lemmas cpulist_eval = create_loop.simps run_length.simps is_set_def max_cpus_def range_text_def
  nat_to_dec.simps digit_char_def char_of_def Let_def bit_0

subsection \<open>Properties\<close>

text \<open>
  C33. A non-empty set whose list fits into the buffer: what \<open>cpulist_create\<close> prints, \<open>cpulist_parse\<close> reads back as the
  same set with return code 0; and no other non-empty set prints the same list.
\<close>

theorem cpulist_roundtrip:
  assumes "s \<noteq> 0" and "fst (cpulist_create len s)"
  shows "cpulist_parse (snd (cpulist_create len s)) fail = Some (0, s) \<and>
    (\<forall>t. t \<noteq> 0 \<longrightarrow> cpulist_create len t = cpulist_create len s \<longrightarrow> t = s)"
proof -
  have "cpulist_parse (snd (cpulist_create len s)) fail = Some (0, s)"
    using assms by (simp add: cpulist_create_text cpulist_parse_join)
  moreover have "t = s" if "t \<noteq> 0" "cpulist_create len t = cpulist_create len s" for t
    using cpulist.encode_injective[OF that(1) assms(1), of len] that(2) assms(2)
    by (simp add: print_cpulist_def)
  ultimately show ?thesis by blast
qed

theorem cpulist_roundtrip_witness:
  "fst (cpulist_create 100 0xE5) \<and> cpulist_parse (snd (cpulist_create 100 0xE5)) False = Some (0, 0xE5)"
proof -
  have "fst (cpulist_create 100 0xE5)"
    by (rule cpulist_create_fits) (simp add: cpu_count_def is_set_def max_cpus_def upt_rec)
  with cpulist_roundtrip[of "0xE5" 100 False] show ?thesis by simp
qed

text \<open>
  \<open>cpu_set::as_list\<close> prints into 100 bytes; for a non-empty set of at most 33 CPUs the text fits
  and the constructor \<open>cpu_set(as_list)\<close> gives the set back.
\<close>

lemma as_list_roundtrip:
  assumes "s \<noteq> 0" and "cpu_count s \<le> 33"
  shows "cpu_set_of_string (as_list s) fail = Inr s"
proof -
  have "fst (cpulist_create 100 s)" using assms(2) by (intro cpulist_create_fits) simp
  with assms(1) show ?thesis by (simp add: as_list_def cpu_set_of_create)
qed

lemma as_list_roundtrip_witness: "cpu_set_of_string (as_list 0xE5) True = Inr 0xE5"
  by (rule as_list_roundtrip) (simp_all add: cpu_count_def is_set_def max_cpus_def upt_rec)

text \<open>
  Beyond that \<open>as_list\<close> silently truncates: the set with mask \<open>0xb6db6db6db6db6db\<close> is printed as a
  list cut in the middle of a number, which denotes a set with CPU 5, which is not in the set, and
  without CPU 52, which is.
\<close>

lemma as_list_truncated:
  "as_list 0xb6db6db6db6db6db = ''0,1,3,4,6,7,9,10,12,13,15,16,18,19,21,22,24,25,27,28,30,31,33,34,36,37,39,40,42,43,45,46,48,49,51,5''
   \<and> (\<exists>t. cpu_set_of_string (as_list 0xb6db6db6db6db6db) False = Inr t \<and>
        is_set t 5 \<and> \<not> is_set 0xb6db6db6db6db6db 5 \<and> \<not> is_set t 52 \<and> is_set 0xb6db6db6db6db6db 52)"
proof -
  let ?ts = "map (\<lambda>i. (i, i)) [0,1,3,4,6,7,9,10,12,13,15,16,18,19,21,22,24,25,27,28,30,31,33,34,36,
    37,39,40,42,43,45,46,48,49,51,5]"
  have l: "as_list 0xb6db6db6db6db6db = ''0,1,3,4,6,7,9,10,12,13,15,16,18,19,21,22,24,25,27,28,30,31,33,34,36,37,39,40,42,43,45,46,48,49,51,5''"
    by (simp add: as_list_def cpulist_create_def cpulist_eval)
  have j: "join_tokens ?ts = as_list 0xb6db6db6db6db6db"
    unfolding l by (simp add: token_text_def cpulist_eval)
  have "cpulist_loop False (Some (join_tokens ?ts)) [] 0
      = Some (0, fold (\<lambda>t. fold set_cpu [fst t..<Suc (snd t)]) ?ts 0)"
    by (rule cpulist_loop_join) (auto simp: max_cpus_def)
  then have "cpu_set_of_string (as_list 0xb6db6db6db6db6db) False =
      Inr (fold (\<lambda>t. fold set_cpu [fst t..<Suc (snd t)]) ?ts 0)" (is "_ = Inr ?t")
    unfolding j by (simp add: cpu_set_of_string_def cpulist_parse_def)
  moreover have "is_set ?t 5" "\<not> is_set ?t 52"
    unfolding is_set_fold_tokens by (simp_all add: max_cpus_def)
  moreover have "\<not> is_set 0xb6db6db6db6db6db 5" "is_set 0xb6db6db6db6db6db 52"
    by (simp_all add: is_set_def max_cpus_def)
  ultimately show ?thesis using l by blast
qed

text \<open>
  The range loop of \<open>cpulist_parse\<close> ends where \<open>b + s\<close> does not wrap around, and sets exactly the
  arithmetic progression from \<open>a\<close> to \<open>b\<close> with stride \<open>s\<close>, restricted to the CPUs that fit the set.
\<close>

lemma set_range_spec:
  assumes "0 < s" and "unat b + unat s < 2 ^ 32"
  shows "\<exists>cs'. set_range False a b s cs = Some (False, cs') \<and>
    (\<forall>j. is_set cs' j \<longleftrightarrow>
       is_set cs j \<or> (j < max_cpus \<and> (\<exists>k. j = unat a + k * unat s \<and> j \<le> unat b)))"
  using assms by (rule set_range_progression)

lemma set_range_spec_witness:
  "\<exists>cs'. set_range False 5 9 2 0 = Some (False, cs') \<and> is_set cs' 7 \<and> \<not> is_set cs' 8"
proof -
  have "(7::nat) = 5 + 1 * 2" by simp
  moreover have "8 \<noteq> 5 + k * (2::nat)" for k by presburger
  ultimately show ?thesis using set_range_spec[of 2 9 5 0] by (auto simp: max_cpus_def)
qed

text \<open>
  Where the upper end of a range is \<open>UINT_MAX\<close> the loop condition \<open>a <= b\<close> never fails: the
  constructor does not return on the list \<open>0-4294967295\<close>.
\<close>

lemma cpulist_parse_diverges: "cpu_set_of_string ''0-4294967295'' False = Inl Diverges"
proof -
  have "parse_range ''0-4294967295'' = Some (0, - 1, 1, [])"
    by (simp add: parse_range_def nextnumber_def is_digit_def dec_to_nat_def nexttoken_def strchr_def
        ptr_before_def)
  moreover have "set_range False 0 (- 1) 1 0 = None"
    using set_range_diverges by (cases "set_range False 0 (- 1) 1 0") blast+
  ultimately show ?thesis by (simp add: cpu_set_of_string_def cpulist_parse_def)
qed

text \<open>
  Only what follows the last number is checked for garbage: a malformed token before a comma is
  accepted.
\<close>

lemma cpulist_garbage_accepted: "cpu_set_of_string ''1abc,2'' False = Inr 6"
proof -
  have p: "parse_range ''1abc,2'' = Some (1, 1, 1, ''abc,2'')"
    by (simp add: parse_range_def nextnumber_def is_digit_def dec_to_nat_def nexttoken_def strchr_def
        ptr_before_def)
  have q: "parse_range ''2'' = Some (2, 2, 1, [])"
    by (simp add: parse_range_def nextnumber_def is_digit_def dec_to_nat_def nexttoken_def strchr_def
        ptr_before_def)
  have t: "nexttoken (Some ''1abc,2'') (CHR '','') = Some ''2''" "nexttoken (Some ''2'') (CHR '','') = None"
    by (simp_all add: nexttoken_def strchr_def)
  have r: "set_range False 1 1 1 0 = Some (False, 2)" "set_range False 2 2 1 2 = Some (False, 6)"
    using set_range_in_bounds[of 1 1 False 0] set_range_in_bounds[of 2 2 False 2]
    by (simp_all add: set_cpu_def max_cpus_def)
  show ?thesis by (simp add: cpu_set_of_string_def cpulist_parse_def p q t r)
qed

text \<open>
  \<open>lowest\<close> and \<open>highest\<close> give the extreme CPUs of the set and throw on the empty set.
\<close>

lemma lowest_highest_spec:
  "lowest s = (if s = 0 then Inl (Runtime_error ''empty cpu_set'') else Inr (Min {j. is_set s j}))
   \<and> highest s = (if s = 0 then Inl (Runtime_error ''empty cpu_set'') else Inr (Max {j. is_set s j}))"
  by (auto simp: lowest_nonempty highest_nonempty)
    (simp_all add: lowest_def highest_def find_up_None find_down_None)

end
