(* ===== verification/Cpu_Mask.thy ===== *)
theory Cpu_Mask
  imports Cpu_Set
begin

text \<open>
  The rest of \<open>src/src/lib/cpuset.c\<close> and \<open>src/src/lib/cpuset.h\<close>: the hexadecimal format of CPU masks, the
  bitmap macros and the population count for C libraries without them, and the number of CPUs of the system;
  and the remaining methods of \<open>cpu_set\<close>. A bitmap is the list of its 64-bit words.
\<close>

subsection \<open>Bitmaps\<close>

definition CPU_ALLOC_SIZE :: "nat \<Rightarrow> nat" where
  "CPU_ALLOC_SIZE count = ((count + 64 - 1) div 64) * 8"

definition cpuset_nbits :: "nat \<Rightarrow> nat" where
  "cpuset_nbits setsize = 8 * setsize"

definition CPU_ZERO_S :: "nat \<Rightarrow> 64 word list \<Rightarrow> 64 word list" where
  "CPU_ZERO_S setsize ws = replicate (setsize div 8) 0 @ drop (setsize div 8) ws"

definition CPU_SET_S :: "nat \<Rightarrow> nat \<Rightarrow> 64 word list \<Rightarrow> 64 word list" where
  "CPU_SET_S cpu setsize ws =
     (if cpu < 8 * setsize then ws[cpu div 64 := ws ! (cpu div 64) OR push_bit (cpu mod 64) 1] else ws)"

definition CPU_ISSET_S :: "nat \<Rightarrow> nat \<Rightarrow> 64 word list \<Rightarrow> bool" where
  "CPU_ISSET_S cpu setsize ws \<longleftrightarrow> cpu < 8 * setsize \<and> ws ! (cpu div 64) AND push_bit (cpu mod 64) 1 \<noteq> 0"

definition CPU_EQUAL_S :: "nat \<Rightarrow> 64 word list \<Rightarrow> 64 word list \<Rightarrow> bool" where
  "CPU_EQUAL_S setsize ws vs \<longleftrightarrow> list_all (\<lambda>i. ws ! i = vs ! i) [0..<setsize div 8]"

text \<open>\<open>cpuset_ary_isset\<close>: \<open>None\<close> is the return value 1, \<open>Some i\<close> is 0 with \<open>*idx = i\<close>.\<close>

fun cpuset_ary_isset :: "nat \<Rightarrow> 64 word list list \<Rightarrow> nat \<Rightarrow> nat \<Rightarrow> nat option" where
  "cpuset_ary_isset cpu [] setsize i = None"
| "cpuset_ary_isset cpu (ws # ary) setsize i =
     (if CPU_ISSET_S cpu setsize ws then Some i else cpuset_ary_isset cpu ary setsize (Suc i))"

text \<open>One step of the parallel count, and the count of a word.\<close>

definition count_step :: "nat \<Rightarrow> 64 word \<Rightarrow> 64 word \<Rightarrow> 64 word" where
  "count_step w m l = (l AND m) + (drop_bit w l AND m)"

definition count_word :: "64 word \<Rightarrow> 64 word" where
  "count_word l =
     count_step 32 0x00000000ffffffff (count_step 16 0x0000ffff0000ffff (count_step 8 0x00ff00ff00ff00ff
      (count_step 4 0x0f0f0f0f0f0f0f0f (count_step 2 0x3333333333333333 (count_step 1 0x5555555555555555 l)))))"

text \<open>\<open>__cpuset_count_s\<close>: \<open>s\<close> is an \<open>int\<close>.\<close>

definition cpuset_count_s :: "nat \<Rightarrow> 64 word list \<Rightarrow> 32 word" where
  "cpuset_count_s setsize ws = fold (\<lambda>l s. if l = 0 then s else s + ucast (count_word l)) (take (setsize div 8) ws) 0"

subsection \<open>The parallel count\<close>

text \<open>
  The sum of the \<open>n\<close> fields of \<open>w\<close> bits of a number. A step replaces neighbouring fields by their sum in a
  field of twice the width and so keeps it: it starts as the number of set bits and ends as the value.
\<close>

fun field_sum :: "nat \<Rightarrow> nat \<Rightarrow> nat \<Rightarrow> nat" where
  "field_sum w 0 x = 0"
| "field_sum w (Suc n) x = x mod 2 ^ w + field_sum w n (x div 2 ^ w)"

fun field_mask :: "nat \<Rightarrow> nat \<Rightarrow> nat" where
  "field_mask w 0 = 0"
| "field_mask w (Suc n) = mask w + push_bit (2 * w) (field_mask w n)"

lemma field_mask_numeral: "field_mask w (numeral k) = mask w + push_bit (2 * w) (field_mask w (pred_numeral k))"
  by (simp add: numeral_eq_Suc)

definition field_step :: "nat \<Rightarrow> nat \<Rightarrow> nat \<Rightarrow> nat" where
  "field_step w n x = (x AND field_mask w n) + (drop_bit w x AND field_mask w n)"

lemma and_split: "(x :: nat) AND (mask w + push_bit (2 * w) y) = x mod 2 ^ w + 2 ^ (2 * w) * ((x div 2 ^ (2 * w)) AND y)"
proof -
  have "mask w + push_bit (2 * w) y = mask w OR push_bit (2 * w) y"
    by (rule disjunctive_add_eq_or) (auto intro!: bit_eqI simp: bit_simps)
  moreover have "x AND (mask w OR push_bit (2 * w) y) = take_bit w x OR push_bit (2 * w) (drop_bit (2 * w) x AND y)"
    by (rule bit_eqI) (auto simp: bit_simps)
  moreover have "\<dots> = take_bit w x + push_bit (2 * w) (drop_bit (2 * w) x AND y)"
    by (rule disjunctive_add_eq_or[symmetric]) (auto intro!: bit_eqI simp: bit_simps)
  ultimately show ?thesis by (simp add: take_bit_eq_mod drop_bit_eq_div push_bit_eq_mult mult.commute)
qed

lemma field_step_Suc:
  "field_step w (Suc n) x = (x mod 2 ^ w + x div 2 ^ w mod 2 ^ w) + 2 ^ (2 * w) * field_step w n (x div 2 ^ (2 * w))"
proof -
  have "x div 2 ^ w div 2 ^ (2 * w) = x div 2 ^ (2 * w) div 2 ^ w"
    by (simp add: div_mult2_eq[symmetric] mult.commute)
  then show ?thesis by (simp add: field_step_def and_split drop_bit_eq_div distrib_left)
qed

lemma field_pair: "0 < w \<Longrightarrow> x mod 2 ^ w + x div 2 ^ w mod 2 ^ w < (2 ^ (2 * w) :: nat)"
proof -
  assume "0 < w"
  then have "2 * 2 ^ w \<le> (2 ^ (2 * w) :: nat)" by (simp add: mult_2 power_add) (cases w, auto)
  moreover have "x mod 2 ^ w < 2 ^ w" "x div 2 ^ w mod 2 ^ w < (2 ^ w :: nat)" by simp_all
  ultimately show ?thesis by linarith
qed

lemma field_step_sum: "0 < w \<Longrightarrow> field_sum (2 * w) n (field_step w n x) = field_sum w (2 * n) x"
proof (induction n arbitrary: x)
  case (Suc n)
  have "field_sum w (2 * Suc n) x = x mod 2 ^ w + x div 2 ^ w mod 2 ^ w + field_sum w (2 * n) (x div 2 ^ (2 * w))"
    by (simp add: div_mult2_eq[symmetric] mult_2 power_add)
  then show ?case using Suc field_pair[OF Suc.prems, of x] by (simp add: field_step_Suc)
qed (simp add: field_step_def)

lemma field_step_less: "0 < w \<Longrightarrow> field_step w n x < 2 ^ (2 * w * n)"
proof (induction n arbitrary: x)
  case (Suc n)
  let ?p = "2 ^ (2 * w) :: nat" and ?y = "field_step w n (x div 2 ^ (2 * w))"
  have "?y + 1 \<le> 2 ^ (2 * w * n)" using Suc by (simp add: Suc_leI)
  then have "?p * (?y + 1) \<le> ?p * 2 ^ (2 * w * n)" by (rule mult_le_mono2)
  with field_pair[OF Suc.prems, of x] show ?case by (simp add: field_step_Suc power_add distrib_left)
qed (simp add: field_step_def)

text \<open>On words no step overflows.\<close>

lemma unat_count_step:
  assumes "0 < w" and "2 * w * n = 64" and "unat m = field_mask w n"
  shows "unat (count_step w m l) = field_step w n (unat l)"
proof -
  have "take_bit 64 (unat l) = unat l" using unsigned_less[of l] by (simp add: take_bit_nat_eq_self_iff)
  then have "unat (l AND m) + unat (drop_bit w l AND m) = field_step w n (unat l)"
    by (simp add: field_step_def unsigned_and_eq unsigned_drop_bit_eq assms(3))
  moreover have "\<dots> < 2 ^ 64" using field_step_less[OF assms(1), of n "unat l"] assms(2) by simp
  ultimately show ?thesis by (simp add: count_step_def unat_word_ariths)
qed

lemma field_sum_bits: "field_sum 1 n x = length (filter (bit x) [0..<n])"
proof (induction n arbitrary: x)
  case (Suc n)
  have u: "[0..<Suc n] = 0 # map Suc [0..<n]" by (simp add: upt_conv_Cons map_Suc_upt del: upt_Suc)
  have "filter (bit x) (map Suc [0..<n]) = map Suc (filter (bit (x div 2)) [0..<n])"
    by (simp only: filter_map comp_def bit_Suc)
  then have "length (filter (bit x) [0..<Suc n]) = (if odd x then 1 else 0) + length (filter (bit (x div 2)) [0..<n])"
    unfolding u by (simp add: bit_0)
  moreover have "x mod 2 = (if odd x then 1 else 0)" by (simp add: odd_iff_mod_2_eq_one)
  ultimately show ?case by (simp only: field_sum.simps power_one_right Suc.IH)
qed simp

lemma field_masks:
  "field_mask 1 32 = 0x5555555555555555" "field_mask 2 16 = 0x3333333333333333" "field_mask 4 8 = 0x0f0f0f0f0f0f0f0f"
  "field_mask 8 4 = 0x00ff00ff00ff00ff" "field_mask 16 2 = 0x0000ffff0000ffff" "field_mask 32 1 = 0x00000000ffffffff"
  by (simp_all add: field_mask_numeral push_bit_eq_mult mask_eq_exp_minus_1)

lemma unat_count_word: "unat (count_word l) = cpu_count l"
proof -
  have m: "unat (0x5555555555555555 :: 64 word) = field_mask 1 32" "unat (0x3333333333333333 :: 64 word) = field_mask 2 16"
    "unat (0x0f0f0f0f0f0f0f0f :: 64 word) = field_mask 4 8" "unat (0x00ff00ff00ff00ff :: 64 word) = field_mask 8 4"
    "unat (0x0000ffff0000ffff :: 64 word) = field_mask 16 2" "unat (0x00000000ffffffff :: 64 word) = field_mask 32 1"
    unfolding field_masks by simp_all
  note s = unat_count_step[OF _ _ m(1)] unat_count_step[OF _ _ m(2)] unat_count_step[OF _ _ m(3)]
    unat_count_step[OF _ _ m(4)] unat_count_step[OF _ _ m(5)] unat_count_step[OF _ _ m(6)]
  let ?x = "unat (count_word l)"
  have "?x < 2 ^ LENGTH(64)" by (rule unsigned_less)
  then have "?x = field_sum 64 1 ?x" by simp
  also have "\<dots> = field_sum 1 64 (unat l)"
    using field_step_sum[of 32 1] field_step_sum[of 16 2] field_step_sum[of 8 4] field_step_sum[of 4 8] field_step_sum[of 2 16]
      field_step_sum[of 1 32] by (simp add: count_word_def s del: field_sum.simps One_nat_def)
  also have "\<dots> = cpu_count l"
    unfolding field_sum_bits cpu_count_def
    by (intro arg_cong[where f = length] filter_cong) (auto simp: is_set_def max_cpus_def bit_unsigned_iff)
  finally show ?thesis .
qed

subsection \<open>Bitmaps implement sets of CPUs\<close>

definition cpus :: "64 word list \<Rightarrow> nat set" where
  "cpus ws = {c. c < 64 * length ws \<and> bit (ws ! (c div 64)) (c mod 64)}"

lemma and_bit_iff: "w AND 2 ^ n \<noteq> 0 \<longleftrightarrow> bit w n" for w :: "64 word"
  by (simp add: and_exp_eq_0_iff_not_bit)

lemma cpu_count_card: "cpu_count w = card {c. c < 64 \<and> bit w c}"
proof -
  have "set (filter (is_set w) [0..<max_cpus]) = {c. c < 64 \<and> bit w c}" by (auto simp: is_set_def max_cpus_def)
  then show ?thesis unfolding cpu_count_def by (metis distinct_card distinct_filter distinct_upt)
qed

lemma div_add_64: "(d + 64) div 64 = Suc (d div 64)"
  by simp

lemma cpus_Cons: "cpus (w # ws) = {c. c < 64 \<and> bit w c} \<union> (\<lambda>c. c + 64) ` cpus ws"
proof (intro set_eqI iffI)
  fix c assume c: "c \<in> cpus (w # ws)"
  show "c \<in> {c. c < 64 \<and> bit w c} \<union> (\<lambda>c. c + 64) ` cpus ws"
  proof (cases "c < 64")
    case False
    then obtain d where "c = d + 64" by (metis add.commute le_Suc_ex not_less)
    with c show ?thesis by (auto simp: cpus_def div_add_64)
  qed (use c in \<open>auto simp: cpus_def\<close>)
qed (auto simp: cpus_def div_add_64)

lemma card_cpus: "finite (cpus ws) \<and> card (cpus ws) = sum_list (map cpu_count ws)"
proof (induction ws)
  case (Cons w ws)
  have "card (cpus (w # ws)) = card {c. c < 64 \<and> bit w c} + card ((\<lambda>c. c + 64) ` cpus ws)"
    unfolding cpus_Cons by (rule card_Un_disjoint) (use Cons in auto)
  moreover have "card ((\<lambda>c. c + 64) ` cpus ws) = card (cpus ws)" by (rule card_image) (simp add: inj_on_def)
  ultimately show ?case using Cons by (simp add: cpu_count_card cpus_Cons)
qed (simp add: cpus_def)

lemma count_fold: "fold (\<lambda>l s. if l = 0 then s else s + ucast (count_word l)) ws s = s + (of_nat (sum_list (map cpu_count ws)) :: 32 word)"
proof (induction ws arbitrary: s)
  case (Cons w ws)
  have "(ucast (count_word w) :: 32 word) = of_nat (cpu_count w)" by (simp flip: unat_count_word)
  moreover have "cpu_count 0 = 0" by (simp add: cpu_count_def is_set_def)
  ultimately show ?case using Cons by auto
qed simp

lemma cpus_set:
  assumes "c < 64 * length ws"
  shows "cpus (CPU_SET_S c (8 * length ws) ws) = insert c (cpus ws)"
proof (rule set_eqI)
  fix d
  have "d div 64 = c div 64 \<and> d mod 64 = c mod 64 \<longleftrightarrow> d = c" by (metis div_mult_mod_eq)
  with assms show "d \<in> cpus (CPU_SET_S c (8 * length ws) ws) \<longleftrightarrow> d \<in> insert c (cpus ws)"
    by (auto simp: cpus_def CPU_SET_S_def nth_list_update bit_simps)
qed

lemma cpus_equal: "length vs = length ws \<Longrightarrow> cpus vs = cpus ws \<longleftrightarrow> vs = ws"
proof
  assume len: "length vs = length ws" and eq: "cpus vs = cpus ws"
  show "vs = ws"
  proof (rule nth_equalityI[OF len], rule bit_eqI)
    fix i n assume i: "i < length vs" and "possible_bit TYPE(64 word) n"
    then have n: "n < 64" by simp
    with i have "64 * i + n \<in> cpus vs \<longleftrightarrow> bit (vs ! i) n" "64 * i + n \<in> cpus ws \<longleftrightarrow> bit (ws ! i) n"
      using len by (auto simp: cpus_def)
    with eq show "bit (vs ! i) n \<longleftrightarrow> bit (ws ! i) n" by simp
  qed
qed simp

text \<open>
  C34. The bitmap macros implement finite sets of CPU numbers: clearing gives the empty set, setting a CPU in
  range inserts it and one out of range changes nothing, the test is membership and the comparison equality, and
  the parallel population count is the number of elements.
\<close>

theorem bitmaps_implement_sets:
  assumes "length vs = length ws"
  shows "cpus (CPU_ZERO_S (8 * length ws) ws) = {} \<and>
    cpus (CPU_SET_S c (8 * length ws) ws) = (if c < 64 * length ws then insert c (cpus ws) else cpus ws) \<and>
    (CPU_ISSET_S c (8 * length ws) ws \<longleftrightarrow> c \<in> cpus ws) \<and>
    (CPU_EQUAL_S (8 * length ws) vs ws \<longleftrightarrow> cpus vs = cpus ws) \<and>
    cpuset_count_s (8 * length ws) ws = of_nat (card (cpus ws))"
proof (intro conjI)
  show "cpus (CPU_ZERO_S (8 * length ws) ws) = {}" by (auto simp: cpus_def CPU_ZERO_S_def nth_append)
  show "cpus (CPU_SET_S c (8 * length ws) ws) = (if c < 64 * length ws then insert c (cpus ws) else cpus ws)"
    using cpus_set by (simp add: CPU_SET_S_def)
  show "CPU_ISSET_S c (8 * length ws) ws \<longleftrightarrow> c \<in> cpus ws"
    by (simp add: CPU_ISSET_S_def and_bit_iff cpus_def)
  show "CPU_EQUAL_S (8 * length ws) vs ws \<longleftrightarrow> cpus vs = cpus ws"
    unfolding cpus_equal[OF assms] using assms by (simp add: CPU_EQUAL_S_def list_all_iff) (auto intro: nth_equalityI)
  show "cpuset_count_s (8 * length ws) ws = of_nat (card (cpus ws))"
    using card_cpus[of ws] by (simp add: cpuset_count_s_def count_fold)
qed

theorem bitmaps_implement_sets_witness:
  "cpus (CPU_SET_S 70 16 [0, 0]) = {70} \<and> \<not> CPU_ISSET_S 6 16 [0, 0 :: 64 word]"
proof -
  have z: "cpus [0, 0] = {}" by (auto simp: cpus_def less_Suc_eq nth_Cons split: nat.splits)
  from bitmaps_implement_sets[of "[0, 0]" "[0, 0]" 70] bitmaps_implement_sets[of "[0, 0]" "[0, 0]" 6] z show ?thesis by simp
qed

text \<open>The wrapper class has bitmaps of one word.\<close>

lemma one_word_bitmap:
  "CPU_ALLOC_SIZE max_cpus = 8" "cpuset_nbits 8 = max_cpus"
  "CPU_SET_S c 8 [s] = [set_cpu c s]" "CPU_ISSET_S c 8 [s] = is_set s c" "CPU_EQUAL_S 8 [s] [t] = (s = t)"
  "cpuset_count_s 8 [s] = of_nat (cpu_count s)"
proof -
  show "cpuset_count_s 8 [s] = of_nat (cpu_count s)" using count_fold[of "[s]" 0] by (simp add: cpuset_count_s_def)
qed (auto simp: CPU_ALLOC_SIZE_def cpuset_nbits_def max_cpus_def CPU_SET_S_def set_cpu_def CPU_ISSET_S_def and_bit_iff
    is_set_def CPU_EQUAL_S_def)

subsection \<open>The hexadecimal format\<close>

text \<open>Of an ASCII character, \<open>tolower\<close> and the value of a hexadecimal digit; \<open>None\<close> is -1.\<close>

definition val_to_char :: "nat \<Rightarrow> char" where
  "val_to_char v = (if v < 10 then char_of (48 + v) else char_of (87 + v))"

definition char_to_val :: "char \<Rightarrow> nat option" where
  "char_to_val c =
     (let n = (of_char c :: nat) in
      if 48 \<le> n \<and> n \<le> 57 then Some (n - 48)
      else let cl = (if 65 \<le> n \<and> n \<le> 90 then n + 32 else n) in
      if 97 \<le> cl \<and> cl \<le> 102 then Some (cl + 10 - 97) else None)"

definition nibble :: "cpu_set \<Rightarrow> nat \<Rightarrow> nat" where
  "nibble s cpu = (if is_set s cpu then 1 else 0) + (if is_set s (cpu + 1) then 2 else 0) +
     (if is_set s (cpu + 2) then 4 else 0) + (if is_set s (cpu + 3) then 8 else 0)"

text \<open>
  The loop of \<open>cpumask_create\<close> with \<open>k\<close> groups of four CPUs left; it stops where the buffer of \<open>len\<close> bytes is
  full. The closing NUL is then written behind the buffer.
\<close>

fun mask_loop :: "nat \<Rightarrow> cpu_set \<Rightarrow> nat \<Rightarrow> string \<Rightarrow> string" where
  "mask_loop 0 s len out = out"
| "mask_loop (Suc k) s len out =
     (if len = length out then out else mask_loop k s len (out @ [val_to_char (nibble s (4 * k))]))"

definition cpumask_create :: "nat \<Rightarrow> cpu_set \<Rightarrow> string result" where
  "cpumask_create len s =
     (let out = mask_loop (max_cpus div 4) s len [] in
      if length out \<ge> len then Inl (Undefined_behaviour ''write behind the buffer'')
      else let ret = dropWhile (\<lambda>c. c = CHR ''0'') out in
        Inr (if ret = [] then [last out] else ret))"

text \<open>
  The loop of \<open>cpumask_parse\<close> on the reversed string; \<open>before\<close> is the character in front of it, if there is one.
  The result is the return code with the set.
\<close>

definition set_nibble :: "nat \<Rightarrow> nat \<Rightarrow> cpu_set \<Rightarrow> cpu_set" where
  "set_nibble v cpu s =
     (let s = (if bit v 0 then set_cpu cpu s else s); s = (if bit v 1 then set_cpu (cpu + 1) s else s);
          s = (if bit v 2 then set_cpu (cpu + 2) s else s)
      in if bit v 3 then set_cpu (cpu + 3) s else s)"

fun mask_parse_loop :: "char option \<Rightarrow> string \<Rightarrow> nat \<Rightarrow> cpu_set \<Rightarrow> (int \<times> cpu_set) result" where
  "mask_parse_loop before [] cpu s = Inr (0, s)"
| "mask_parse_loop before (c # cs) cpu s =
     (if c = CHR '',''
      then (case cs of
              [] \<Rightarrow> (case before of
                  None \<Rightarrow> Inl (Undefined_behaviour ''read in front of the string'')
                | Some x \<Rightarrow> (case char_to_val x of None \<Rightarrow> Inr (-1, s) | Some v \<Rightarrow> Inr (0, set_nibble v cpu s)))
            | d # ds \<Rightarrow> (case char_to_val d of None \<Rightarrow> Inr (-1, s)
                | Some v \<Rightarrow> mask_parse_loop before ds (cpu + 4) (set_nibble v cpu s)))
      else (case char_to_val c of None \<Rightarrow> Inr (-1, s)
              | Some v \<Rightarrow> mask_parse_loop before cs (cpu + 4) (set_nibble v cpu s)))"

definition cpumask_parse :: "string \<Rightarrow> (int \<times> cpu_set) result" where
  "cpumask_parse str =
     (if length str > 1 \<and> take 2 str = ''0x'' then mask_parse_loop (Some (CHR ''x'')) (rev (drop 2 str)) 0 0
      else mask_parse_loop None (rev str) 0 0)"

lemma nibble_less: "nibble s cpu < 16"
  by (simp add: nibble_def)

lemma val_char:
  assumes "v < 16"
  shows "char_to_val (val_to_char v) = Some v" "val_to_char v \<noteq> CHR '',''" "val_to_char v \<noteq> CHR ''x''"
    "val_to_char v = CHR ''0'' \<longleftrightarrow> v = 0"
proof -
  have of: "(of_char (val_to_char v) :: nat) = (if v < 10 then 48 + v else 87 + v)" using assms by (simp add: val_to_char_def)
  then show "char_to_val (val_to_char v) = Some v" using assms by (simp add: char_to_val_def Let_def)
  have neq: "val_to_char v \<noteq> c" if "(of_char c :: nat) \<noteq> (if v < 10 then 48 + v else 87 + v)" for c
    using that of by auto
  show "val_to_char v \<noteq> CHR '',''" "val_to_char v \<noteq> CHR ''x''" by (rule neq; use assms in simp)+
  show "val_to_char v = CHR ''0'' \<longleftrightarrow> v = 0"
  proof
    assume "val_to_char v = CHR ''0''"
    then have "(of_char (val_to_char v) :: nat) = 48" by simp
    with of assms show "v = 0" by (simp split: if_splits)
  next
    assume "v = 0"
    with of have "(of_char (val_to_char v) :: nat) = of_char (CHR ''0'')" by simp
    then show "val_to_char v = CHR ''0''" by (simp only: of_char_eq_iff)
  qed
qed

lemma bit_nibble: "bit (nibble s cpu) 0 = is_set s cpu" "bit (nibble s cpu) 1 = is_set s (cpu + 1)"
  "bit (nibble s cpu) 2 = is_set s (cpu + 2)" "bit (nibble s cpu) 3 = is_set s (cpu + 3)"
  by (simp_all add: nibble_def bit_iff_odd)

lemma is_set_set_nibble:
  "is_set (set_nibble (nibble s c) c acc) j \<longleftrightarrow> is_set acc j \<or> (c \<le> j \<and> j < c + 4 \<and> is_set s j)"
proof -
  have step: "is_set (if is_set s i then set_cpu i t else t) j \<longleftrightarrow> is_set t j \<or> (j = i \<and> is_set s j)" for i t
    by (auto simp: is_set_def bit_set_cpu)
  show ?thesis unfolding set_nibble_def Let_def bit_nibble step by auto
qed

definition digit_of :: "cpu_set \<Rightarrow> nat \<Rightarrow> char" where
  "digit_of s j = val_to_char (nibble s (4 * j))"

lemma mask_loop_digits: "length out + k \<le> len \<Longrightarrow> mask_loop k s len out = out @ rev (map (digit_of s) [0..<k])"
  by (induction k arbitrary: out) (simp_all add: digit_of_def)

lemma parse_digits:
  assumes "k \<le> m" and "\<And>j. is_set acc j \<longleftrightarrow> is_set s j \<and> j < 4 * k"
  shows "\<exists>t. mask_parse_loop b (map (digit_of s) [k..<m]) (4 * k) acc = Inr (0, t) \<and> (\<forall>j. is_set t j \<longleftrightarrow> is_set s j \<and> j < 4 * m)"
  using assms
proof (induction "m - k" arbitrary: k acc)
  case 0
  then show ?case by simp
next
  case (Suc n)
  then have km: "k < m" "n = m - Suc k" "Suc k \<le> m" by simp_all
  let ?acc = "set_nibble (nibble s (4 * k)) (4 * k) acc"
  have "is_set ?acc j \<longleftrightarrow> is_set s j \<and> j < 4 * Suc k" for j unfolding is_set_set_nibble Suc.prems(2) by auto
  from Suc.hyps(1)[OF km(2,3) this] obtain t where
    t: "mask_parse_loop b (map (digit_of s) [Suc k..<m]) (4 * Suc k) ?acc = Inr (0, t)" "\<forall>j. is_set t j \<longleftrightarrow> is_set s j \<and> j < 4 * m"
    by blast
  have "mask_parse_loop b (map (digit_of s) [k..<m]) (4 * k) acc = mask_parse_loop b (map (digit_of s) [Suc k..<m]) (4 * Suc k) ?acc"
    using val_char(1,2)[OF nibble_less, of s "4 * k"] km(1) by (simp add: upt_conv_Cons digit_of_def add.commute)
  with t show ?case by auto
qed

text \<open>What is printed are the digits of the groups up to the last one that is not empty.\<close>

lemma dropWhile_rev: "\<exists>m \<le> length xs. dropWhile P (rev xs) = rev (take m xs) \<and> (\<forall>x \<in> set (drop m xs). P x)"
proof (induction xs rule: rev_induct)
  case (snoc x xs)
  show ?case
  proof (cases "P x")
    case True
    from snoc obtain m where "m \<le> length xs" "dropWhile P (rev xs) = rev (take m xs)" "\<forall>y \<in> set (drop m xs). P y" by blast
    with True show ?thesis by (intro exI[of _ m]) simp
  next
    case False
    then show ?thesis by (intro exI[of _ "Suc (length xs)"]) simp
  qed
qed simp

lemma create_digits:
  assumes "17 \<le> len"
  obtains m where "cpumask_create len s = Inr (rev (map (digit_of s) [0..<m]))" "\<And>j. is_set s j \<Longrightarrow> j < 4 * m"
proof -
  let ?ds = "map (digit_of s) [0..<16]"
  have out: "mask_loop (max_cpus div 4) s len [] = rev ?ds" using assms by (simp add: max_cpus_def mask_loop_digits del: upt_Suc)
  obtain m where m: "m \<le> 16" "dropWhile (\<lambda>c. c = CHR ''0'') (rev ?ds) = rev (take m ?ds)" "\<forall>x \<in> set (drop m ?ds). x = CHR ''0''"
    using dropWhile_rev[of ?ds "\<lambda>c. c = CHR ''0''"] by auto
  have tk: "take m ?ds = map (digit_of s) [0..<m]" using m(1) by (simp add: take_map)
  have lt: "j < 4 * m" if "is_set s j" for j
  proof (rule ccontr)
    assume "\<not> j < 4 * m"
    moreover have "j < 64" using that by (simp add: is_set_def max_cpus_def)
    ultimately have "j div 4 \<in> set [m..<16]" by auto
    then have "digit_of s (j div 4) \<in> set (drop m ?ds)" by (simp add: drop_map del: upt_Suc)
    then have "digit_of s (j div 4) = CHR ''0''" using m(3) by blast
    then have n: "nibble s (4 * (j div 4)) = 0" using val_char(4)[OF nibble_less] by (simp add: digit_of_def)
    have "\<not> is_set s (4 * (j div 4))" "\<not> is_set s (4 * (j div 4) + 1)" "\<not> is_set s (4 * (j div 4) + 2)" "\<not> is_set s (4 * (j div 4) + 3)"
      using bit_nibble[of s "4 * (j div 4)", unfolded n] by simp_all
    moreover have "j = 4 * (j div 4) \<or> j = 4 * (j div 4) + 1 \<or> j = 4 * (j div 4) + 2 \<or> j = 4 * (j div 4) + 3" by presburger
    ultimately show False using that by metis
  qed
  show ?thesis
  proof (cases "m = 0")
    case True
    have "cpumask_create len s = Inr (rev (map (digit_of s) [0..<1]))"
      using out m(2) tk True assms by (simp add: cpumask_create_def last_rev upt_conv_Cons)
    with lt True that[of 1] show ?thesis by fastforce
  next
    case False
    with out m(2) tk assms lt that[of m] show ?thesis by (simp add: cpumask_create_def)
  qed
qed

text \<open>
  C35. A CPU mask that is printed into a buffer of at least 17 bytes is parsed back to the same set.
\<close>

theorem cpumask_roundtrip:
  assumes "17 \<le> len"
  shows "\<exists>str. cpumask_create len s = Inr str \<and> cpumask_parse str = Inr (0, s)"
proof -
  obtain m where m: "cpumask_create len s = Inr (rev (map (digit_of s) [0..<m]))" "\<And>j. is_set s j \<Longrightarrow> j < 4 * m"
    using create_digits[OF assms] by blast
  let ?str = "rev (map (digit_of s) [0..<m])"
  have "CHR ''x'' \<notin> set ?str" using val_char(3)[OF nibble_less] by (auto simp: digit_of_def dest: sym)
  then have "take 2 ?str \<noteq> ''0x''" by (metis in_set_takeD list.set_intros(1,2))
  moreover obtain t where "mask_parse_loop None (map (digit_of s) [0..<m]) 0 0 = Inr (0, t)" "\<forall>j. is_set t j \<longleftrightarrow> is_set s j \<and> j < 4 * m"
    using parse_digits[of 0 m 0 s None] by auto
  moreover from this m(2) have "t = s" by (intro cpu_set_eqI) blast
  ultimately show ?thesis using m(1) by (simp add: cpumask_parse_def)
qed

theorem cpumask_roundtrip_witness:
  "\<exists>str. cpumask_create 17 5 = Inr str \<and> cpumask_parse str = Inr (0, 5)"
  by (rule cpumask_roundtrip) simp

text \<open>A buffer for exactly the 16 digits is overrun; a comma in front makes the parser read before the string.\<close>

lemma cpumask_create_overruns: "cpumask_create 16 s = Inl (Undefined_behaviour ''write behind the buffer'')"
proof -
  have "mask_loop (max_cpus div 4) s 16 [] = rev (map (digit_of s) [0..<16])"
    by (simp add: max_cpus_def mask_loop_digits del: upt_Suc)
  then show ?thesis by (simp add: cpumask_create_def)
qed

lemma leading_comma: "cpumask_parse '',1'' = Inl (Undefined_behaviour ''read in front of the string'')"
  by code_simp

subsection \<open>The remaining methods\<close>

text \<open>\<open>mask |= 1 << i\<close> on \<open>int\<close>: a shift by 32 or more is undefined.\<close>

definition as_int_step :: "cpu_set \<Rightarrow> nat \<Rightarrow> 32 word \<Rightarrow> 32 word result" where
  "as_int_step s i m = (if is_set s i
     then (if i < 32 then Inr (m OR push_bit i 1) else Inl (Undefined_behaviour ''shift of an int by its width''))
     else Inr m)"

definition as_int :: "cpu_set \<Rightarrow> int result" where
  "as_int s = bindE (foldE (as_int_step s) [0..<max_cpus] 0) (\<lambda>m. Inr (sint m))"

text \<open>The loop of \<open>next_set\<close>: it need not end. The indices are \<open>int\<close>s; \<open>is_set\<close> takes them as \<open>unsigned\<close>.\<close>

partial_function (option) next_loop :: "cpu_set \<Rightarrow> nat \<Rightarrow> nat \<Rightarrow> nat result option" where
  "next_loop s start i =
     (if is_set s i then Some (Inr i)
      else if (i + 1) mod max_cpus \<noteq> start then next_loop s start ((i + 1) mod max_cpus)
      else Some (Inl (Runtime_error ''empty cpu_set'')))"

definition next_set :: "cpu_set \<Rightarrow> nat \<Rightarrow> nat result" where
  "next_set s j = (case next_loop s (j + 1) (j + 1) of None \<Rightarrow> Inl Diverges | Some r \<Rightarrow> r)"

text \<open>
  \<open>get_max_number_of_cpus\<close> after \<open>k\<close> doublings: \<open>alloc\<close> says whether memory for a size is found, \<open>getaffinity\<close> is
  the result of the system call for a size, with whether it failed with \<open>EINVAL\<close>.
\<close>

function max_cpus_loop :: "(nat \<Rightarrow> bool) \<Rightarrow> (nat \<Rightarrow> int \<times> bool) \<Rightarrow> nat \<Rightarrow> int" where
  "max_cpus_loop alloc getaffinity k =
     (let ncpus = 2048 * 2 ^ k in
      if \<not> alloc ncpus then -1
      else case getaffinity (CPU_ALLOC_SIZE ncpus) of (n, einval) \<Rightarrow>
        if n < 0 \<and> einval \<and> ncpus < 1024 * 1024 then max_cpus_loop alloc getaffinity (Suc k) else n * 8)"
  by pat_completeness auto

termination
proof (relation "measure (\<lambda>(alloc, getaffinity, k). 9 - k)")
  fix k and ncpus :: nat and n :: int and einval and y alloc getaffinity
  assume "ncpus = 2048 * 2 ^ k" and "n < 0 \<and> einval \<and> ncpus < 1024 * 1024"
  then have "2 ^ k < (2 ^ 9 :: nat)" by simp
  then have "k < 9" by (rule power_less_imp_less_exp[rotated]) simp
  then show "((alloc, getaffinity, Suc k), alloc, getaffinity, k) \<in> measure (\<lambda>(alloc, getaffinity, k). 9 - k)" by simp
qed simp

declare max_cpus_loop.simps [simp del]

definition get_max_number_of_cpus :: "(nat \<Rightarrow> bool) \<Rightarrow> (nat \<Rightarrow> int \<times> bool) \<Rightarrow> int" where
  "get_max_number_of_cpus alloc getaffinity = max_cpus_loop alloc getaffinity 0"

text \<open>\<open>cpuset_alloc\<close> gives the size in bytes and in bits.\<close>

definition cpuset_alloc :: "(nat \<Rightarrow> bool) \<Rightarrow> nat \<Rightarrow> (nat \<times> nat) option" where
  "cpuset_alloc alloc ncpus = (if alloc ncpus then Some (CPU_ALLOC_SIZE ncpus, cpuset_nbits (CPU_ALLOC_SIZE ncpus)) else None)"

text \<open>\<open>as_int\<close> is defined exactly for sets without a CPU from 32 on.\<close>

lemma as_int_loop:
  "n \<le> 64 \<Longrightarrow> foldE (as_int_step s) [0..<n] 0 =
     (if \<exists>i. 32 \<le> i \<and> i < n \<and> is_set s i then Inl (Undefined_behaviour ''shift of an int by its width'')
      else Inr (take_bit n (ucast s)))"
proof (induction n)
  case (Suc n)
  have "take_bit (Suc n) (ucast s :: 32 word) = (if is_set s n then take_bit n (ucast s) OR push_bit n 1 else take_bit n (ucast s))"
    if "n < 32" using that Suc.prems by (intro bit_eqI) (auto simp: bit_simps is_set_def max_cpus_def less_Suc_eq)
  moreover have "take_bit (Suc n) (ucast s :: 32 word) = take_bit n (ucast s)" if "\<not> n < 32"
    using that by (intro bit_eqI) (auto simp: bit_simps)
  ultimately have t: "take_bit (Suc n) (ucast s :: 32 word) = (if n < 32 \<and> is_set s n then take_bit n (ucast s) OR push_bit n 1 else take_bit n (ucast s))"
    by (cases "n < 32") auto
  have IH: "foldE (as_int_step s) [0..<n] 0 = (if \<exists>i. 32 \<le> i \<and> i < n \<and> is_set s i
      then Inl (Undefined_behaviour ''shift of an int by its width'') else Inr (take_bit n (ucast s)))" using Suc by simp
  show ?case
  proof (cases "\<exists>i. 32 \<le> i \<and> i < n \<and> is_set s i")
    case True
    then show ?thesis using IH by (auto simp: foldE_append less_Suc_eq)
  next
    case False
    then have ex: "(\<exists>i. 32 \<le> i \<and> i < Suc n \<and> is_set s i) \<longleftrightarrow> 32 \<le> n \<and> is_set s n" by (auto simp: less_Suc_eq)
    have "foldE (as_int_step s) [0..<n] 0 = Inr (take_bit n (ucast s))" using IH False by (simp only: if_False)
    then have "foldE (as_int_step s) [0..<Suc n] 0 = as_int_step s n (take_bit n (ucast s))"
      by (cases "as_int_step s n (take_bit n (ucast s))") (simp_all add: foldE_append)
    moreover have "as_int_step s n m = (if 32 \<le> n \<and> is_set s n then Inl (Undefined_behaviour ''shift of an int by its width'')
        else Inr (if n < 32 \<and> is_set s n then m OR push_bit n 1 else m))" for m by (simp add: as_int_step_def)
    ultimately show ?thesis unfolding ex t by (simp only:)
  qed
qed simp

lemma as_int_spec:
  "as_int s = (if \<exists>i \<ge> 32. is_set s i then Inl (Undefined_behaviour ''shift of an int by its width'')
     else Inr (sint (ucast s :: 32 word)))"
proof -
  have "is_set s i \<Longrightarrow> i < 64" for i by (simp add: is_set_def max_cpus_def)
  moreover have "take_bit 64 (ucast s :: 32 word) = ucast s" by (intro bit_eqI) (auto simp: bit_simps)
  ultimately show ?thesis using as_int_loop[of 64 s] by (auto simp: as_int_def max_cpus_def)
qed

text \<open>\<open>next_set\<close> finds the next CPU in cyclic order, unless it starts after the last one.\<close>

lemma next_loop_spec:
  assumes "start < 64" and "d < 64"
  shows "next_loop s start ((start + d) mod 64) = Some (find_up s (map (\<lambda>e. (start + e) mod 64) [d..<64]))"
  using assms(2)
proof (induction "63 - d" arbitrary: d)
  case 0
  then have d: "d = 63" by simp
  have "((start + 63) mod 64 + 1) mod 64 = start" using assms(1) by (simp add: mod_simps)
  with d show ?case by (subst next_loop.simps) (simp add: max_cpus_def)
next
  case (Suc n)
  then have "d < 63" by simp
  then have ne: "((start + d) mod 64 + 1) mod 64 \<noteq> start" 
  proof (cases "start + Suc d < 64")
    case False
    then have "(start + Suc d) mod 64 = start + Suc d - 64" using assms(1) \<open>d < 63\<close> by (simp add: le_mod_geq)
    then show ?thesis using \<open>d < 63\<close> False by (simp add: mod_simps)
  qed (simp add: mod_simps)
  have "next_loop s start ((start + Suc d) mod 64) = Some (find_up s (map (\<lambda>e. (start + e) mod 64) [Suc d..<64]))"
    using \<open>d < 63\<close> Suc.hyps(2) by (intro Suc.hyps(1)) simp_all
  moreover have "((start + d) mod 64 + 1) mod 64 = (start + Suc d) mod 64" by (simp add: mod_simps)
  ultimately show ?case using ne \<open>d < 63\<close> by (subst next_loop.simps) (simp add: max_cpus_def upt_conv_Cons)
qed

lemma next_set_spec:
  assumes "j < 63"
  shows "next_set s j = find_up s (map (\<lambda>e. (j + 1 + e) mod 64) [0..<64])"
  using next_loop_spec[of "j + 1" 0 s] assms by (simp add: next_set_def)

lemma next_set_diverges: "next_set 0 63 = Inl Diverges"
proof -
  have "s = 0 \<longrightarrow> start = 64 \<longrightarrow> False" if "next_loop s start i = Some r" for s start i r
    using that
  proof (rule next_loop.raw_induct[rotated])
    fix f :: "cpu_set \<Rightarrow> nat \<Rightarrow> nat \<Rightarrow> nat result option" and s start i r
    assume IH: "\<And>s start i r. f s start i = Some r \<Longrightarrow> s = 0 \<longrightarrow> start = 64 \<longrightarrow> False"
      and eq: "(if is_set s i then Some (Inr i) else if (i + 1) mod max_cpus \<noteq> start then f s start ((i + 1) mod max_cpus)
        else Some (Inl (Runtime_error ''empty cpu_set''))) = Some r"
    have "(i + 1) mod 64 < 64" by simp
    with eq IH show "s = 0 \<longrightarrow> start = 64 \<longrightarrow> False"
      by (auto simp: max_cpus_def split: if_splits)
  qed
  then have "next_loop 0 64 64 = None" by (metis not_None_eq)
  then show ?thesis by (simp add: next_set_def)
qed

lemma next_set_skips_first: "next_set 33 63 = Inr 5"
proof -
  have b: "is_set 33 i \<longleftrightarrow> i = 0 \<or> i = 5" for i
  proof -
    have "(33 :: cpu_set) = push_bit 0 1 OR push_bit 5 1" by simp
    then have "bit (33 :: cpu_set) i \<longleftrightarrow> bit (push_bit 0 1 OR push_bit 5 1 :: cpu_set) i" by (rule arg_cong)
    also have "\<dots> \<longleftrightarrow> i = 0 \<or> i = 5" by (auto simp: bit_or_iff bit_push_bit_iff bit_1_iff simp del: push_bit_of_1)
    finally show ?thesis by (auto simp: is_set_def max_cpus_def)
  qed
  have "next_loop 33 64 64 = Some (Inr 5)"
    by (subst next_loop.simps, simp add: max_cpus_def b)+
  then show ?thesis by (simp add: next_set_def)
qed

text \<open>An error of the system call gives -8, not -1 as the other errors do.\<close>

lemma get_max_error: "get_max_number_of_cpus (\<lambda>_. True) (\<lambda>_. (-1, False)) = -8"
  by (simp add: get_max_number_of_cpus_def max_cpus_loop.simps)

end
