(* ===== verification/Scan.thy ===== *)
theory Scan
  imports Demos_Prelude
begin

text \<open>
  Reading numbers and words from text, shared by \<open>sscanf\<close> (\<open>src/lib/demos-sch.c\<close>), \<open>std::stoll\<close>
  (\<open>src/src/main.cpp\<close>), \<open>std::stoul\<close> (\<open>src/src/power_policy/\<close>) and the extraction from streams (\<open>src/src/cgroup_setup.cpp\<close>).
\<close>

text \<open>\<open>std::isspace\<close> in the C locale.\<close>

definition is_space :: "char \<Rightarrow> bool" where
  "is_space c \<longleftrightarrow> c = CHR '' '' \<or> (9 \<le> (of_char c :: nat) \<and> (of_char c :: nat) \<le> 13)"

text \<open>An integer: white space, a sign and digits; \<open>None\<close> if there is no digit.\<close>

definition scan_nat :: "string \<Rightarrow> (nat \<times> string) option" where
  "scan_nat s = (if takeWhile is_digit s = [] then None else Some (dec_to_nat (takeWhile is_digit s), dropWhile is_digit s))"

definition scan_int :: "string \<Rightarrow> (int \<times> string) option" where
  "scan_int s = (case dropWhile is_space s of
     [] \<Rightarrow> None
   | c # t \<Rightarrow>
       if c = CHR ''-'' then map_option (\<lambda>(n, r). (- int n, r)) (scan_nat t)
       else if c = CHR ''+'' then map_option (\<lambda>(n, r). (int n, r)) (scan_nat t)
       else map_option (\<lambda>(n, r). (int n, r)) (scan_nat (c # t)))"

text \<open>\<open>stream >> word\<close>: white space, then everything up to the next white space.\<close>

definition scan_word :: "string \<Rightarrow> (string \<times> string) option" where
  "scan_word s = (let t = dropWhile is_space s; w = takeWhile (\<lambda>c. \<not> is_space c) t in
     if w = [] then None else Some (w, drop (length w) t))"

lemma scan_nat_dec: "s = [] \<or> \<not> is_digit (hd s) \<Longrightarrow> scan_nat (nat_to_dec n @ s) = Some (n, s)"
  by (simp add: scan_nat_def takeWhile_nat_to_dec dropWhile_nat_to_dec)

lemma digit_not_special: "is_digit c \<Longrightarrow> \<not> is_space c \<and> c \<noteq> CHR ''-'' \<and> c \<noteq> CHR ''+''"
  by (auto simp: is_digit_def is_space_def)

lemma scan_int_dec:
  assumes "s = [] \<or> \<not> is_digit (hd s)"
  shows "scan_int (int_to_dec i @ s) = Some (i, s)"
proof (cases "i < 0")
  case True
  have "\<not> is_space (CHR ''-'')" by (simp add: is_space_def)
  with True show ?thesis by (simp add: scan_int_def int_to_dec_def scan_nat_dec[OF assms])
next
  case False
  obtain c t where ct: "nat_to_dec (nat i) = c # t" by (cases "nat_to_dec (nat i)") auto
  then have "is_digit c" using hd_nat_to_dec_digit[of "nat i"] by simp
  with False digit_not_special[of c] scan_nat_dec[OF assms, of "nat i"] ct show ?thesis
    by (simp add: scan_int_def int_to_dec_def)
qed

lemma scan_nat_length: "scan_nat s = Some (n, r) \<Longrightarrow> length r < length s"
proof -
  assume s: "scan_nat s = Some (n, r)"
  then have "takeWhile is_digit s \<noteq> []" "r = dropWhile is_digit s" by (auto simp: scan_nat_def split: if_splits)
  moreover have "length s = length (takeWhile is_digit s) + length (dropWhile is_digit s)"
    by (metis length_append takeWhile_dropWhile_id)
  ultimately show ?thesis by simp
qed

lemma scan_int_length: "scan_int s = Some (n, r) \<Longrightarrow> length r < length s"
proof -
  assume s: "scan_int s = Some (n, r)"
  have "length r < length (dropWhile is_space s)"
    using s by (cases "dropWhile is_space s") (auto simp: scan_int_def split: if_splits dest: scan_nat_length less_SucI)
  then show ?thesis using length_dropWhile_le[of is_space s] by linarith
qed

lemma scan_word_length: "scan_word s = Some (w, r) \<Longrightarrow> length r < length s"
  using length_dropWhile_le[of is_space s] length_takeWhile_le[of "\<lambda>c. \<not> is_space c" "dropWhile is_space s"]
  by (auto simp: scan_word_def Let_def split: if_splits) (metis length_greater_0_conv diff_less le_less_trans less_le_trans not_less)

end
