(* ===== verification/Demos_Lib.thy ===== *)
theory Demos_Lib
  imports Scan
begin

text \<open>
  The library of the scheduled processes (\<open>src/lib/demos-sch.c\<close>) and the parameters it gets from
  \<open>Process::exec\<close>. The static variables are a record; \<open>lib_outcome n\<close> is the errno of the \<open>n\<close>-th
  \<open>read\<close> or \<open>write\<close>, \<open>None\<close> where it succeeds, and \<open>lib_log\<close> lists the successful ones, newest first.
\<close>

datatype lib_call =
    Notify int
  | Await int

record lib =
  fd_completed :: int
  fd_new_period :: int
  demos_init_ran :: bool
  initialization_pending :: bool
  lib_errno :: nat
  lib_outcome :: "nat \<Rightarrow> nat option"
  lib_count :: nat
  lib_log :: "lib_call list"

definition ENOKEY :: nat where
  "ENOKEY = 126"

definition EBADMSG :: nat where
  "EBADMSG = 74"

definition EWOULDBLOCK :: nat where
  "EWOULDBLOCK = 11"

text \<open>Static variables are zero when the process starts.\<close>

definition lib_start :: "(nat \<Rightarrow> nat option) \<Rightarrow> lib" where
  "lib_start outcome = \<lparr>fd_completed = 0, fd_new_period = 0, demos_init_ran = False, initialization_pending = False,
     lib_errno = 0, lib_outcome = outcome, lib_count = 0, lib_log = []\<rparr>"

text \<open>\<open>sprintf(val, "%d,%d,%d", ...)\<close> of \<open>Process::exec\<close>.\<close>

definition demos_parameters :: "int \<Rightarrow> int \<Rightarrow> bool \<Rightarrow> string" where
  "demos_parameters completed efd has_init =
     int_to_dec completed @ '','' @ int_to_dec efd @ '','' @ int_to_dec (if has_init then 1 else 0)"

definition scan_comma :: "string \<Rightarrow> string option" where
  "scan_comma s = (case s of c # t \<Rightarrow> if c = CHR '','' then Some t else None | [] \<Rightarrow> None)"

text \<open>
  \<open>sscanf(str, "%d,%d,%d", &fd_completed, &fd_new_period, &tmp_init_flag) != 3\<close>: the conversions before
  the failing one are stored.
\<close>

definition fail_with :: "nat \<Rightarrow> lib \<Rightarrow> int \<times> lib" where
  "fail_with e l = (-1, l\<lparr>lib_errno := e\<rparr>)"

definition demos_init :: "string option \<Rightarrow> lib \<Rightarrow> int \<times> lib" where
  "demos_init env l =
     (let l = l\<lparr>demos_init_ran := True\<rparr> in
      case env of
        None \<Rightarrow> fail_with ENOKEY l
      | Some str \<Rightarrow>
          (case scan_int str of None \<Rightarrow> fail_with EBADMSG l
           | Some (a, r) \<Rightarrow>
               let l = l\<lparr>fd_completed := a\<rparr> in
               (case Option.bind (scan_comma r) scan_int of None \<Rightarrow> fail_with EBADMSG l
                | Some (b, r) \<Rightarrow>
                    let l = l\<lparr>fd_new_period := b\<rparr> in
                    (case Option.bind (scan_comma r) scan_int of None \<Rightarrow> fail_with EBADMSG l
                     | Some (flag, r) \<Rightarrow> (0, l\<lparr>initialization_pending := flag \<noteq> 0\<rparr>)))))"

text \<open>A \<open>read\<close> or \<open>write\<close> of eight bytes: -1 and errno, or success.\<close>

definition lib_io :: "lib_call \<Rightarrow> lib \<Rightarrow> bool \<times> lib" where
  "lib_io call l = (case lib_outcome l (lib_count l) of
     Some e \<Rightarrow> (False, l\<lparr>lib_count := Suc (lib_count l), lib_errno := e\<rparr>)
   | None \<Rightarrow> (True, l\<lparr>lib_count := Suc (lib_count l), lib_log := call # lib_log l\<rparr>))"

definition notify_and_wait :: "lib \<Rightarrow> int \<times> lib" where
  "notify_and_wait l =
     (case lib_io (Notify (fd_completed l)) l of
        (False, l) \<Rightarrow> (-1, l)
      | (True, l) \<Rightarrow> (case lib_io (Await (fd_new_period l)) l of (False, l) \<Rightarrow> (-1, l) | (True, l) \<Rightarrow> (0, l)))"

definition demos_completed :: "string option \<Rightarrow> lib \<Rightarrow> int \<times> lib" where
  "demos_completed env l =
     (let (s, l) = (if demos_init_ran l then (0, l) else demos_init env l) in
      if s \<noteq> 0 then (s, l)
      else if initialization_pending l then (0, l)
      else notify_and_wait l)"

definition demos_initialization_completed :: "string option \<Rightarrow> lib \<Rightarrow> int \<times> lib" where
  "demos_initialization_completed env l =
     (let (s, l) = (if demos_init_ran l then (0, l) else demos_init env l) in
      if s \<noteq> 0 then (s, l)
      else if \<not> initialization_pending l then fail_with EWOULDBLOCK l
      else demos_completed env (l\<lparr>initialization_pending := False\<rparr>))"

text \<open>The program \<open>src/lib/demos-signal-completion.c\<close>, which does one handshake without the library.\<close>

definition signal_completion :: "string option \<Rightarrow> lib \<Rightarrow> int \<times> lib" where
  "signal_completion env l =
     (case env of
        None \<Rightarrow> (100, l)
      | Some str \<Rightarrow>
          (case scan_int str of None \<Rightarrow> (101, l)
           | Some (a, r) \<Rightarrow>
               (case Option.bind (scan_comma r) scan_int of None \<Rightarrow> (101, l)
                | Some (b, r) \<Rightarrow>
                    (case lib_io (Notify a) l of (False, l) \<Rightarrow> (1, l)
                     | (True, l) \<Rightarrow> (case lib_io (Await b) l of (False, l) \<Rightarrow> (2, l) | (True, l) \<Rightarrow> (0, l))))))"

subsection \<open>The protocol\<close>

text \<open>
  The promise of the header file as an automaton: a process is fresh until its first call, then it
  initialises if the configuration says so, then it is scheduled. A step gives the new state, the
  result and whether the process notified the scheduler and waited for its next period.
\<close>

datatype phase =
    Fresh
  | Initializing
  | Scheduled

datatype api_call =
    Api_init
  | Api_completed
  | Api_initialization_completed

definition after_init :: "bool \<Rightarrow> phase \<Rightarrow> phase" where
  "after_init has_init ph = (if ph = Fresh then (if has_init then Initializing else Scheduled) else ph)"

fun protocol :: "bool \<Rightarrow> api_call \<Rightarrow> phase \<Rightarrow> phase \<times> int \<times> bool" where
  "protocol has_init Api_init ph = ((if has_init then Initializing else Scheduled), 0, False)"
| "protocol has_init Api_completed ph = (let ph = after_init has_init ph in (ph, 0, ph = Scheduled))"
| "protocol has_init Api_initialization_completed ph =
     (if after_init has_init ph = Initializing then (Scheduled, 0, True) else (Scheduled, -1, False))"

fun api :: "string option \<Rightarrow> api_call \<Rightarrow> lib \<Rightarrow> int \<times> lib" where
  "api env Api_init l = demos_init env l"
| "api env Api_completed l = demos_completed env l"
| "api env Api_initialization_completed l = demos_initialization_completed env l"

text \<open>A sequence of calls with the results it gave.\<close>

fun run_calls :: "('c \<Rightarrow> 's \<Rightarrow> 'r \<times> 's) \<Rightarrow> 'c list \<Rightarrow> 's \<Rightarrow> 'r list \<times> 's" where
  "run_calls f [] s = ([], s)"
| "run_calls f (c # cs) s = (case f c s of (r, t) \<Rightarrow> (case run_calls f cs t of (rs, u) \<Rightarrow> (r # rs, u)))"

text \<open>The automaton with the calls it stands for.\<close>

definition protocol_step :: "int \<Rightarrow> int \<Rightarrow> bool \<Rightarrow> api_call \<Rightarrow> phase \<times> lib_call list \<Rightarrow> int \<times> phase \<times> lib_call list" where
  "protocol_step fc fn has_init c = (\<lambda>(ph, log). case protocol has_init c ph of
     (ph, r, handshake) \<Rightarrow> (r, ph, if handshake then Await fn # Notify fc # log else log))"

definition phase_of :: "lib \<Rightarrow> phase" where
  "phase_of l = (if \<not> demos_init_ran l then Fresh else if initialization_pending l then Initializing else Scheduled)"

text \<open>The abstraction: the phase and the log.\<close>

definition lib_abs :: "lib \<Rightarrow> phase \<times> lib_call list" where
  "lib_abs l = (phase_of l, lib_log l)"

definition lib_inv :: "int \<Rightarrow> int \<Rightarrow> lib \<Rightarrow> bool" where
  "lib_inv fc fn l \<longleftrightarrow> (\<forall>n. lib_outcome l n = None) \<and> (demos_init_ran l \<longrightarrow> fd_completed l = fc \<and> fd_new_period l = fn)"

subsection \<open>The parameters\<close>

lemma scan_parameters:
  "scan_int (demos_parameters fc fn has_init) = Some (fc, '','' @ int_to_dec fn @ '','' @ int_to_dec (if has_init then 1 else 0))"
  "scan_int (int_to_dec fn @ '','' @ int_to_dec (if has_init then 1 else 0)) = Some (fn, '','' @ int_to_dec (if has_init then 1 else 0))"
  "scan_int (int_to_dec (if has_init then 1 else 0)) = Some (if has_init then 1 else 0, [])"
proof -
  have c: "\<not> is_digit (CHR '','')" by (simp add: is_digit_def)
  show "scan_int (demos_parameters fc fn has_init) = Some (fc, '','' @ int_to_dec fn @ '','' @ int_to_dec (if has_init then 1 else 0))"
    "scan_int (int_to_dec fn @ '','' @ int_to_dec (if has_init then 1 else 0)) = Some (fn, '','' @ int_to_dec (if has_init then 1 else 0))"
    unfolding demos_parameters_def by (rule scan_int_dec; simp add: c)+
  show "scan_int (int_to_dec (if has_init then 1 else 0)) = Some (if has_init then 1 else 0, [])"
    using scan_int_dec[of "[]"] by simp
qed

lemma demos_init_parameters:
  "demos_init (Some (demos_parameters fc fn has_init)) l =
     (0, l\<lparr>demos_init_ran := True, fd_completed := fc, fd_new_period := fn, initialization_pending := has_init\<rparr>)"
  using scan_parameters(1)[of fc fn has_init] scan_parameters(2)[of fn has_init] scan_parameters(3)[of has_init]
  by (simp add: demos_init_def scan_comma_def Let_def)

subsection \<open>Refinement\<close>

lemma notify_and_wait_ok:
  "\<forall>n. lib_outcome l n = None \<Longrightarrow> notify_and_wait l =
     (0, l\<lparr>lib_count := Suc (Suc (lib_count l)), lib_log := Await (fd_new_period l) # Notify (fd_completed l) # lib_log l\<rparr>)"
  by (simp add: notify_and_wait_def lib_io_def)

lemmas lib_defs = lib_inv_def lib_abs_def phase_of_def protocol_step_def after_init_def demos_completed_def
  demos_initialization_completed_def notify_and_wait_ok fail_with_def

lemma api_refines:
  assumes "lib_inv fc fn l"
  shows "\<exists>l'. api (Some (demos_parameters fc fn has_init)) c l = (fst (protocol_step fc fn has_init c (lib_abs l)), l') \<and>
    lib_inv fc fn l' \<and> lib_abs l' = snd (protocol_step fc fn has_init c (lib_abs l))"
  using assms by (cases c) (auto simp: lib_defs demos_init_parameters Let_def)



text \<open>The separate program does the same handshake in every phase.\<close>

lemma signal_completion_handshake:
  "\<forall>n. lib_outcome l n = None \<Longrightarrow> signal_completion (Some (demos_parameters fc fn has_init)) l =
     (0, l\<lparr>lib_count := Suc (Suc (lib_count l)), lib_log := Await fn # Notify fc # lib_log l\<rparr>)"
  using scan_parameters(1)[of fc fn has_init] scan_parameters(2)[of fn has_init]
  by (simp add: signal_completion_def scan_comma_def lib_io_def)

text \<open>
  A call after a failed initialisation does not try again: it takes the descriptors for valid and
  notifies descriptor 0.
\<close>

lemma failed_init_is_forgotten:
  "(case run_calls (api None) [Api_completed, Api_completed] (lib_start (\<lambda>n. None)) of (rs, l) \<Rightarrow> (rs, lib_log l)) =
     ([-1, 0], [Await 0, Notify 0])"
  by (simp add: lib_start_def demos_completed_def demos_init_def fail_with_def notify_and_wait_def lib_io_def Let_def)

end
