(* ===== verification/Floats.thy ===== *)
theory Floats
  imports Complex_Main Demos_Prelude "HOL-Library.Log_Nat"
begin

text \<open>
  The floating point arithmetic that the configuration uses (\<open>float\<close> with 24 and \<open>double\<close> with 53
  significant bits). A finite value is the rational number it denotes and every operation rounds its
  exact result to the nearest representable number, ties to even (\<open>round_to\<close>). The range of the
  exponent plays no role for the values of the program: the default budgets are quotients of 32-bit
  integers, far from the limits of \<open>float\<close>, and a frequency whose product overflows or is subnormal
  is rejected, or rounded to zero, by the integer conversion that follows.
\<close>

subsection \<open>Rounding to nearest\<close>

definition ilog2 :: "rat \<Rightarrow> int" where
  "ilog2 x = (case quotient_of x of (a, b) \<Rightarrow>
     let k = bitlen a - bitlen b in if 2 powi k \<le> x then k else k - 1)"

definition round_half_even :: "rat \<Rightarrow> int" where
  "round_half_even x = (let f = \<lfloor>x\<rfloor>; d = x - of_int f in
     if d < 1 / 2 \<or> (d = 1 / 2 \<and> even f) then f else f + 1)"

definition round_to :: "nat \<Rightarrow> rat \<Rightarrow> rat" where
  "round_to p x =
     (if x = 0 then 0
      else let q = 2 powi (ilog2 \<bar>x\<bar> - int p + 1) in of_int (round_half_even (x / q)) * q)"

lemma ilog2_le:
  assumes "0 < x"
  shows "2 powi ilog2 x \<le> x"
proof -
  obtain a b where ab: "quotient_of x = (a, b)" by force
  have b: "0 < b" using ab by (rule quotient_of_denom_pos)
  have x: "x = of_int a / of_int b" using ab by (rule quotient_of_div)
  have a: "0 < a" using assms x b by (simp add: zero_less_divide_iff)
  have "(2::int) ^ nat (bitlen a - 1) \<le> a" and "b < 2 ^ nat (bitlen b)"
    using bitlen_bounds[OF a] bitlen_bounds[OF b] by auto
  then have "(of_int (2 ^ nat (bitlen a - 1)) :: rat) \<le> of_int a" and "(of_int b :: rat) \<le> of_int (2 ^ nat (bitlen b))"
    by (simp_all only: of_int_le_iff)
  then have "2 powi (bitlen a - 1) \<le> (of_int a :: rat)" and "(of_int b :: rat) \<le> 2 powi bitlen b"
    using a b by (simp_all add: power_int_def bitlen_def floorlog_def)
  then have "(2 powi (bitlen a - 1) :: rat) / 2 powi bitlen b \<le> x"
    using b a unfolding x by (intro frac_le) auto
  then have "2 powi (bitlen a - bitlen b - 1) \<le> x"
    by (simp add: power_int_diff power_int_add algebra_simps)
  with ab show ?thesis by (auto simp: ilog2_def Let_def)
qed

lemma round_half_even_error: "\<bar>of_int (round_half_even x) - x\<bar> \<le> 1 / 2"
proof -
  have f: "of_int \<lfloor>x\<rfloor> \<le> x" "x < of_int \<lfloor>x\<rfloor> + 1" using floor_correct[of x] by auto
  have "round_half_even x = \<lfloor>x\<rfloor> \<and> x - of_int \<lfloor>x\<rfloor> \<le> 1 / 2 \<or>
      round_half_even x = \<lfloor>x\<rfloor> + 1 \<and> 1 / 2 \<le> x - of_int \<lfloor>x\<rfloor>"
    unfolding round_half_even_def Let_def by auto
  with f show ?thesis by (auto simp: abs_le_iff)
qed

lemma round_half_even_of_int [simp]: "round_half_even (of_int n) = n"
  by (simp add: round_half_even_def)

lemma round_to_error: "\<bar>round_to p x - x\<bar> \<le> \<bar>x\<bar> / 2 ^ p"
proof (cases "x = 0")
  case False
  define q :: rat where "q = 2 powi (ilog2 \<bar>x\<bar> - int p + 1)"
  have q: "0 < q" by (simp add: q_def)
  have "round_to p x - x = (of_int (round_half_even (x / q)) - x / q) * q"
    using False q by (simp add: round_to_def q_def Let_def left_diff_distrib)
  then have "\<bar>round_to p x - x\<bar> \<le> 1 / 2 * q"
    using mult_right_mono[OF round_half_even_error[of "x / q"], of q] q by (simp add: abs_mult)
  also have "1 / 2 * q = 2 powi ilog2 \<bar>x\<bar> / 2 ^ p"
    by (simp add: q_def power_int_add power_int_diff field_simps)
  also have "\<dots> \<le> \<bar>x\<bar> / 2 ^ p"
    using ilog2_le[of "\<bar>x\<bar>"] False by (intro divide_right_mono) auto
  finally show ?thesis .
qed (simp add: round_to_def)

lemma round_to_of_int:
  assumes "\<bar>n\<bar> < 2 ^ p"
  shows "round_to p (of_int n) = of_int n"
proof (cases "n = 0")
  case False
  let ?e = "ilog2 \<bar>of_int n\<bar>"
  have "(2::rat) powi ?e \<le> of_int \<bar>n\<bar>" using ilog2_le[of "\<bar>of_int n\<bar>"] False by simp
  also have "\<dots> < of_int (2 ^ p)" using assms by (simp only: of_int_less_iff)
  finally have "(2::rat) powi ?e < 2 powi int p" by simp
  then have "?e < int p" using power_int_le_imp_le_exp power_int_increasing[of "int p" ?e "2::rat"] by (auto simp: not_less[symmetric])
  then obtain k where k: "?e - int p + 1 = - int k"
    by (intro that[of "nat (int p - 1 - ?e)"]) simp
  have "(of_int n :: rat) / 2 powi (- int k) = of_int (n * 2 ^ k)"
    by (simp add: power_int_minus field_simps)
  then have "round_half_even (of_int n / 2 powi (- int k)) = n * 2 ^ k" by (metis round_half_even_of_int)
  then show ?thesis using False by (simp add: round_to_def k Let_def power_int_minus)
qed (simp add: round_to_def)

subsection \<open>Operations\<close>

text \<open>\<open>Non_finite\<close> is NaN or an infinity.\<close>

datatype flt = Finite rat | Non_finite

fun isnan :: "flt \<Rightarrow> bool" where
  "isnan Non_finite = True"
| "isnan (Finite x) = False"

definition float_of_int :: "int \<Rightarrow> flt" where
  "float_of_int n = Finite (round_to 24 (of_int n))"

definition flt_mult :: "nat \<Rightarrow> flt \<Rightarrow> flt \<Rightarrow> flt" where
  "flt_mult p x y = (case (x, y) of (Finite a, Finite b) \<Rightarrow> Finite (round_to p (a * b)) | _ \<Rightarrow> Non_finite)"

definition flt_divide :: "nat \<Rightarrow> flt \<Rightarrow> flt \<Rightarrow> flt" where
  "flt_divide p x y = (case (x, y) of
     (Finite a, Finite b) \<Rightarrow> if b = 0 then Non_finite else Finite (round_to p (a / b)) | _ \<Rightarrow> Non_finite)"

text \<open>Rounding toward zero. A conversion whose result does not fit into the integer type is undefined.\<close>

definition round_to_zero :: "rat \<Rightarrow> int" where
  "round_to_zero x = (if 0 \<le> x then \<lfloor>x\<rfloor> else \<lceil>x\<rceil>)"

definition convert_to_int :: "int \<Rightarrow> int \<Rightarrow> flt \<Rightarrow> int result" where
  "convert_to_int lo hi x = (case x of
     Finite a \<Rightarrow> if lo \<le> round_to_zero a \<and> round_to_zero a \<le> hi then Inr (round_to_zero a)
                 else Inl (Undefined_behaviour ''conversion of a floating point value out of range'')
   | Non_finite \<Rightarrow> Inl (Undefined_behaviour ''conversion of a floating point value out of range''))"

text \<open>An upper bound that survives a rounding.\<close>

lemma round_to_le:
  assumes "x \<le> u" and "0 \<le> u" and "0 \<le> x"
  shows "round_to p x \<le> u * (1 + 1 / 2 ^ p)"
proof -
  have "round_to p x \<le> x + x / 2 ^ p" using round_to_error[of p x] assms(3) by simp
  also have "\<dots> \<le> u + u / 2 ^ p" using assms(1) by (intro add_mono divide_right_mono) auto
  finally show ?thesis by (simp add: algebra_simps)
qed

lemma round_to_ge:
  assumes "l \<le> x" and "0 \<le> l"
  shows "l * (1 - 1 / 2 ^ p) \<le> round_to p x"
proof -
  have "0 \<le> x" using assms by simp
  have "l * (1 - 1 / 2 ^ p) \<le> x * (1 - 1 / 2 ^ p)" using assms by (intro mult_right_mono) auto
  also have "\<dots> = x - x / 2 ^ p" by (simp add: algebra_simps)
  also have "\<dots> \<le> round_to p x" using round_to_error[of p x] \<open>0 \<le> x\<close> by simp
  finally show ?thesis .
qed

lemma round_to_nonneg: "0 \<le> x \<Longrightarrow> 0 \<le> round_to p x"
  using round_to_ge[of 0 x p] by simp

lemma round_half_even_floor: "\<lfloor>x\<rfloor> \<le> round_half_even x"
  by (simp add: round_half_even_def Let_def)

lemma round_to_ge_int:
  assumes "of_int n \<le> x" and "0 \<le> n" and "n < 2 ^ p"
  shows "of_int n \<le> round_to p x"
proof (cases "x = 0")
  case False
  then have x: "0 < x" using assms by linarith
  define e where "e = ilog2 x - int p + 1"
  define q :: rat where "q = 2 powi e"
  have q: "0 < q" by (simp add: q_def)
  have r: "of_int \<lfloor>x / q\<rfloor> * q \<le> round_to p x"
    using x q round_half_even_floor[of "x / q"]
    by (simp add: round_to_def q_def e_def Let_def)
  show ?thesis
  proof (cases "e \<le> 0")
    case True
    then obtain k where k: "e = - int k" by (intro that[of "nat (- e)"]) simp
    have nq: "of_int n / q = (of_int (n * 2 ^ k) :: rat)" by (simp add: q_def k power_int_minus field_simps)
    have "n * 2 ^ k \<le> \<lfloor>x / q\<rfloor>"
      using divide_right_mono[OF assms(1), of q] q unfolding nq by (simp add: le_floor_iff)
    then have "of_int (n * 2 ^ k) * q \<le> of_int \<lfloor>x / q\<rfloor> * q" using q by (intro mult_right_mono) (simp_all only: of_int_le_iff)
    then have "of_int n \<le> of_int \<lfloor>x / q\<rfloor> * q" using q unfolding nq[symmetric] by simp
    with r show ?thesis by simp
  next
    case False
    then obtain k where k: "ilog2 x = int p + int k" by (intro that[of "nat (e - 1)"]) (simp add: e_def)
    show ?thesis
    proof (cases p)
      case 0
      with assms have "n = 0" by simp
      with x show ?thesis by (simp add: round_to_nonneg)
    next
      case (Suc m)
      have "2 ^ p * 2 ^ k \<le> x" using ilog2_le[OF x] by (simp add: k power_int_add)
      moreover have q2: "q = 2 * 2 ^ k" by (simp add: q_def e_def k power_int_add)
      ultimately have "of_int (2 ^ m) \<le> x / q" by (simp add: field_simps Suc)
      then have "2 ^ m \<le> \<lfloor>x / q\<rfloor>" by (simp add: le_floor_iff)
      then have "of_int (2 ^ m) * q \<le> of_int \<lfloor>x / q\<rfloor> * q" using q by (intro mult_right_mono) (simp_all only: of_int_le_iff)
      moreover have "of_int (2 ^ p) \<le> of_int (2 ^ m) * q" by (simp add: q2 Suc)
      moreover have "(of_int n :: rat) \<le> of_int (2 ^ p)" using assms(3) by (simp only: of_int_le_iff)
      ultimately show ?thesis using r by linarith
    qed
  qed
qed (use assms in \<open>simp add: round_to_def\<close>)

end
