(* ===== verification/Cgroup.thy ===== *)
theory Cgroup
  imports Cpu_Set "HOL-Library.Sublist"
begin

text \<open>
  Control groups (\<open>src/src/cgroup.cpp\<close>, \<open>src/src/cgroup.hpp\<close>): a cgroup is a directory that the
  constructor makes and the destructor removes. The three subclasses add the freezer, the CPU set
  and the population events. The derived records extend the base record as the classes extend the
  base class; \<open>frozen\<close> is the state of the kernel's freezer after the last successful write to
  \<open>freezer.state\<close>.
\<close>

record cgroup =
  cg_remove :: bool
  cg_path :: string

record cgroup_freezer = cgroup +
  frozen :: bool

record cgroup_cpuset = cgroup +
  current_cpus :: cpu_set

definition EEXIST :: nat where
  "EEXIST = 17"

subsection \<open>The base class\<close>

definition create_dir :: "string \<Rightarrow> bool \<Rightarrow> os \<Rightarrow> (bool \<times> os) result" where
  "create_dir path may_exist s =
     (case syscall (Mkdir path) s of
        (None, t) \<Rightarrow> Inr (True, t)
      | (Some errno, t) \<Rightarrow>
          if errno = EEXIST then Inr (\<not> may_exist, t) else Inl (IO_error errno))"

definition cgroup_new :: "string \<Rightarrow> bool \<Rightarrow> os \<Rightarrow> (cgroup \<times> os) result" where
  "cgroup_new path may_exist s =
     bindE (create_dir path may_exist s) (\<lambda>(rm, t). Inr (\<lparr>cg_remove = rm, cg_path = path\<rparr>, t))"

definition child_path :: "string \<Rightarrow> string \<Rightarrow> string" where
  "child_path parent name = parent @ ''/'' @ name"

definition cgroup_child :: "string \<Rightarrow> string \<Rightarrow> os \<Rightarrow> (cgroup \<times> os) result" where
  "cgroup_child parent name s = cgroup_new (child_path parent name) False s"

text \<open>The destructor; a failing \<open>rmdir\<close> is only logged.\<close>

definition cgroup_delete :: "'a cgroup_scheme \<Rightarrow> os \<Rightarrow> os" where
  "cgroup_delete g s =
     (if cg_path g = [] \<or> \<not> cg_remove g then s else snd (syscall (Rmdir (cg_path g)) s))"

definition cgroup_add_process :: "'a cgroup_scheme \<Rightarrow> int \<Rightarrow> os \<Rightarrow> os result" where
  "cgroup_add_process g p s =
     (let file = cg_path g @ ''/cgroup.procs'' in
      bindE (CHECK (Open file) s) (CHECK (Write file (int_to_dec p))))"

definition cgroup_kill_all :: "'a cgroup_scheme \<Rightarrow> os \<Rightarrow> os result" where
  "cgroup_kill_all g s =
     foldE (\<lambda>p. CHECK (Kill p)) (read_procs s (io_count s) (cg_path g)) s"

subsection \<open>The freezer\<close>

definition state_file :: "'a cgroup_scheme \<Rightarrow> string" where
  "state_file g = cg_path g @ ''/freezer.state''"

definition freezer_new :: "string \<Rightarrow> string \<Rightarrow> os \<Rightarrow> (cgroup_freezer \<times> os) result" where
  "freezer_new parent name s =
     bindE (cgroup_child parent name s) (\<lambda>(g, t).
     bindE (CHECK (Open (state_file g)) t) (\<lambda>u.
     Inr (cgroup.extend g (cgroup_freezer.fields False), u)))"

definition freeze :: "cgroup_freezer \<Rightarrow> os \<Rightarrow> (cgroup_freezer \<times> os) result" where
  "freeze g s = bindE (CHECK (Write (state_file g) ''FROZEN'') s) (\<lambda>t. Inr (g\<lparr>frozen := True\<rparr>, t))"

definition unfreeze :: "cgroup_freezer \<Rightarrow> os \<Rightarrow> (cgroup_freezer \<times> os) result" where
  "unfreeze g s = bindE (CHECK (Write (state_file g) ''THAWED'') s) (\<lambda>t. Inr (g\<lparr>frozen := False\<rparr>, t))"

subsection \<open>The CPU set\<close>

definition cpus_file :: "'a cgroup_scheme \<Rightarrow> string" where
  "cpus_file g = cg_path g @ ''/cpuset.cpus''"

definition cpuset_new :: "string \<Rightarrow> string \<Rightarrow> os \<Rightarrow> (cgroup_cpuset \<times> os) result" where
  "cpuset_new parent name s =
     bindE (cgroup_child parent name s) (\<lambda>(g, t).
     bindE (CHECK (Open (cpus_file g)) t) (\<lambda>u.
     Inr (cgroup.extend g (cgroup_cpuset.fields 0), u)))"

definition set_cpus :: "cpu_set \<Rightarrow> cgroup_cpuset \<Rightarrow> os \<Rightarrow> (cgroup_cpuset \<times> os) result" where
  "set_cpus cpus g s =
     (if cpus = current_cpus g then Inr (g, s)
      else bindE (ASSERT (cpu_count cpus > 0) ''cpus.count() > 0'' s) (\<lambda>t.
           bindE (CHECK (Write (cpus_file g) (as_list cpus)) t) (\<lambda>u.
           Inr (g\<lparr>current_cpus := cpus\<rparr>, u))))"

subsection \<open>Population events\<close>

definition events_file :: "'a cgroup_scheme \<Rightarrow> string" where
  "events_file g = cg_path g @ ''/cgroup.events''"

definition events_new :: "string \<Rightarrow> string \<Rightarrow> os \<Rightarrow> (cgroup \<times> os) result" where
  "events_new parent name s =
     bindE (cgroup_child parent name s) (\<lambda>(g, t).
     bindE (CHECK (Open (events_file g)) t) (\<lambda>u. Inr (g, u)))"

text \<open>\<open>std::string::find(...) != npos\<close>.\<close>

fun str_contains :: "string \<Rightarrow> string \<Rightarrow> bool" where
  "str_contains pat [] \<longleftrightarrow> pat = []"
| "str_contains pat (c # cs) \<longleftrightarrow> prefix pat (c # cs) \<or> str_contains pat cs"

text \<open>\<open>pread\<close> into a buffer of which 99 bytes are used.\<close>

definition read_populated_status :: "'a cgroup_scheme \<Rightarrow> os \<Rightarrow> (bool \<times> os) result" where
  "read_populated_status g s =
     bindE (CHECK (Read (events_file g)) s) (\<lambda>t.
     Inr (str_contains ''populated 1'' (take 99 (read_file s (io_count s) (events_file g))), t))"

subsection \<open>Lemmas\<close>

lemma state_file_frozen [simp]: "state_file (g\<lparr>frozen := b\<rparr>) = state_file g"
  by (simp add: state_file_def)

lemma freeze_Inr [result_dests]: "freeze g s = Inr (g', t) \<longleftrightarrow>
    CHECK (Write (state_file g) ''FROZEN'') s = Inr t \<and> g' = g\<lparr>frozen := True\<rparr>"
  by (auto simp: freeze_def bindE_Inr_iff)

lemma unfreeze_Inr [result_dests]: "unfreeze g s = Inr (g', t) \<longleftrightarrow>
    CHECK (Write (state_file g) ''THAWED'') s = Inr t \<and> g' = g\<lparr>frozen := False\<rparr>"
  by (auto simp: unfreeze_def bindE_Inr_iff)

lemma set_cpus_current: "set_cpus cpus g s = Inr (g', t) \<Longrightarrow> current_cpus g' = cpus \<and> cg_path g' = cg_path g"
  by (auto simp: set_cpus_def bindE_Inr_iff split: if_splits)

lemma str_contains_sublist: "str_contains pat s \<longleftrightarrow> sublist pat s"
  by (induction s) (auto simp: sublist_Cons_right)

text \<open>
  The calls that make and remove directories. Only constructors and destructors of cgroups do it.
\<close>

fun dir_call :: "os_event \<Rightarrow> bool" where
  "dir_call (Mkdir path) = True"
| "dir_call (Rmdir path) = True"
| "dir_call _ = False"

definition dir_calls :: "os \<Rightarrow> os_event list" where
  "dir_calls s = filter dir_call (io_log s)"

text \<open>
  What the system keeps across every other call: the build type and the outcomes that are still to come
  are never written, the log only grows, and no directory is made or removed.
\<close>

definition os_extends :: "os \<Rightarrow> os \<Rightarrow> bool" where
  "os_extends s t \<longleftrightarrow> debug t = debug s \<and> io_outcome t = io_outcome s \<and> rand_seq t = rand_seq s \<and>
     suffix (io_log s) (io_log t) \<and> dir_calls t = dir_calls s"

lemma os_extends_refl [simp]: "os_extends s s"
  by (simp add: os_extends_def)

lemma os_extends_trans [trans]: "os_extends s t \<Longrightarrow> os_extends t u \<Longrightarrow> os_extends s u"
  by (auto simp: os_extends_def intro: suffix_order.trans)

lemma os_extends_io_ok: "os_extends s t \<Longrightarrow> io_ok t = io_ok s"
  by (simp add: os_extends_def io_ok_def)

lemma os_extends_debug: "os_extends s t \<Longrightarrow> debug t = debug s"
  by (simp add: os_extends_def)

lemma os_extends_dirs: "os_extends s t \<Longrightarrow> dir_calls t = dir_calls s"
  by (simp add: os_extends_def)

lemma write_stream_extends: "os_extends s (write_stream file txt s)"
  by (auto simp: write_stream_def syscall_def os_extends_def suffix_Cons dir_calls_def split: option.splits)

lemma CHECK_extends: "CHECK ev s = Inr t \<Longrightarrow> \<not> dir_call ev \<Longrightarrow> os_extends s t"
  by (auto simp: CHECK_Inr_iff os_extends_def suffix_Cons dir_calls_def)

lemma emit_extends [simp]: "\<not> dir_call ev \<Longrightarrow> os_extends s (emit ev s)"
  by (simp add: os_extends_def suffix_Cons dir_calls_def)

lemma uniform_int_extends: "uniform_int lo hi s = (v, t) \<Longrightarrow> os_extends s t"
  by (auto simp: uniform_int_def os_extends_def dir_calls_def)

lemma steady_now_extends: "steady_now s = (v, t) \<Longrightarrow> os_extends s t"
  by (auto simp: steady_now_def os_extends_def dir_calls_def)

lemma foldE_CHECK_extends: "foldE (\<lambda>x. CHECK (f x)) xs s = Inr t \<Longrightarrow> (\<And>x. \<not> dir_call (f x)) \<Longrightarrow> os_extends s t"
  by (erule foldE_invariant) (auto dest: CHECK_extends intro: os_extends_trans)

lemma cgroup_kill_all_extends: "cgroup_kill_all g s = Inr t \<Longrightarrow> os_extends s t"
  by (simp add: cgroup_kill_all_def foldE_CHECK_extends)

lemma cgroup_kill_all_log:
  "cgroup_kill_all g s = Inr t \<Longrightarrow>
   io_log t = rev (map Kill (read_procs s (io_count s) (cg_path g))) @ io_log s"
proof -
  have "foldE (\<lambda>p. CHECK (Kill p)) ps s = Inr t \<Longrightarrow> io_log t = rev (map Kill ps) @ io_log s" for ps
    by (induction ps arbitrary: s) (auto simp: bindE_Inr_iff CHECK_Inr_iff)
  then show "cgroup_kill_all g s = Inr t \<Longrightarrow> ?thesis" by (simp add: cgroup_kill_all_def)
qed

lemma set_cpus_extends: "set_cpus cpus g s = Inr (g', t) \<Longrightarrow> os_extends s t"
  by (auto simp: set_cpus_def bindE_Inr_iff ASSERT_Inr_iff split: if_splits dest: CHECK_extends)

lemma io_ok_CHECK: "io_ok s \<Longrightarrow> \<not> dir_call ev \<Longrightarrow> \<exists>t. CHECK ev s = Inr t \<and> os_extends s t"
  using CHECK_io_ok[of s ev] CHECK_extends by blast

lemma io_ok_freeze:
  "io_ok s \<Longrightarrow> \<exists>t. freeze g s = Inr (g\<lparr>frozen := True\<rparr>, t) \<and> os_extends s t"
  using io_ok_CHECK[of s "Write (state_file g) ''FROZEN''"] by (auto simp: freeze_def)

lemma io_ok_unfreeze:
  "io_ok s \<Longrightarrow> \<exists>t. unfreeze g s = Inr (g\<lparr>frozen := False\<rparr>, t) \<and> os_extends s t"
  using io_ok_CHECK[of s "Write (state_file g) ''THAWED''"] by (auto simp: unfreeze_def)

lemma io_ok_kill_all: "io_ok s \<Longrightarrow> \<exists>t. cgroup_kill_all g s = Inr t \<and> os_extends s t"
proof -
  assume "io_ok s"
  then have "\<exists>t. foldE (\<lambda>p. CHECK (Kill p)) ps s = Inr t \<and> os_extends s t" for ps
  proof (induction ps arbitrary: s)
    case Nil
    then show ?case by simp
  next
    case (Cons p ps)
    from Cons.prems obtain u where u: "CHECK (Kill p) s = Inr u" "os_extends s u"
      using io_ok_CHECK[of s "Kill p"] by auto
    from Cons.IH[of u] u(2) Cons.prems obtain t where
      "foldE (\<lambda>p. CHECK (Kill p)) ps u = Inr t" "os_extends u t"
      by (auto simp: os_extends_io_ok)
    with u show ?case by (auto intro: os_extends_trans)
  qed
  then show ?thesis by (simp add: cgroup_kill_all_def)
qed

lemma io_ok_set_cpus:
  assumes "io_ok s" and "cpus \<noteq> 0"
  shows "\<exists>g' t. set_cpus cpus g s = Inr (g', t) \<and> os_extends s t"
proof (cases "cpus = current_cpus g")
  case True
  then show ?thesis by (simp add: set_cpus_def)
next
  case False
  obtain t where "CHECK (Write (cpus_file g) (as_list cpus)) s = Inr t" "os_extends s t"
    using io_ok_CHECK[OF assms(1), of "Write (cpus_file g) (as_list cpus)"] by auto
  with False assms(2) show ?thesis by (simp add: set_cpus_def cpu_count_pos_iff)
qed

end
