(* ===== verification/Event_Fds.thy ===== *)
theory Event_Fds
  imports Cgroup
begin

text \<open>
  The wrappers of \<open>timerfd\<close> and \<open>eventfd\<close> around libev watchers (\<open>src/src/timerfd.cpp\<close>,
  \<open>src/src/timerfd.hpp\<close>, \<open>src/src/evfd.cpp\<close>). A timer is its kernel setting and whether the
  watcher is started: \<open>stop()\<close> stops the watcher and leaves the kernel timer as it is. The kernel
  reads the setting \<open>(0, 0)\<close> as a disarmed timer.
\<close>

type_synonym timespec = "int \<times> int"

definition ns_per_sec :: int where
  "ns_per_sec = 1000000000"

text \<open>\<open>time_point_cast<seconds>\<close> truncates toward zero.\<close>

definition timepointToTimespec :: "time_point \<Rightarrow> timespec" where
  "timepointToTimespec tp =
     (let secs = tp sdiv ns_per_sec; ns = tp - secs * ns_per_sec in (secs, ns))"

definition timespec_ns :: "timespec \<Rightarrow> int" where
  "timespec_ns ts = fst ts * ns_per_sec + snd ts"

record timerfd =
  tfd_value :: timespec
  tfd_active :: bool

definition timerfd_new :: "os \<Rightarrow> (timerfd \<times> os) result" where
  "timerfd_new s = bindE (CHECK Timerfd_create s) (\<lambda>t. Inr (\<lparr>tfd_value = (0, 0), tfd_active = False\<rparr>, t))"

definition timer_start :: "time_point \<Rightarrow> timerfd \<Rightarrow> os \<Rightarrow> (timerfd \<times> os) result" where
  "timer_start timeout tm s =
     (let ts = timepointToTimespec timeout in
      bindE (CHECK (Timerfd_settime (fst ts) (snd ts)) s) (\<lambda>t.
      Inr (tm\<lparr>tfd_value := ts, tfd_active := True\<rparr>, t)))"

definition timer_stop :: "timerfd \<Rightarrow> timerfd" where
  "timer_stop tm = tm\<lparr>tfd_active := False\<rparr>"

text \<open>The watcher is ready when it is started and the kernel timer has expired.\<close>

definition timer_ready :: "time_point \<Rightarrow> timerfd \<Rightarrow> bool" where
  "timer_ready now tm \<longleftrightarrow>
     tfd_active tm \<and> tfd_value tm \<noteq> (0, 0) \<and> timespec_ns (tfd_value tm) \<le> now"

text \<open>
  \<open>timerfd::ev_callback\<close> up to the call of the user's callback: the descriptor is read, the
  watcher stopped.
\<close>

definition timer_ev_callback :: "timerfd \<Rightarrow> os \<Rightarrow> (timerfd \<times> os) result" where
  "timer_ev_callback tm s = bindE (CHECK Fd_read s) (\<lambda>t. Inr (timer_stop tm, t))"

text \<open>\<open>evfd\<close>: the constructor, and \<open>ev_callback\<close> up to the call of the user's callback.\<close>

definition evfd_new :: "os \<Rightarrow> os result" where
  "evfd_new s = CHECK Eventfd s"

definition evfd_ev_callback :: "os \<Rightarrow> os result" where
  "evfd_ev_callback s = CHECK Fd_read s"

definition evfd_write :: "os \<Rightarrow> os result" where
  "evfd_write s = CHECK Efd_write s"

subsection \<open>Lemmas\<close>

lemma timer_stop_simps [simp]:
  "tfd_active (timer_stop tm) = False" "tfd_value (timer_stop tm) = tfd_value tm"
  "timer_stop (timer_stop tm) = timer_stop tm"
  by (simp_all add: timer_stop_def)

lemma timer_start_Inr [result_dests]: "timer_start t tm s = Inr (tm', s') \<longleftrightarrow>
    CHECK (Timerfd_settime (fst (timepointToTimespec t)) (snd (timepointToTimespec t))) s = Inr s' \<and>
    tm' = tm\<lparr>tfd_value := timepointToTimespec t, tfd_active := True\<rparr>"
  by (auto simp: timer_start_def Let_def bindE_Inr_iff)

lemma io_ok_timer_start: "io_ok s \<Longrightarrow> \<exists>s'. timer_start t tm s =
    Inr (tm\<lparr>tfd_value := timepointToTimespec t, tfd_active := True\<rparr>, s') \<and> os_extends s s'"
  using io_ok_CHECK[of s "Timerfd_settime (fst (timepointToTimespec t)) (snd (timepointToTimespec t))"]
  by (auto simp: timer_start_def Let_def)

lemma timer_start_extends: "timer_start t tm s = Inr (tm', s') \<Longrightarrow> os_extends s s'"
  by (auto simp: timer_start_Inr dest: CHECK_extends)

text \<open>
  C36. The \<open>timespec\<close> handed to the kernel is normalised and denotes exactly the requested instant,
  so a started timer is ready precisely from the requested time on.
\<close>

theorem timer_start_exact:
  assumes "0 < timeout" and "timer_start timeout tm s = Inr (tm', s')"
  shows "0 \<le> fst (tfd_value tm') \<and> 0 \<le> snd (tfd_value tm') \<and> snd (tfd_value tm') < ns_per_sec \<and>
    (\<forall>now. timer_ready now tm' = (timeout \<le> now)) \<and> (\<forall>now. \<not> timer_ready now (timer_stop tm'))"
proof -
  have v: "tfd_value tm' = (timeout div ns_per_sec, timeout mod ns_per_sec)"
    and act: "tfd_active tm'"
    using assms by (auto simp: timer_start_Inr timepointToTimespec_def ns_per_sec_def
        signed_divide_int_def sgn_if minus_div_mult_eq_mod)
  have "timespec_ns (tfd_value tm') = timeout" by (simp add: v timespec_ns_def)
  with assms(1) v act show ?thesis
    by (auto simp: timer_ready_def ns_per_sec_def pos_imp_zdiv_nonneg_iff timespec_ns_def)
qed

theorem timer_start_exact_witness:
  "\<exists>tm' s'. timer_start 1500000000 \<lparr>tfd_value = (0, 0), tfd_active = False\<rparr> (quiet_os True) = Inr (tm', s') \<and>
     timer_ready 1500000000 tm' \<and> \<not> timer_ready 1499999999 tm'"
proof -
  obtain tm' s' where run:
    "timer_start 1500000000 \<lparr>tfd_value = (0, 0), tfd_active = False\<rparr> (quiet_os True) = Inr (tm', s')"
    using io_ok_timer_start[of "quiet_os True"] by fastforce
  have "(0::int) < 1500000000" by simp
  from timer_start_exact[OF this run] run show ?thesis by auto
qed

end
