(* ===== verification/Cpufreq_Policy.thy ===== *)
theory Cpufreq_Policy
  imports Cgroup
begin

text \<open>
  One \<open>cpufreq\<close> policy of the kernel (\<open>src/src/cpufreq_policy.hpp\<close>): the frequencies it offers, the
  governor it runs under and the writes that change them. The contents of the sysfs files that the
  constructor reads are the argument \<open>cpufreq_sysfs\<close>: for each stream the value it yields, with
  \<open>None\<close> where the extraction fails.
\<close>

datatype cpu_freq = CpuFrequencyHz (freq: "64 word")

text \<open>The conversion \<open>operator uint64_t\<close> orders frequencies by their value.\<close>

instantiation cpu_freq :: linorder
begin

definition less_eq_cpu_freq :: "cpu_freq \<Rightarrow> cpu_freq \<Rightarrow> bool" where
  "less_eq_cpu_freq a b \<longleftrightarrow> freq a \<le> freq b"

definition less_cpu_freq :: "cpu_freq \<Rightarrow> cpu_freq \<Rightarrow> bool" where
  "less_cpu_freq a b \<longleftrightarrow> freq a < freq b"

instance
  by standard (auto simp: less_eq_cpu_freq_def less_cpu_freq_def intro: cpu_freq.expand)

end

record cpufreq_sysfs =
  sys_governor :: string
  sys_min_khz :: "64 word option"
  sys_max_khz :: "64 word option"
  sys_scaling_max_khz :: "64 word option"
  sys_available_khz :: "64 word list"
  sys_available_eof :: bool
  sys_affected :: "nat list"
  sys_affected_eof :: bool

record cpufreq_policy =
  policy_dir :: string
  policy_name :: string
  current_governor :: string
  original_governor :: string
  min_frequency :: cpu_freq
  max_frequency :: cpu_freq
  original_scaling_max_frequency :: cpu_freq
  available_frequencies :: "cpu_freq list option"
  affected_cores :: cpu_set
  policy_active :: bool

subsection \<open>Reading the files\<close>

definition governor_file :: "string \<Rightarrow> string" where
  "governor_file dir = dir @ ''/scaling_governor''"

definition read_governor :: "string \<Rightarrow> cpufreq_sysfs \<Rightarrow> os \<Rightarrow> (string \<times> os) result" where
  "read_governor dir fs s =
     bindE (CHECK (Open (governor_file dir)) s) (\<lambda>t.
     if sys_governor fs = [] then Inl (Runtime_error ''Failed to read current cpufreq governor'')
     else Inr (sys_governor fs, t))"

definition hz_of_khz :: "64 word \<Rightarrow> cpu_freq" where
  "hz_of_khz k = CpuFrequencyHz (k * 1000)"

definition read_freq_file :: "string \<Rightarrow> 64 word option \<Rightarrow> os \<Rightarrow> (cpu_freq \<times> os) result" where
  "read_freq_file path v s =
     bindE (CHECK (Open path) s) (\<lambda>t.
     case v of None \<Rightarrow> Inl (Runtime_error ''ios_base::failure'') | Some k \<Rightarrow> Inr (hz_of_khz k, t))"

text \<open>A driver without the list of frequencies is not an error.\<close>

definition read_available_frequencies ::
  "string \<Rightarrow> cpufreq_sysfs \<Rightarrow> os \<Rightarrow> (cpu_freq list option \<times> os) result" where
  "read_available_frequencies dir fs s =
     (case syscall (Open (dir @ ''/scaling_available_frequencies'')) s of
        (Some errno, t) \<Rightarrow> Inr (None, t)
      | (None, t) \<Rightarrow> bindE (ASSERT (sys_available_eof fs) ''is_freq.eof()'' t) (\<lambda>u.
          Inr (Some (map hz_of_khz (sys_available_khz fs)), u)))"

definition read_affected_cpus :: "string \<Rightarrow> cpufreq_sysfs \<Rightarrow> os \<Rightarrow> (cpu_set \<times> os) result" where
  "read_affected_cpus dir fs s =
     bindE (CHECK (Open (dir @ ''/affected_cpus'')) s) (\<lambda>t.
     bindE (ASSERT (sys_affected_eof fs) ''is_cpus.eof()'' t) (\<lambda>u.
     Inr (fold set_cpu (sys_affected fs) 0, u)))"

subsection \<open>Writing\<close>

definition write_governor :: "string \<Rightarrow> cpufreq_policy \<Rightarrow> os \<Rightarrow> (cpufreq_policy \<times> os) result" where
  "write_governor governor p s =
     (if \<not> policy_active p then Inr (p, s)
      else if governor = current_governor p then Inr (p, s)
      else bindE (CHECK (Open (governor_file (policy_dir p))) s) (\<lambda>t.
           Inr (p\<lparr>current_governor := governor\<rparr>, write_stream (governor_file (policy_dir p)) governor t)))"

text \<open>\<open>cpufreq\<close> uses kHz.\<close>

definition khz_text :: "cpu_freq \<Rightarrow> string" where
  "khz_text f = nat_to_dec (unat (freq f div 1000))"

definition write_scaling_max_freq :: "cpu_freq \<Rightarrow> cpufreq_policy \<Rightarrow> os \<Rightarrow> os result" where
  "write_scaling_max_freq f p s =
     (let file = policy_dir p @ ''/scaling_max_freq'' in
      bindE (CHECK (Open file) s) (CHECK (Write file (khz_text f))))"

definition validate_frequency :: "cpufreq_policy \<Rightarrow> cpu_freq \<Rightarrow> unit result" where
  "validate_frequency p f =
     (if f < min_frequency p then Inl (Runtime_error ''less than the supported minimum'')
      else if f > max_frequency p then Inl (Runtime_error ''more than the supported maximum'')
      else case available_frequencies p of
             None \<Rightarrow> Inr ()
           | Some fs \<Rightarrow> if f \<in> set fs then Inr ()
               else Inl (Runtime_error ''this CPU supports only the following frequencies''))"

definition speed_file :: "cpufreq_policy \<Rightarrow> string" where
  "speed_file p = policy_dir p @ ''/scaling_setspeed''"

text \<open>\<open>RUN_DEBUG(validate_frequency(freq))\<close> is compiled out of a release build.\<close>

definition write_frequency :: "cpu_freq \<Rightarrow> cpufreq_policy \<Rightarrow> os \<Rightarrow> os result" where
  "write_frequency f p s =
     (if \<not> policy_active p then Inr s
      else bindE (if debug s then validate_frequency p f else Inr ()) (\<lambda>_.
           CHECK (Write (speed_file p) (khz_text f)) s))"

definition get_freq :: "cpufreq_policy \<Rightarrow> nat \<Rightarrow> cpu_freq result" where
  "get_freq p index =
     (case available_frequencies p of
        None \<Rightarrow> Inl (Runtime_error ''the list of available frequencies is not available'')
      | Some fs \<Rightarrow> if index \<ge> length fs then Inl (Runtime_error ''out-of-bounds frequency'')
          else Inr (fs ! index))"

definition write_frequency_i :: "nat \<Rightarrow> cpufreq_policy \<Rightarrow> os \<Rightarrow> os result" where
  "write_frequency_i index p s =
     (if \<not> policy_active p then Inr s else bindE (get_freq p index) (\<lambda>f. write_frequency f p s))"

subsection \<open>Constructor and destructor\<close>

definition cpufreq_policy_new ::
  "string \<Rightarrow> string \<Rightarrow> cpufreq_sysfs \<Rightarrow> os \<Rightarrow> (cpufreq_policy \<times> os) result" where
  "cpufreq_policy_new dir name fs s =
     bindE (read_governor dir fs s) (\<lambda>(gov, s1).
     bindE (read_freq_file (dir @ ''/cpuinfo_min_freq'') (sys_min_khz fs) s1) (\<lambda>(mn, s2).
     bindE (read_freq_file (dir @ ''/cpuinfo_max_freq'') (sys_max_khz fs) s2) (\<lambda>(mx, s3).
     bindE (read_freq_file (dir @ ''/scaling_max_freq'') (sys_scaling_max_khz fs) s3) (\<lambda>(smx, s4).
     bindE (read_available_frequencies dir fs s4) (\<lambda>(av, s5).
     bindE (read_affected_cpus dir fs s5) (\<lambda>(aff, s6).
     let p0 = \<lparr>policy_dir = dir, policy_name = name, current_governor = gov, original_governor = gov,
               min_frequency = mn, max_frequency = mx, original_scaling_max_frequency = smx,
               available_frequencies = av, affected_cores = aff, policy_active = cpu_count aff > 0\<rparr>
     in bindE (write_governor ''userspace'' p0 s6) (\<lambda>(p1, s7).
        bindE (if smx \<noteq> mx then write_scaling_max_freq mx p1 s7 else Inr s7) (\<lambda>s8.
        bindE (CHECK (Open (speed_file p1)) s8) (\<lambda>s9.
        Inr (p1, s9))))))))))"

definition cpufreq_policy_delete :: "cpufreq_policy \<Rightarrow> os \<Rightarrow> (cpufreq_policy \<times> os) result" where
  "cpufreq_policy_delete p s =
     bindE (if original_scaling_max_frequency p \<noteq> max_frequency p
            then write_scaling_max_freq (original_scaling_max_frequency p) p s else Inr s) (\<lambda>t.
     write_governor (original_governor p) p t)"

subsection \<open>Lemmas\<close>

lemma validate_frequency_Inr:
  "validate_frequency p f = Inr u \<longleftrightarrow>
     min_frequency p \<le> f \<and> f \<le> max_frequency p \<and>
     (\<forall>fs. available_frequencies p = Some fs \<longrightarrow> f \<in> set fs)"
  by (auto simp: validate_frequency_def split: option.splits)

lemma write_frequency_extends: "write_frequency f p s = Inr t \<Longrightarrow> os_extends s t"
  by (auto simp: write_frequency_def bindE_Inr_iff split: if_splits dest: CHECK_extends)

lemma write_frequency_debug_valid:
  "write_frequency f p s = Inr t \<Longrightarrow> policy_active p \<Longrightarrow> debug s \<Longrightarrow>
   validate_frequency p f = Inr () \<and> io_log t = Write (speed_file p) (khz_text f) # io_log s"
  by (auto simp: write_frequency_def bindE_Inr_iff CHECK_Inr_iff split: if_splits)

lemma write_frequency_release:
  "\<not> debug s \<Longrightarrow> io_ok s \<Longrightarrow> \<exists>t. write_frequency f p s = Inr t \<and> os_extends s t"
  using io_ok_CHECK[of s "Write (speed_file p) (khz_text f)"] by (auto simp: write_frequency_def)

lemma write_governor_Inr:
  "write_governor g p s = Inr (q, t) \<Longrightarrow>
   q = p\<lparr>current_governor := if policy_active p then g else current_governor p\<rparr> \<and> os_extends s t"
  by (auto simp: write_governor_def bindE_Inr_iff split: if_splits
      dest!: CHECK_extends intro: os_extends_trans write_stream_extends)

text \<open>The texts that were written to a file, the last one first.\<close>

definition written_to :: "string \<Rightarrow> os \<Rightarrow> string list" where
  "written_to file s = List.map_filter (\<lambda>ev. case ev of Write f txt \<Rightarrow> if f = file then Some txt else None | _ \<Rightarrow> None) (io_log s)"

lemma written_to_CHECK: "CHECK ev s = Inr t \<Longrightarrow> (\<And>txt. ev \<noteq> Write file txt) \<Longrightarrow> written_to file t = written_to file s"
  by (auto simp: CHECK_Inr_iff written_to_def List.map_filter_simps split: os_event.splits)

lemma written_to_stream:
  "io_ok s \<Longrightarrow> written_to file (write_stream f txt s) = (if f = file then txt # written_to file s else written_to file s)"
  by (simp add: written_to_def write_stream_def syscall_def io_ok_def List.map_filter_simps)

lemma write_governor_written:
  assumes "write_governor g p s = Inr (q, t)" and "io_ok s"
  shows "written_to (governor_file (policy_dir p)) t =
    (if policy_active p \<and> g \<noteq> current_governor p then [g] else []) @ written_to (governor_file (policy_dir p)) s"
proof (cases "policy_active p \<and> g \<noteq> current_governor p")
  case True
  let ?file = "governor_file (policy_dir p)"
  from assms(1) True obtain u where u: "CHECK (Open ?file) s = Inr u" and t: "t = write_stream ?file g u"
    by (auto simp: write_governor_def bindE_Inr_iff)
  have "io_ok u" using CHECK_extends[OF u] assms(2) by (simp add: os_extends_io_ok)
  then show ?thesis using True written_to_CHECK[OF u] by (simp add: t written_to_stream)
next
  case False
  with assms(1) show ?thesis by (auto simp: write_governor_def split: if_splits)
qed

lemma write_scaling_max_freq_written:
  assumes "write_scaling_max_freq f p s = Inr t"
  shows "written_to (governor_file dir) t = written_to (governor_file dir) s" "os_extends s t"
proof -
  let ?file = "policy_dir p @ ''/scaling_max_freq''"
  from assms obtain u where u: "CHECK (Open ?file) s = Inr u" and t: "CHECK (Write ?file (khz_text f)) u = Inr t"
    by (auto simp: write_scaling_max_freq_def Let_def bindE_Inr_iff)
  have "?file \<noteq> governor_file dir"
  proof
    assume "?file = governor_file dir"
    then have "last ?file = last (governor_file dir)" by simp
    then show False by (simp add: governor_file_def)
  qed
  with written_to_CHECK[OF u] written_to_CHECK[OF t] show "written_to (governor_file dir) t = written_to (governor_file dir) s"
    by simp
  show "os_extends s t" using u t by (auto dest!: CHECK_extends elim: os_extends_trans)
qed

text \<open>A failing write of the governor goes unnoticed: the object believes that it took place.\<close>

lemma governor_write_failure_ignored:
  assumes "policy_active p" and "g \<noteq> current_governor p"
    and "io_outcome s (io_count s) = None" and "io_outcome s (Suc (io_count s)) = Some errno"
  shows "\<exists>q t. write_governor g p s = Inr (q, t) \<and> current_governor q = g \<and>
    written_to (governor_file (policy_dir p)) t = written_to (governor_file (policy_dir p)) s"
  using assms by (simp add: write_governor_def CHECK_def syscall_def write_stream_def written_to_def List.map_filter_simps)

text \<open>Reading the files of the constructor writes nothing.\<close>

definition only_reads :: "os \<Rightarrow> os \<Rightarrow> bool" where
  "only_reads s t \<longleftrightarrow> os_extends s t \<and> (\<forall>file. written_to file t = written_to file s)"

lemma only_reads_trans [trans]: "only_reads s t \<Longrightarrow> only_reads t u \<Longrightarrow> only_reads s u"
  by (auto simp: only_reads_def intro: os_extends_trans)

lemma only_reads_Open: "CHECK (Open file) s = Inr t \<Longrightarrow> only_reads s t"
  by (auto simp: only_reads_def dest: CHECK_extends intro: written_to_CHECK)

lemma reads_only_read:
  "read_governor dir fs s = Inr (gov, t) \<Longrightarrow> only_reads s t"
  "read_freq_file file v s = Inr (f, t) \<Longrightarrow> only_reads s t"
  "read_available_frequencies dir fs s = Inr (av, t) \<Longrightarrow> only_reads s t"
  "read_affected_cpus dir fs s = Inr (aff, t) \<Longrightarrow> only_reads s t"
  by (auto simp: read_governor_def read_freq_file_def read_available_frequencies_def read_affected_cpus_def
      bindE_Inr_iff ASSERT_Inr_iff split: if_splits option.splits prod.splits dest: only_reads_Open)
    (auto simp: only_reads_def syscall_def os_extends_def suffix_Cons dir_calls_def written_to_def
      List.map_filter_simps split: option.splits)

lemma cpufreq_policy_new_written:
  assumes "cpufreq_policy_new dir name fs s = Inr (p, t)" and "io_ok s"
  shows "policy_dir p = dir \<and> original_governor p = sys_governor fs \<and>
    current_governor p = (if policy_active p then ''userspace'' else sys_governor fs) \<and>
    written_to (governor_file dir) t = (if policy_active p \<and> sys_governor fs \<noteq> ''userspace'' then [''userspace''] else []) @
      written_to (governor_file dir) s"
proof -
  from assms(1) obtain gov s1 mn s2 mx s3 smx s4 av s5 aff s6 p0 p1 s7 s8 where
    r: "read_governor dir fs s = Inr (gov, s1)" "read_freq_file (dir @ ''/cpuinfo_min_freq'') (sys_min_khz fs) s1 = Inr (mn, s2)"
      "read_freq_file (dir @ ''/cpuinfo_max_freq'') (sys_max_khz fs) s2 = Inr (mx, s3)"
      "read_freq_file (dir @ ''/scaling_max_freq'') (sys_scaling_max_khz fs) s3 = Inr (smx, s4)"
      "read_available_frequencies dir fs s4 = Inr (av, s5)" "read_affected_cpus dir fs s5 = Inr (aff, s6)"
    and w: "write_governor ''userspace'' p0 s6 = Inr (p1, s7)"
    and p0: "policy_dir p0 = dir" "original_governor p0 = gov" "current_governor p0 = gov"
    and m: "(if smx \<noteq> mx then write_scaling_max_freq mx p1 s7 else Inr s7) = Inr s8"
    and o: "CHECK (Open (speed_file p1)) s8 = Inr t" and p: "p = p1"
    by (auto simp: cpufreq_policy_new_def Let_def bindE_Inr_iff split: prod.splits)
  note t = only_reads_trans
  have rd: "only_reads s s6"
    using t[OF t[OF t[OF t[OF t[OF reads_only_read(1)[OF r(1)] reads_only_read(2)[OF r(2)]] reads_only_read(2)[OF r(3)]]
      reads_only_read(2)[OF r(4)]] reads_only_read(3)[OF r(5)]] reads_only_read(4)[OF r(6)]] .
  then have ok: "io_ok s6" and s6: "written_to (governor_file dir) s6 = written_to (governor_file dir) s"
    using assms(2) by (auto simp: only_reads_def os_extends_io_ok)
  have "written_to (governor_file dir) s8 = written_to (governor_file dir) s7"
    using m by (auto split: if_splits dest: write_scaling_max_freq_written(1))
  moreover have "written_to (governor_file dir) t = written_to (governor_file dir) s8"
    using only_reads_Open[OF o] by (simp add: only_reads_def)
  moreover have "gov = sys_governor fs" using r(1) by (auto simp: read_governor_def bindE_Inr_iff split: if_splits)
  ultimately show ?thesis
    using write_governor_written[OF w ok] write_governor_Inr[OF w] p0 s6 p by auto
qed

lemma cpufreq_policy_delete_written:
  assumes "cpufreq_policy_delete p s = Inr (q, t)" and "io_ok s"
  shows "current_governor q = (if policy_active p then original_governor p else current_governor p) \<and>
    written_to (governor_file (policy_dir p)) t =
      (if policy_active p \<and> original_governor p \<noteq> current_governor p then [original_governor p] else []) @
      written_to (governor_file (policy_dir p)) s"
proof -
  from assms(1) obtain u where u: "(if original_scaling_max_frequency p \<noteq> max_frequency p
      then write_scaling_max_freq (original_scaling_max_frequency p) p s else Inr s) = Inr u"
    and w: "write_governor (original_governor p) p u = Inr (q, t)"
    by (auto simp: cpufreq_policy_delete_def bindE_Inr_iff)
  from u have "written_to (governor_file (policy_dir p)) u = written_to (governor_file (policy_dir p)) s" "os_extends s u"
    by (auto split: if_splits dest: write_scaling_max_freq_written)
  with write_governor_written[OF w] write_governor_Inr[OF w] assms(2) show ?thesis by (simp add: os_extends_io_ok)
qed

end
