(* ===== verification/Proc.thy ===== *)
theory Proc
  imports Event_Fds Cpufreq_Policy
begin

text \<open>
  A scheduled process (\<open>src/src/process.cpp\<close>, \<open>src/src/process.hpp\<close>): the record \<open>process\<close> holds
  the members of the class, \<open>child_active\<close> the state of the watcher \<open>child_w\<close>. The members
  \<open>part\<close> and \<open>loop\<close> are the place of the process in its partition and are not part of the value;
  the calls of \<open>part.completed_cb\<close> and \<open>part.proc_exit_cb\<close> are made by the event loop of
  \<open>Demos_Scheduler\<close> after the local part of the callback, which here returns whether the call is
  to be made. \<open>exec\<close> is modelled on the side of the parent.
\<close>

record process =
  argv :: string
  requested_frequency :: "cpu_freq option"
  jitter_lo :: int
  jitter_hi :: int
  child_active :: bool
  proc_cge :: cgroup
  proc_cgf :: cgroup_freezer
  working_dir :: "string option"
  budget :: milliseconds
  actual_budget :: milliseconds
  has_initialization :: bool
  completed :: bool
  demos_completed :: bool
  system_process_spawned :: bool
  waiting_for_empty_cgroup :: bool
  killed :: bool
  pid :: int

type_synonym proc_op = "process \<Rightarrow> os \<Rightarrow> (process \<times> os) result"

definition is_spawned :: "process \<Rightarrow> bool" where
  "is_spawned p = system_process_spawned p"

definition is_pending :: "process \<Rightarrow> bool" where
  "is_pending p \<longleftrightarrow> is_spawned p \<and> \<not> completed p"

definition needs_initialization :: "process \<Rightarrow> bool" where
  "needs_initialization p = has_initialization p"

definition suspend :: proc_op where
  "suspend p s = bindE (freeze (proc_cgf p) s) (\<lambda>(g, t). Inr (p\<lparr>proc_cgf := g\<rparr>, t))"

definition process_new ::
  "string \<Rightarrow> string \<Rightarrow> string \<Rightarrow> string \<Rightarrow> string option \<Rightarrow> milliseconds \<Rightarrow> milliseconds \<Rightarrow>
   cpu_freq option \<Rightarrow> bool \<Rightarrow> os \<Rightarrow> (process \<times> os) result" where
  "process_new name part_cge part_cgf cmd wd b jitter req_freq has_init s =
     bindE (evfd_new s) (\<lambda>s.
     bindE (CHECK Eventfd s) (\<lambda>s.
     bindE (events_new part_cge name s) (\<lambda>(ge, s).
     bindE (freezer_new part_cgf name s) (\<lambda>(gf, s).
     bindE (ASSERT (2 * b \<ge> jitter) ''2 * budget >= budget_jitter'' s) (\<lambda>s.
     suspend \<lparr>argv = cmd, requested_frequency = req_freq,
        jitter_lo = (- jitter) sdiv 2, jitter_hi = jitter - jitter sdiv 2,
        child_active = False, proc_cge = ge, proc_cgf = gf, working_dir = wd,
        budget = b, actual_budget = b, has_initialization = has_init,
        completed = False, demos_completed = False, system_process_spawned = False,
        waiting_for_empty_cgroup = False, killed = False, pid = -1\<rparr> s)))))"

definition exec :: proc_op where
  "exec p s =
     bindE (CHECK Fork s) (\<lambda>t.
     let q = p\<lparr>pid := fork_pid s (io_count s), system_process_spawned := True, killed := False,
               child_active := True\<rparr> in
     bindE (cgroup_add_process (proc_cge q) (pid q) t) (\<lambda>t.
     bindE (cgroup_add_process (proc_cgf q) (pid q) t) (\<lambda>t. Inr (q, t))))"

definition kill :: proc_op where
  "kill p s =
     (if \<not> is_spawned p then Inr (p, s)
      else bindE (freeze (proc_cgf p) s) (\<lambda>(g, t).
           bindE (cgroup_kill_all g t) (\<lambda>t.
           bindE (unfreeze g t) (\<lambda>(g, t). Inr (p\<lparr>proc_cgf := g, killed := True\<rparr>, t)))))"

definition resume :: proc_op where
  "resume p s =
     bindE (ASSERT (is_spawned p) ''is_spawned()'' s) (\<lambda>t.
     bindE (if demos_completed p
            then bindE (CHECK Efd_write t) (\<lambda>t. Inr (p\<lparr>demos_completed := False\<rparr>, t))
            else Inr (p, t)) (\<lambda>(p, t).
     bindE (unfreeze (proc_cgf p) t) (\<lambda>(g, t). Inr (p\<lparr>proc_cgf := g\<rparr>, t))))"

definition get_actual_budget :: "process \<Rightarrow> os \<Rightarrow> (milliseconds \<times> os) result" where
  "get_actual_budget p s =
     (if budget p \<noteq> actual_budget p
      then bindE (ASSERT (actual_budget p > 0) ''actual_budget > actual_budget.zero()'' s) (\<lambda>t.
           Inr (actual_budget p, t))
      else let (r, t) = uniform_int (jitter_lo p) (jitter_hi p) s; b = actual_budget p + r in
           bindE (ASSERT (b \<ge> 0) ''b >= b.zero()'' t) (\<lambda>t. Inr (b, t)))"

definition mark_completed :: "process \<Rightarrow> process" where
  "mark_completed p = p\<lparr>completed := True\<rparr>"

definition mark_uncompleted :: "process \<Rightarrow> process" where
  "mark_uncompleted p = p\<lparr>completed := False\<rparr>"

definition set_remaining_budget :: "milliseconds \<Rightarrow> proc_op" where
  "set_remaining_budget next_budget p s =
     bindE (ASSERT (next_budget > 0) ''next_budget > next_budget.zero()'' s) (\<lambda>t.
     bindE (ASSERT (next_budget < budget p) ''next_budget < budget'' t) (\<lambda>t.
     Inr (p\<lparr>actual_budget := next_budget\<rparr>, t)))"

definition reset_budget :: "process \<Rightarrow> process" where
  "reset_budget p = p\<lparr>actual_budget := budget p\<rparr>"

text \<open>The local parts of the callbacks; the flag says whether \<open>part.proc_exit_cb(*this)\<close> follows.\<close>

definition handle_end :: "process \<Rightarrow> process" where
  "handle_end p = p\<lparr>system_process_spawned := False\<rparr>"

definition proc_completed_cb :: "process \<Rightarrow> process" where
  "proc_completed_cb p = p\<lparr>demos_completed := True\<rparr>"

definition populated_cb :: "bool \<Rightarrow> process \<Rightarrow> bool \<times> process" where
  "populated_cb populated p =
     (if populated then (False, p)
      else if waiting_for_empty_cgroup p then (True, handle_end (p\<lparr>waiting_for_empty_cgroup := False\<rparr>))
      else (False, p))"

definition child_terminated_cb :: "process \<Rightarrow> os \<Rightarrow> (bool \<times> process \<times> os) result" where
  "child_terminated_cb p s =
     (let p = p\<lparr>child_active := False\<rparr> in
      bindE (read_populated_status (proc_cge p) s) (\<lambda>(populated, t).
      if populated then Inr (False, p\<lparr>waiting_for_empty_cgroup := True\<rparr>, t)
      else Inr (True, handle_end p, t)))"

text \<open>\<open>CgroupEvents::event_cb\<close> reads the status and passes it to \<open>populated_cb\<close>.\<close>

definition cgroup_event_cb :: "process \<Rightarrow> os \<Rightarrow> (bool \<times> process \<times> os) result" where
  "cgroup_event_cb p s =
     bindE (read_populated_status (proc_cge p) s) (\<lambda>(populated, t).
     case populated_cb populated p of (ended, q) \<Rightarrow> Inr (ended, q, t))"

subsection \<open>Invariant and lemmas\<close>

definition proc_ok :: "process \<Rightarrow> bool" where
  "proc_ok p \<longleftrightarrow> jitter_lo p \<le> 0 \<and> 0 \<le> jitter_hi p \<and> 0 \<le> budget p + jitter_lo p \<and>
     (system_process_spawned p \<longleftrightarrow> child_active p \<noteq> waiting_for_empty_cgroup p) \<and>
     \<not> (child_active p \<and> waiting_for_empty_cgroup p)"

lemma suspend_Inr [result_dests]: "suspend p s = Inr (q, t) \<longleftrightarrow>
    CHECK (Write (state_file (proc_cgf p)) ''FROZEN'') s = Inr t \<and>
    q = p\<lparr>proc_cgf := (proc_cgf p)\<lparr>frozen := True\<rparr>\<rparr>"
  by (auto simp: suspend_def bindE_Inr_iff freeze_Inr split: prod.splits)

lemma resume_Inr: "resume p s = Inr (q, t) \<Longrightarrow>
    q = p\<lparr>demos_completed := False, proc_cgf := (proc_cgf p)\<lparr>frozen := False\<rparr>\<rparr> \<and> os_extends s t \<and>
    (debug s \<longrightarrow> is_spawned p)"
  by (cases "demos_completed p")
    (auto simp: resume_def bindE_Inr_iff ASSERT_Inr_iff unfreeze_Inr dest!: CHECK_extends
      intro: os_extends_trans)

lemma kill_Inr: "kill p s = Inr (q, t) \<Longrightarrow>
    q = (if is_spawned p then p\<lparr>proc_cgf := (proc_cgf p)\<lparr>frozen := False\<rparr>, killed := True\<rparr> else p) \<and>
    os_extends s t"
  by (auto simp: kill_def bindE_Inr_iff freeze_Inr unfreeze_Inr split: prod.splits if_splits
      dest!: CHECK_extends cgroup_kill_all_extends intro: os_extends_trans)

lemma exec_Inr: "exec p s = Inr (q, t) \<Longrightarrow>
    q = p\<lparr>pid := fork_pid s (io_count s), system_process_spawned := True, killed := False,
          child_active := True\<rparr> \<and> os_extends s t"
  by (auto simp: exec_def cgroup_add_process_def bindE_Inr_iff Let_def dest!: CHECK_extends
      elim!: os_extends_trans)

lemma set_remaining_budget_Inr [result_dests]: "set_remaining_budget b p s = Inr (q, t) \<longleftrightarrow>
    t = s \<and> q = p\<lparr>actual_budget := b\<rparr> \<and> (debug s \<longrightarrow> 0 < b \<and> b < budget p)"
  by (auto simp: set_remaining_budget_def bindE_Inr_iff ASSERT_Inr_iff)

lemma get_actual_budget_extends: "get_actual_budget p s = Inr (b, t) \<Longrightarrow> os_extends s t"
  by (auto simp: get_actual_budget_def bindE_Inr_iff ASSERT_Inr_iff Let_def
      split: if_splits prod.splits dest: uniform_int_extends)

lemma read_populated_status_extends: "read_populated_status g s = Inr (b, t) \<Longrightarrow> os_extends s t"
  by (auto simp: read_populated_status_def bindE_Inr_iff dest: CHECK_extends)

lemma io_ok_suspend: "io_ok s \<Longrightarrow>
    \<exists>t. suspend p s = Inr (p\<lparr>proc_cgf := (proc_cgf p)\<lparr>frozen := True\<rparr>\<rparr>, t) \<and> os_extends s t"
  using io_ok_freeze[of s "proc_cgf p"] by (auto simp: suspend_def)

lemma io_ok_resume:
  assumes "io_ok s" and "is_spawned p"
  shows "\<exists>t. resume p s =
    Inr (p\<lparr>demos_completed := False, proc_cgf := (proc_cgf p)\<lparr>frozen := False\<rparr>\<rparr>, t) \<and> os_extends s t"
proof -
  obtain u where u: "CHECK Efd_write s = Inr u" "os_extends s u" using io_ok_CHECK[OF assms(1), of Efd_write] by auto
  have ok: "io_ok u" using u(2) assms(1) by (simp add: os_extends_io_ok)
  obtain v where v: "unfreeze (proc_cgf p) s = Inr ((proc_cgf p)\<lparr>frozen := False\<rparr>, v)" "os_extends s v"
    using io_ok_unfreeze[OF assms(1)] by blast
  obtain w where w: "unfreeze (proc_cgf p) u = Inr ((proc_cgf p)\<lparr>frozen := False\<rparr>, w)" "os_extends u w"
    using io_ok_unfreeze[OF ok] by blast
  show ?thesis
    using u v w assms(2) by (cases "demos_completed p") (auto simp: resume_def intro: os_extends_trans)
qed

lemma io_ok_kill: "io_ok s \<Longrightarrow> \<exists>q t. kill p s = Inr (q, t)"
proof -
  assume ok: "io_ok s"
  obtain u where u: "freeze (proc_cgf p) s = Inr ((proc_cgf p)\<lparr>frozen := True\<rparr>, u)" "os_extends s u"
    using io_ok_freeze[OF ok] by blast
  then have "io_ok u" using ok by (simp add: os_extends_io_ok)
  then obtain v where v: "cgroup_kill_all ((proc_cgf p)\<lparr>frozen := True\<rparr>) u = Inr v" "os_extends u v"
    using io_ok_kill_all by blast
  with \<open>io_ok u\<close> have "io_ok v" by (simp add: os_extends_io_ok)
  then obtain w where "unfreeze ((proc_cgf p)\<lparr>frozen := True\<rparr>) v = Inr ((proc_cgf p)\<lparr>frozen := True, frozen := False\<rparr>, w)"
    using io_ok_unfreeze by blast
  with u v show ?thesis by (simp add: kill_def)
qed

lemma get_actual_budget_total:
  assumes "proc_ok p" and "budget p \<noteq> actual_budget p \<longrightarrow> 0 < actual_budget p"
  shows "\<exists>b t. get_actual_budget p s = Inr (b, t) \<and> 0 \<le> b \<and> os_extends s t \<and>
    (if budget p = actual_budget p then budget p + jitter_lo p \<le> b \<and> b \<le> budget p + jitter_hi p
     else b = actual_budget p)"
proof (cases "budget p = actual_budget p")
  case True
  obtain r t where r: "uniform_int (jitter_lo p) (jitter_hi p) s = (r, t)" by fastforce
  with assms(1) have "jitter_lo p \<le> r \<and> r \<le> jitter_hi p"
    by (intro uniform_int_range) (auto simp: proc_ok_def)
  with True r assms(1) show ?thesis
    by (auto simp: get_actual_budget_def proc_ok_def dest: uniform_int_extends)
next
  case False
  with assms show ?thesis by (auto simp: get_actual_budget_def)
qed

lemma process_new_Inr:
  assumes "process_new name ge gf cmd wd b j rf hi s = Inr (p, t)"
  shows "argv p = cmd \<and> requested_frequency p = rf \<and> budget p = b \<and> actual_budget p = b \<and>
    jitter_lo p = (- j) sdiv 2 \<and> jitter_hi p = j - j sdiv 2 \<and> has_initialization p = hi \<and>
    frozen (proc_cgf p) \<and> \<not> completed p \<and> \<not> demos_completed p \<and> \<not> system_process_spawned p \<and>
    \<not> waiting_for_empty_cgroup p \<and> \<not> child_active p \<and> working_dir p = wd"
  using assms by (auto simp: process_new_def bindE_Inr_iff suspend_Inr split: prod.splits)

lemma process_new_ok:
  assumes "process_new name ge gf cmd wd b j rf hi s = Inr (p, t)" and "0 \<le> j" and "j \<le> 2 * b"
  shows "proc_ok p"
  using process_new_Inr[OF assms(1)] assms(2,3)
  by (auto simp: proc_ok_def signed_divide_int_def sgn_if)

subsection \<open>The life of a process\<close>

text \<open>
  After \<open>exec\<close> a process is acted on by its partition and by the watchers in any order; \<open>ends\<close>
  counts the calls of \<open>handle_end\<close>. A child watcher fires only while it is active.
\<close>

datatype proc_event =
    PKill | PSuspend | PResume | PCompleted | PMark bool | PBudget milliseconds | PReset_budget
  | PChild_terminated | PCgroup_event

fun proc_step :: "proc_event \<Rightarrow> process \<times> nat \<times> os \<Rightarrow> (process \<times> nat \<times> os) result" where
  "proc_step PKill (p, n, s) = bindE (kill p s) (\<lambda>(p, s). Inr (p, n, s))"
| "proc_step PSuspend (p, n, s) = bindE (suspend p s) (\<lambda>(p, s). Inr (p, n, s))"
| "proc_step PResume (p, n, s) = bindE (resume p s) (\<lambda>(p, s). Inr (p, n, s))"
| "proc_step PCompleted (p, n, s) = Inr (proc_completed_cb p, n, s)"
| "proc_step (PMark b) (p, n, s) = Inr ((if b then mark_completed p else mark_uncompleted p), n, s)"
| "proc_step (PBudget b) (p, n, s) = bindE (set_remaining_budget b p s) (\<lambda>(p, s). Inr (p, n, s))"
| "proc_step PReset_budget (p, n, s) = Inr (reset_budget p, n, s)"
| "proc_step PChild_terminated (p, n, s) =
     (if \<not> child_active p then Inr (p, n, s)
      else bindE (child_terminated_cb p s) (\<lambda>(e, p, s). Inr (p, if e then Suc n else n, s)))"
| "proc_step PCgroup_event (p, n, s) =
     bindE (cgroup_event_cb p s) (\<lambda>(e, p, s). Inr (p, if e then Suc n else n, s))"

definition life_ok :: "process \<times> nat \<times> os \<Rightarrow> bool" where
  "life_ok = (\<lambda>(p, n, s). proc_ok p \<and> n = (if is_spawned p then 0 else 1))"

lemma life_ok_step: "life_ok st \<Longrightarrow> proc_step ev st = Inr st' \<Longrightarrow> life_ok st'"
proof -
  assume ok: "life_ok st" and run: "proc_step ev st = Inr st'"
  obtain p n s where st: "st = (p, n, s)" by (cases st)
  from ok run show "life_ok st'"
    unfolding st
    by (cases ev)
      (auto simp: life_ok_def proc_ok_def is_spawned_def bindE_Inr_iff suspend_Inr set_remaining_budget_Inr
        proc_completed_cb_def mark_completed_def mark_uncompleted_def reset_budget_def
        child_terminated_cb_def cgroup_event_cb_def populated_cb_def handle_end_def Let_def
        split: if_splits prod.splits dest!: kill_Inr resume_Inr)
qed

interpretation life: event_machine proc_step life_ok
  by unfold_locales (rule life_ok_step)

text \<open>
  C29. From its start on, whatever the order in which a process is suspended, resumed, killed,
  completes, exits and its control group empties, its end is reported to the partition exactly
  once: never while the process or an orphan of it runs, and no second time after that.
\<close>

theorem process_end_reported_once:
  assumes "process_new name ge gf cmd wd b j rf hi s0 = Inr (p0, s1)" and "0 \<le> j" and "j \<le> 2 * b"
    and "exec p0 s1 = Inr (p1, s2)" and "foldE proc_step evs (p1, 0, s2) = Inr (p, n, s)"
  shows "n = (if is_spawned p then 0 else 1) \<and>
    (is_spawned p \<longleftrightarrow> child_active p \<or> waiting_for_empty_cgroup p)"
proof -
  from process_new_ok[OF assms(1-3)] process_new_Inr[OF assms(1)] exec_Inr[OF assms(4)]
  have "life_ok (p1, 0, s2)" by (auto simp: life_ok_def proc_ok_def is_spawned_def)
  from life.run_inv[OF this assms(5)] show ?thesis
    by (auto simp: life_ok_def proc_ok_def is_spawned_def split: if_splits)
qed

text \<open>
  C31. The budget that a process with jitter \<open>j\<close> gets for a window is never negative. It is at most half the jitter,
  rounded down, below the configured budget and at most half the jitter, rounded up, above it. A remaining
  budget that was stored is used as it is, until \<open>reset_budget\<close>.
\<close>

theorem actual_budget_bounds:
  assumes "process_new name ge gf cmd wd b j rf hi s0 = Inr (p, s1)" and "0 \<le> j" and "j \<le> 2 * b"
  shows "(\<exists>v t. get_actual_budget p s = Inr (v, t) \<and> 0 \<le> v \<and> b - j div 2 \<le> v \<and> v \<le> b + (j + 1) div 2) \<and>
    (\<forall>r. 0 < r \<longrightarrow> r < b \<longrightarrow>
       (\<exists>q. set_remaining_budget r p s = Inr (q, s) \<and> get_actual_budget q s = Inr (r, s) \<and>
            reset_budget q = p))"
proof -
  note new = process_new_Inr[OF assms(1)]
  have "\<exists>v t. get_actual_budget p s = Inr (v, t) \<and> 0 \<le> v \<and> b + jitter_lo p \<le> v \<and> v \<le> b + jitter_hi p"
    using get_actual_budget_total[OF process_new_ok[OF assms], of s] new by auto
  moreover have "jitter_lo p = - (j div 2)" "jitter_hi p = (j + 1) div 2"
    using new assms(2) by (auto simp: signed_divide_int_def sgn_if)
  ultimately have "\<exists>v t. get_actual_budget p s = Inr (v, t) \<and> 0 \<le> v \<and> b - j div 2 \<le> v \<and> v \<le> b + (j + 1) div 2"
    by fastforce
  moreover have "\<exists>q. set_remaining_budget r p s = Inr (q, s) \<and> get_actual_budget q s = Inr (r, s) \<and>
      reset_budget q = p" if "0 < r" "r < b" for r
    using that new by (simp add: set_remaining_budget_def get_actual_budget_def reset_budget_def)
  ultimately show ?thesis by blast
qed

text \<open>With an odd jitter the upper bound, half a millisecond more than half the jitter, is reached.\<close>

lemma odd_jitter_exceeds_half:
  "case process_new ''proc0'' ''/e'' ''/f'' ''true'' None 10 1 None False ((quiet_os True)\<lparr>rand_seq := (\<lambda>n. 1)\<rparr>) of
     Inl e \<Rightarrow> False
   | Inr (p, s) \<Rightarrow> (case get_actual_budget p s of Inl e \<Rightarrow> False | Inr (v, t) \<Rightarrow> v = 11)"
  by code_simp

text \<open>
  C32. Killing a process freezes its control group, signals every process the group lists and only
  then thaws it, so that no process of the group runs between the first and the last signal.
\<close>

theorem kill_order:
  assumes "kill p s = Inr (q, t)" and "is_spawned p"
  shows "rev (io_log t) = rev (io_log s) @ [Write (state_file (proc_cgf p)) ''FROZEN''] @
      map Kill (read_procs s (Suc (io_count s)) (cg_path (proc_cgf p))) @
      [Write (state_file (proc_cgf p)) ''THAWED''] \<and>
    killed q \<and> is_spawned q \<and> \<not> frozen (proc_cgf q)"
proof -
  from assms obtain u v where u: "CHECK (Write (state_file (proc_cgf p)) ''FROZEN'') s = Inr u"
    and v: "cgroup_kill_all ((proc_cgf p)\<lparr>frozen := True\<rparr>) u = Inr v"
    and t: "CHECK (Write (state_file (proc_cgf p)) ''THAWED'') v = Inr t"
    and q: "q = p\<lparr>proc_cgf := (proc_cgf p)\<lparr>frozen := False\<rparr>, killed := True\<rparr>"
    by (auto simp: kill_def bindE_Inr_iff freeze_Inr unfreeze_Inr split: prod.splits)
  from cgroup_kill_all_log[OF v] u t q assms(2) show ?thesis
    by (auto simp: CHECK_Inr_iff is_spawned_def)
qed

subsection \<open>A concrete process\<close>

definition demo_process :: "string \<Rightarrow> milliseconds \<Rightarrow> process" where
  "demo_process cmd b = \<lparr>argv = cmd, requested_frequency = None, jitter_lo = 0, jitter_hi = 0,
     child_active = True, proc_cge = \<lparr>cg_remove = True, cg_path = ''/e''\<rparr>,
     proc_cgf = \<lparr>cg_remove = True, cg_path = ''/f'', frozen = True\<rparr>, working_dir = None,
     budget = b, actual_budget = b, has_initialization = False, completed = False,
     demos_completed = False, system_process_spawned = True, waiting_for_empty_cgroup = False,
     killed = False, pid = 7\<rparr>"

lemmas proc_eval = process_new_def exec_def suspend_def freeze_def unfreeze_def events_new_def
  freezer_new_def cgroup_child_def cgroup_new_def create_dir_def syscall_def CHECK_def quiet_os_def
  evfd_new_def cgroup_add_process_def Let_def cgroup.defs

lemma demo_process_created:
  "\<exists>p s. process_new ''proc0'' ''/e'' ''/f'' ''true'' None 10 4 None False (quiet_os True) = Inr (p, s) \<and>
     (\<exists>q t. exec p s = Inr (q, t))"
  by (simp add: proc_eval)

lemma demo_process_ends:
  "\<exists>p s q t r. process_new ''proc0'' ''/e'' ''/f'' ''true'' None 10 4 None False (quiet_os True) = Inr (p, s) \<and>
     exec p s = Inr (q, t) \<and> foldE proc_step [PResume, PChild_terminated, PCgroup_event] (q, 0, t) = Inr r \<and>
     \<not> is_spawned (fst r)"
  by (simp add: proc_eval resume_def ASSERT_def is_spawned_def child_terminated_cb_def cgroup_event_cb_def
      read_populated_status_def populated_cb_def handle_end_def)

theorem process_end_reported_once_witness:
  "\<exists>p0 s1 p1 s2 p s. process_new ''proc0'' ''/e'' ''/f'' ''true'' None 10 4 None False (quiet_os True) = Inr (p0, s1) \<and>
     exec p0 s1 = Inr (p1, s2) \<and>
     foldE proc_step [PResume, PChild_terminated, PCgroup_event] (p1, 0, s2) = Inr (p, 1, s)"
proof -
  obtain p0 s1 p1 s2 p n s where new: "process_new ''proc0'' ''/e'' ''/f'' ''true'' None 10 4 None False (quiet_os True) = Inr (p0, s1)"
    and ex: "exec p0 s1 = Inr (p1, s2)"
    and run: "foldE proc_step [PResume, PChild_terminated, PCgroup_event] (p1, 0, s2) = Inr (p, n, s)"
    and "\<not> is_spawned p" using demo_process_ends by fastforce
  then have "n = 1" using process_end_reported_once[OF new _ _ ex run] by simp
  with new ex run show ?thesis by blast
qed

theorem actual_budget_bounds_witness:
  "\<exists>p s. process_new ''proc0'' ''/e'' ''/f'' ''true'' None 10 4 None False (quiet_os True) = Inr (p, s) \<and>
     (\<exists>v t. get_actual_budget p s = Inr (v, t) \<and> 8 \<le> v \<and> v \<le> 12)"
proof -
  obtain p s where new: "process_new ''proc0'' ''/e'' ''/f'' ''true'' None 10 4 None False (quiet_os True) = Inr (p, s)"
    using demo_process_created by blast
  from actual_budget_bounds[OF new, of s] obtain v t where
    "get_actual_budget p s = Inr (v, t)" "10 - 4 div 2 \<le> v" "v \<le> 10 + (4 + 1) div 2" by auto
  with new show ?thesis by (intro exI[of _ p] exI[of _ s] conjI exI[of _ v] exI[of _ t]) auto
qed

theorem kill_order_witness:
  "\<exists>q t. kill (demo_process ''true'' 5) (quiet_os True) = Inr (q, t) \<and> killed q \<and>
     hd (io_log t) = Write ''/f/freezer.state'' ''THAWED''"
proof -
  obtain q t where run: "kill (demo_process ''true'' 5) (quiet_os True) = Inr (q, t)"
    using io_ok_kill[of "quiet_os True" "demo_process ''true'' 5"] by auto
  have "is_spawned (demo_process ''true'' 5)" by (simp add: demo_process_def is_spawned_def)
  from kill_order[OF run this] have
    log: "rev (io_log t) = (rev (io_log (quiet_os True)) @ [Write (state_file (proc_cgf (demo_process ''true'' 5))) ''FROZEN''] @
      map Kill (read_procs (quiet_os True) (Suc (io_count (quiet_os True))) (cg_path (proc_cgf (demo_process ''true'' 5))))) @
      [Write (state_file (proc_cgf (demo_process ''true'' 5))) ''THAWED'']" and "killed q" by auto
  from arg_cong[OF log, of last] have "last (rev (io_log t)) = Write ''/f/freezer.state'' ''THAWED''"
    by (simp only: last_snoc) (simp add: demo_process_def state_file_def)
  moreover have "rev (io_log t) \<noteq> []" using log by simp
  ultimately have "hd (io_log t) = Write ''/f/freezer.state'' ''THAWED''" by (simp add: last_rev)
  with run \<open>killed q\<close> show ?thesis by blast
qed

end
