(* ===== verification/Partition.thy ===== *)
theory Partition
  imports Proc
begin

text \<open>
  Partitions (\<open>src/src/partition.cpp\<close>, \<open>src/src/partition.hpp\<close>). The iterator \<open>current_proc\<close> is an
  index into the list of processes; an index at or past the end stands for the null and the end
  iterator, which must be neither dereferenced nor incremented. The two \<open>std::function\<close> members
  are datatypes with one constructor per function the program stores there.
\<close>

datatype completion_cb =
    Cb_null
  | Cb_disconnected
  | Cb_slice nat nat
  | Cb_init

datatype exit_cb =
    Exit_null
  | Exit_process
  | Exit_process_init

record partition =
  part_name :: string
  current_proc :: nat
  part_cgc :: cgroup_cpuset
  proc_count :: nat
  part_empty :: bool
  part_completed_cb :: completion_cb
  part_exit_cb :: exit_cb
  part_cgf :: cgroup
  part_cge :: cgroup
  processes :: "process list"

definition partition_new :: "string \<Rightarrow> string \<Rightarrow> string \<Rightarrow> string \<Rightarrow> os \<Rightarrow> (partition \<times> os) result" where
  "partition_new freezer_parent cpuset_parent events_parent name s =
     bindE (cpuset_new cpuset_parent name s) (\<lambda>(gc, s).
     bindE (cgroup_child freezer_parent name s) (\<lambda>(gf, s).
     bindE (cgroup_child events_parent name s) (\<lambda>(ge, s).
     Inr (\<lparr>part_name = name, current_proc = 0, part_cgc = gc, proc_count = 0, part_empty = True,
           part_completed_cb = Cb_null, part_exit_cb = Exit_null, part_cgf = gf, part_cge = ge,
           processes = []\<rparr>, s))))"

definition add_process ::
  "string \<Rightarrow> string option \<Rightarrow> milliseconds \<Rightarrow> milliseconds \<Rightarrow> cpu_freq option \<Rightarrow> bool \<Rightarrow>
   partition \<Rightarrow> os \<Rightarrow> (partition \<times> os) result" where
  "add_process cmd wd b jitter req_freq has_init p s =
     bindE (process_new (''proc'' @ nat_to_dec (proc_count p)) (cg_path (part_cge p)) (cg_path (part_cgf p))
              cmd wd b jitter req_freq has_init s) (\<lambda>(q, t).
     Inr (p\<lparr>processes := processes p @ [q], proc_count := Suc (proc_count p), current_proc := 0,
            part_empty := False\<rparr>, t))"

definition create_processes :: "partition \<Rightarrow> os \<Rightarrow> (partition \<times> os) result" where
  "create_processes p s =
     bindE (mapE (\<lambda>q s. bindE (exec q s) (\<lambda>(q, s).
              bindE (cgroup_add_process (part_cgc p) (pid q) s) (\<lambda>s. Inr (q, s)))) (processes p) s)
       (\<lambda>(qs, s). Inr (p\<lparr>processes := qs\<rparr>, s))"

definition part_kill_all :: "partition \<Rightarrow> os \<Rightarrow> (partition \<times> os) result" where
  "part_kill_all p s = bindE (mapE kill (processes p) s) (\<lambda>(qs, s). Inr (p\<lparr>processes := qs\<rparr>, s))"

definition clear_completed_flag :: "partition \<Rightarrow> partition" where
  "clear_completed_flag p = p\<lparr>processes := map mark_uncompleted (processes p)\<rparr>"

definition reset :: "bool \<Rightarrow> cpu_set \<Rightarrow> completion_cb \<Rightarrow> partition \<Rightarrow> os \<Rightarrow> (partition \<times> os) result" where
  "reset move_to_first_proc cpus cb p s =
     bindE (ASSERT (cb \<noteq> Cb_null) ''process_completion_cb'' s) (\<lambda>s.
     let p = clear_completed_flag p in
     bindE (set_cpus cpus (part_cgc p) s) (\<lambda>(gc, s).
     let p = p\<lparr>part_cgc := gc, part_completed_cb := cb\<rparr> in
     Inr (if move_to_first_proc then p\<lparr>current_proc := 0\<rparr> else p, s)))"

definition disconnect :: "partition \<Rightarrow> partition" where
  "disconnect p = p\<lparr>part_completed_cb := Cb_disconnected\<rparr>"

text \<open>\<open>if (++current_proc == processes.end()) current_proc = processes.begin()\<close>.\<close>

definition advance_proc :: "partition \<Rightarrow> partition" where
  "advance_proc p = p\<lparr>current_proc := next_index (current_proc p) (length (processes p))\<rparr>"

definition move_to_next_proc :: "partition \<Rightarrow> partition result" where
  "move_to_next_proc p =
     (if current_proc p < length (processes p) then Inr (advance_proc p)
      else Inl (Undefined_behaviour ''increment of an end iterator''))"

fun seek_loop :: "nat \<Rightarrow> partition \<Rightarrow> (nat option \<times> partition) result" where
  "seek_loop 0 p = bindE (move_to_next_proc p) (\<lambda>p. Inr (None, p))"
| "seek_loop (Suc k) p =
     (if current_proc p \<ge> length (processes p)
      then Inl (Undefined_behaviour ''dereference of an end iterator'')
      else if is_pending (processes p ! current_proc p) then Inr (Some (current_proc p), p)
      else bindE (move_to_next_proc p) (seek_loop k))"

definition seek_pending_process :: "partition \<Rightarrow> (nat option \<times> partition) result" where
  "seek_pending_process p = seek_loop (length (processes p)) p"

definition set_process_exit_cb :: "exit_cb \<Rightarrow> partition \<Rightarrow> partition" where
  "set_process_exit_cb cb p = p\<lparr>part_exit_cb := cb\<rparr>"

text \<open>\<open>proc_exit_cb\<close> up to the call of \<open>_proc_exit_cb\<close>.\<close>

definition part_proc_exit :: "partition \<Rightarrow> partition" where
  "part_proc_exit p = p\<lparr>part_empty := (\<forall>q \<in> set (processes p). \<not> is_spawned q)\<rparr>"

definition upd_proc :: "nat \<Rightarrow> (process \<Rightarrow> process) \<Rightarrow> partition \<Rightarrow> partition" where
  "upd_proc i f p = p\<lparr>processes := (processes p)[i := f (processes p ! i)]\<rparr>"

text \<open>An operation of the \<open>i\<close>-th process of the partition.\<close>

definition on_proc :: "nat \<Rightarrow> proc_op \<Rightarrow> partition \<Rightarrow> os \<Rightarrow> (partition \<times> os) result" where
  "on_proc i f p s =
     (if i < length (processes p)
      then bindE (f (processes p ! i) s) (\<lambda>(q, t). Inr (p\<lparr>processes := (processes p)[i := q]\<rparr>, t))
      else Inl (Undefined_behaviour ''dangling Process pointer''))"

subsection \<open>The process queue\<close>

interpretation proc_queue: cyclic_iterator current_proc "\<lambda>p. length (processes p)" advance_proc
  by unfold_locales (simp_all add: advance_proc_def)

lemma advance_proc_simps [simp]:
  "processes (advance_proc p) = processes p"
  "part_name (advance_proc p) = part_name p" "part_cgc (advance_proc p) = part_cgc p"
  "part_completed_cb (advance_proc p) = part_completed_cb p"
  "part_exit_cb (advance_proc p) = part_exit_cb p" "part_empty (advance_proc p) = part_empty p"
  by (simp_all add: advance_proc_def)

lemma advance_proc_upd: "advance_proc (p\<lparr>current_proc := i\<rparr>) =
    p\<lparr>current_proc := next_index i (length (processes p))\<rparr>"
  by (simp add: advance_proc_def)

lemma processes_funpow [simp]: "processes ((advance_proc ^^ k) p) = processes p"
  by (induction k) auto

text \<open>The loop: it stops at the first pending process met on the way round.\<close>

lemma seek_loop_spec:
  assumes "current_proc p < length (processes p)"
  shows "seek_loop k p =
    (case find (\<lambda>d. is_pending (processes p ! ((current_proc p + d) mod length (processes p)))) [0..<k] of
       Some d \<Rightarrow> Inr (Some ((current_proc p + d) mod length (processes p)), (advance_proc ^^ d) p)
     | None \<Rightarrow> Inr (None, (advance_proc ^^ Suc k) p))"
  using assms
proof (induction k arbitrary: p)
  case 0
  then show ?case by (simp add: move_to_next_proc_def)
next
  case (Suc k)
  let ?n = "length (processes p)"
  let ?P = "\<lambda>p d. is_pending (processes p ! ((current_proc p + d) mod length (processes p)))"
  show ?case
  proof (cases "is_pending (processes p ! current_proc p)")
    case True
    with Suc.prems show ?thesis by (simp add: upt_conv_Cons del: upt_Suc)
  next
    case False
    have cur: "current_proc (advance_proc p) = Suc (current_proc p) mod ?n"
      using Suc.prems by (simp add: proc_queue.pos_advance next_index_mod)
    have lt: "current_proc (advance_proc p) < length (processes (advance_proc p))"
      using Suc.prems by (simp add: proc_queue.pos_advance)
    have idx: "(current_proc (advance_proc p) + d) mod ?n = (current_proc p + Suc d) mod ?n" for d
      by (simp add: cur mod_add_left_eq)
    have up: "[0..<Suc k] = 0 # map Suc [0..<k]" by (simp add: upt_conv_Cons map_Suc_upt del: upt_Suc)
    have map_find: "find (?P p) (map Suc ds) = map_option Suc (find (?P (advance_proc p)) ds)" for ds
      by (induction ds) (simp_all add: idx)
    have find: "find (?P p) [0..<Suc k] = map_option Suc (find (?P (advance_proc p)) [0..<k])"
      using False Suc.prems by (simp only: up find.simps) (simp add: map_find)
    have step: "seek_loop (Suc k) p = seek_loop k (advance_proc p)"
      using False Suc.prems by (simp add: move_to_next_proc_def)
    show ?thesis
      unfolding step find Suc.IH[OF lt]
      by (cases "find (?P (advance_proc p)) [0..<k]") (simp_all add: idx funpow_swap1)
  qed
qed

lemma seek_pending_Inr:
  assumes "seek_pending_process p = Inr (r, q)"
  shows "(\<forall>i. r = Some i \<longrightarrow> i < length (processes p) \<and> is_pending (processes p ! i) \<and> current_proc q = i) \<and>
    q = p\<lparr>current_proc := current_proc q\<rparr> \<and>
    (current_proc p < length (processes p) \<longrightarrow> current_proc q < length (processes p))"
proof -
  have "seek_loop k p = Inr (r, q) \<Longrightarrow>
    (\<forall>i. r = Some i \<longrightarrow> i < length (processes p) \<and> is_pending (processes p ! i) \<and> current_proc q = i) \<and>
    q = p\<lparr>current_proc := current_proc q\<rparr> \<and>
    (current_proc p < length (processes p) \<longrightarrow> current_proc q < length (processes p))" for k
  proof (induction k arbitrary: p)
    case 0
    then show ?case by (auto simp: bindE_Inr_iff move_to_next_proc_def advance_proc_def split: if_splits)
  next
    case (Suc k)
    show ?case
    proof (cases "is_pending (processes p ! current_proc p)")
      case True
      with Suc.prems show ?thesis by (auto split: if_splits)
    next
      case False
      with Suc.prems have lt: "current_proc p < length (processes p)"
        and run: "seek_loop k (advance_proc p) = Inr (r, q)"
        by (auto simp: bindE_Inr_iff move_to_next_proc_def split: if_splits)
      from Suc.IH[OF run] lt show ?thesis by (auto simp: advance_proc_def)
    qed
  qed
  from this[OF assms[unfolded seek_pending_process_def]] show ?thesis .
qed

lemma seek_pending_total:
  "current_proc p < length (processes p) \<Longrightarrow> \<exists>r q. seek_pending_process p = Inr (r, q)"
  by (simp add: seek_pending_process_def seek_loop_spec split: option.splits)

lemma rotate_upt: "rotate c [0..<n] = map (\<lambda>d. (c + d) mod n) [0..<n]"
  by (rule nth_equalityI) (auto simp: nth_rotate)

lemma find_map: "find P (map f xs) = map_option f (find (P \<circ> f) xs)"
  by (induction xs) auto

text \<open>The order in which the queue offers its processes: cyclic, from the current one.\<close>

definition queue_order :: "partition \<Rightarrow> nat list" where
  "queue_order p = rotate (current_proc p) [0..<length (processes p)]"

lemma set_queue_order [simp]: "set (queue_order p) = {..<length (processes p)}"
  by (auto simp: queue_order_def)

lemma distinct_queue_order [simp]: "distinct (queue_order p)"
  by (simp add: queue_order_def)

lemma advance_funpow_eq:
  assumes "current_proc p < length (processes p)"
  shows "(advance_proc ^^ k) p = p\<lparr>current_proc := (current_proc p + k) mod length (processes p)\<rparr>"
proof (induction k)
  case 0
  show ?case using assms by simp
next
  case (Suc k)
  have "(current_proc p + k) mod length (processes p) < length (processes p)"
    using assms by (intro mod_less_divisor) linarith
  then show ?case by (simp add: Suc advance_proc_upd next_index_mod mod_Suc_eq)
qed

lemma seek_pending_eq:
  assumes "current_proc p < length (processes p)"
  shows "seek_pending_process p =
    (let r = find (\<lambda>i. is_pending (processes p ! i)) (queue_order p) in
     Inr (r, p\<lparr>current_proc := (case r of Some i \<Rightarrow> i | None \<Rightarrow> Suc (current_proc p) mod length (processes p))\<rparr>))"
proof -
  let ?n = "length (processes p)" and ?c = "current_proc p"
  have "Suc (?c + ?n) mod ?n = Suc ?c mod ?n" by (metis add_Suc mod_add_self2)
  then show ?thesis
    using assms
    by (auto simp: seek_pending_process_def seek_loop_spec queue_order_def rotate_upt find_map comp_def Let_def
        advance_funpow_eq simp del: funpow.simps split: option.splits)
qed

text \<open>
  What a partition executes in a window when every process runs to its end: take the process that
  \<open>seek_pending_process\<close> offers, mark it completed, and go on.
\<close>

fun drain :: "nat \<Rightarrow> partition \<Rightarrow> (nat list \<times> partition) result" where
  "drain 0 p = Inr ([], p)"
| "drain (Suc k) p =
     bindE (seek_pending_process p) (\<lambda>(r, p).
     case r of None \<Rightarrow> Inr ([], p)
     | Some i \<Rightarrow> bindE (drain k (upd_proc i mark_completed p)) (\<lambda>(is, p). Inr (i # is, p)))"

lemma queue_order_split:
  assumes "queue_order p = xs @ i # ys" and "current_proc p < length (processes p)"
  shows "queue_order (p\<lparr>current_proc := i\<rparr>) = i # ys @ xs"
proof -
  let ?n = "length (processes p)" and ?c = "current_proc p"
  have len: "length (xs @ i # ys) = ?n" using assms(1) by (metis length_rotate length_upt minus_nat.diff_0 queue_order_def)
  then have "length xs < ?n" by simp
  then have "(xs @ i # ys) ! length xs = (?c + length xs) mod ?n"
    unfolding assms(1)[symmetric] by (simp add: queue_order_def rotate_upt)
  then have i: "i = (?c + length xs) mod ?n" by simp
  have "rotate i [0..<?n] = rotate (length xs + ?c) [0..<?n]"
    using rotate_conv_mod[of "length xs + ?c" "[0..<?n]"] by (simp add: i add.commute)
  also have "\<dots> = rotate (length xs) (xs @ i # ys)"
    by (simp add: rotate_rotate flip: assms(1)[unfolded queue_order_def])
  also have "\<dots> = i # ys @ xs" by (simp add: rotate_append)
  finally show ?thesis by (simp add: queue_order_def)
qed

lemma find_split:
  "find P xs = Some x \<Longrightarrow> \<exists>as bs. xs = as @ x # bs \<and> P x \<and> (\<forall>a \<in> set as. \<not> P a)"
proof (induction xs)
  case (Cons a xs)
  show ?case
  proof (cases "P a")
    case True
    with Cons.prems show ?thesis by (auto intro: exI[of _ "[]"])
  next
    case False
    with Cons obtain as bs where "xs = as @ x # bs \<and> P x \<and> (\<forall>b \<in> set as. \<not> P b)" by auto
    with False show ?thesis by (intro exI[of _ "a # as"] exI[of _ bs]) auto
  qed
qed simp

lemma drain_order:
  assumes "current_proc p < length (processes p)"
    and "length (filter (\<lambda>i. is_pending (processes p ! i)) (queue_order p)) \<le> k"
  shows "\<exists>q. drain k p = Inr (filter (\<lambda>i. is_pending (processes p ! i)) (queue_order p), q) \<and>
    length (processes q) = length (processes p)"
  using assms
proof (induction k arbitrary: p)
  case 0
  then show ?case by simp
next
  case (Suc k)
  let ?P = "\<lambda>i. is_pending (processes p ! i)"
  show ?case
  proof (cases "find ?P (queue_order p)")
    case None
    then have "filter ?P (queue_order p) = []" by (auto simp: find_None_iff filter_empty_conv)
    with None Suc.prems show ?thesis by (simp add: seek_pending_eq)
  next
    case (Some i)
    from find_split[OF Some] obtain xs ys where split: "queue_order p = xs @ i # ys" and i: "?P i"
      and xs: "\<forall>a \<in> set xs. \<not> ?P a" by (elim exE conjE)
    let ?q = "upd_proc i mark_completed (p\<lparr>current_proc := i\<rparr>)"
    let ?Q = "\<lambda>j. is_pending (processes ?q ! j)"
    have "i \<in> set (queue_order p)" by (simp add: split)
    then have lt: "i < length (processes p)" by simp
    have order: "queue_order ?q = i # ys @ xs"
      using queue_order_split[OF split Suc.prems(1)] by (simp add: queue_order_def upd_proc_def)
    have dist: "distinct (xs @ i # ys)" using distinct_queue_order[of p] by (simp only: split)
    have Q: "?Q j = (j \<noteq> i \<and> ?P j)" for j
      using lt by (auto simp: upd_proc_def mark_completed_def is_pending_def is_spawned_def nth_list_update)
    have notin: "i \<notin> set ys" using dist by simp
    have ys: "filter ?Q ys = filter ?P ys"
    proof (rule filter_cong)
      fix j assume "j \<in> set ys"
      with notin show "?Q j = ?P j" unfolding Q by blast
    qed simp
    have none: "filter ?Q xs = []" "filter ?P xs = []" "\<not> ?Q i"
      using xs by (auto simp only: Q filter_empty_conv)
    have filt: "filter ?Q (queue_order ?q) = filter ?P ys" "filter ?P (queue_order p) = i # filter ?P ys"
      unfolding order split by (simp_all only: filter.simps filter_append ys none i if_True if_False append_Nil append_Nil2)
    have "current_proc ?q < length (processes ?q)" using lt by (simp add: upd_proc_def)
    from Suc.IH[OF this] Suc.prems(2) obtain q where
      "drain k ?q = Inr (filter ?P ys, q)" "length (processes q) = length (processes ?q)"
      by (auto simp: filt simp del: set_queue_order)
    with Some Suc.prems(1) filt(2) show ?thesis by (auto simp: seek_pending_eq upd_proc_def)
  qed
qed

subsection \<open>Invariant\<close>

definition part_ok :: "partition \<Rightarrow> bool" where
  "part_ok p \<longleftrightarrow> current_proc p < length (processes p) \<and> (\<forall>q \<in> set (processes p). proc_ok q) \<and>
     (part_empty p \<longrightarrow> (\<forall>q \<in> set (processes p). \<not> is_spawned q))"

text \<open>The processes of a partition that the freezer lets run.\<close>

definition thawed :: "partition \<Rightarrow> nat set" where
  "thawed p = {i. i < length (processes p) \<and> \<not> frozen (proc_cgf (processes p ! i))}"

lemma upd_proc_simps [simp]:
  "length (processes (upd_proc i f p)) = length (processes p)"
  "current_proc (upd_proc i f p) = current_proc p" "part_cgc (upd_proc i f p) = part_cgc p"
  "part_completed_cb (upd_proc i f p) = part_completed_cb p"
  "part_exit_cb (upd_proc i f p) = part_exit_cb p" "part_empty (upd_proc i f p) = part_empty p"
  "part_name (upd_proc i f p) = part_name p"
  by (simp_all add: upd_proc_def)

lemma upd_proc_nth: "j < length (processes p) \<Longrightarrow>
    processes (upd_proc i f p) ! j = (if i = j then f (processes p ! j) else processes p ! j)"
  by (auto simp: upd_proc_def)

lemma thawed_upd_proc:
  assumes "i < length (processes p)"
  shows "thawed (upd_proc i f p) =
    (if frozen (proc_cgf (f (processes p ! i))) then thawed p - {i} else insert i (thawed p))"
  using assms by (auto simp: thawed_def upd_proc_nth split: if_splits)

lemma part_ok_upd_proc:
  assumes "part_ok p" and "i < length (processes p)"
    and "proc_ok (processes p ! i) \<Longrightarrow> proc_ok (f (processes p ! i))"
    and "is_spawned (f (processes p ! i)) \<Longrightarrow> is_spawned (processes p ! i)"
  shows "part_ok (upd_proc i f p)"
proof -
  have "proc_ok q \<and> (part_empty p \<longrightarrow> \<not> is_spawned q)" if "q \<in> set (processes (upd_proc i f p))" for q
  proof -
    from that have "q = f (processes p ! i) \<or> q \<in> set (processes p)"
      using set_update_subset_insert[of "processes p" i] by (auto simp: upd_proc_def)
    moreover have "processes p ! i \<in> set (processes p)" using assms(2) by simp
    ultimately show ?thesis using assms by (auto simp: part_ok_def)
  qed
  with assms(1) show ?thesis by (auto simp: part_ok_def)
qed

lemma on_proc_Inr:
  assumes "on_proc i f p s = Inr (p', t)"
  obtains q where "i < length (processes p)" and "f (processes p ! i) s = Inr (q, t)"
    and "p' = upd_proc i (\<lambda>_. q) p"
  using assms by (auto simp: on_proc_def bindE_Inr_iff upd_proc_def split: if_splits prod.splits)

lemma clear_completed_simps [simp]:
  "length (processes (clear_completed_flag p)) = length (processes p)"
  "current_proc (clear_completed_flag p) = current_proc p"
  "thawed (clear_completed_flag p) = thawed p" "part_ok (clear_completed_flag p) = part_ok p"
  "part_cgc (clear_completed_flag p) = part_cgc p"
  by (auto simp: clear_completed_flag_def thawed_def part_ok_def mark_uncompleted_def proc_ok_def is_spawned_def)

text \<open>
  What executing a window never changes of a process and of a partition: everything that concerns
  the life of the system processes.
\<close>

type_synonym proc_config = "int \<times> milliseconds \<times> bool \<times> bool \<times> bool \<times> bool"

definition proc_conf :: "process \<Rightarrow> proc_config" where
  "proc_conf q = (pid q, budget q, has_initialization q, system_process_spawned q, child_active q,
     waiting_for_empty_cgroup q)"

type_synonym part_config = "proc_config list \<times> exit_cb \<times> bool"

definition part_conf :: "partition \<Rightarrow> part_config" where
  "part_conf p = (map proc_conf (processes p), part_exit_cb p, part_empty p)"

lemma proc_conf_ops [simp]:
  "proc_conf (mark_completed q) = proc_conf q" "proc_conf (mark_uncompleted q) = proc_conf q"
  "proc_conf (reset_budget q) = proc_conf q" "proc_conf (q\<lparr>proc_cgf := g\<rparr>) = proc_conf q"
  "proc_conf (q\<lparr>actual_budget := b\<rparr>) = proc_conf q" "proc_conf (q\<lparr>demos_completed := d\<rparr>) = proc_conf q"
  "proc_conf (q\<lparr>completed := d\<rparr>) = proc_conf q"
  by (simp_all add: proc_conf_def mark_completed_def mark_uncompleted_def reset_budget_def)

lemma part_conf_ops [simp]:
  "part_conf (p\<lparr>current_proc := n\<rparr>) = part_conf p" "part_conf (p\<lparr>part_cgc := g\<rparr>) = part_conf p"
  "part_conf (p\<lparr>part_completed_cb := cb\<rparr>) = part_conf p" "part_conf (clear_completed_flag p) = part_conf p"
  "part_conf (disconnect p) = part_conf p"
  by (simp_all add: part_conf_def clear_completed_flag_def disconnect_def)

lemma part_conf_upd_proc [simp]:
  "proc_conf (f (processes p ! i)) = proc_conf (processes p ! i) \<Longrightarrow> part_conf (upd_proc i f p) = part_conf p"
  by (cases "i < length (processes p)")
    (simp_all add: part_conf_def upd_proc_def map_update list_update_same_conv list_update_beyond)

lemma part_conf_dest:
  assumes "part_conf p' = part_conf p"
  shows "length (processes p') = length (processes p)" "part_exit_cb p' = part_exit_cb p"
    "part_empty p' = part_empty p" "i < length (processes p) \<Longrightarrow> proc_conf (processes p' ! i) = proc_conf (processes p ! i)"
proof -
  have m: "map proc_conf (processes p') = map proc_conf (processes p)" using assms by (simp add: part_conf_def)
  from map_eq_imp_length_eq[OF m] show l: "length (processes p') = length (processes p)" .
  show "part_exit_cb p' = part_exit_cb p" "part_empty p' = part_empty p" using assms by (simp_all add: part_conf_def)
  assume "i < length (processes p)"
  with arg_cong[OF m, of "\<lambda>xs. xs ! i"] l show "proc_conf (processes p' ! i) = proc_conf (processes p ! i)" by simp
qed

lemma reset_Inr:
  assumes "reset first cpus cb p s = Inr (q, t)"
  obtains g where "q = (clear_completed_flag p)\<lparr>part_cgc := g, part_completed_cb := cb,
      current_proc := if first then 0 else current_proc p\<rparr>" and
    "current_cpus g = cpus" and "os_extends s t"
proof -
  from assms obtain g where "set_cpus cpus (part_cgc (clear_completed_flag p)) s = Inr (g, t)"
    and "q = (clear_completed_flag p)\<lparr>part_cgc := g, part_completed_cb := cb,
      current_proc := if first then 0 else current_proc p\<rparr>"
    by (auto simp: reset_def bindE_Inr_iff Let_def ASSERT_Inr_iff clear_completed_flag_def split: prod.splits)
  then show ?thesis by (intro that) (auto dest: set_cpus_current set_cpus_extends)
qed

lemma part_ok_update [simp]:
  "part_ok (p\<lparr>part_cgc := g\<rparr>) = part_ok p" "part_ok (p\<lparr>part_completed_cb := cb\<rparr>) = part_ok p"
  "thawed (p\<lparr>part_cgc := g\<rparr>) = thawed p" "thawed (p\<lparr>part_completed_cb := cb\<rparr>) = thawed p"
  "thawed (p\<lparr>current_proc := n\<rparr>) = thawed p" "thawed (p\<lparr>part_exit_cb := ex\<rparr>) = thawed p"
  "part_ok (p\<lparr>part_exit_cb := ex\<rparr>) = part_ok p"
  by (simp_all add: part_ok_def thawed_def)

lemma part_ok_current: "part_ok p \<Longrightarrow> n < length (processes p) \<Longrightarrow> part_ok (p\<lparr>current_proc := n\<rparr>)"
  by (simp add: part_ok_def)

lemma part_ok_nonempty: "part_ok p \<Longrightarrow> 0 < length (processes p)"
  by (auto simp: part_ok_def)

lemma reset_ok:
  assumes "reset first cpus cb p s = Inr (q, t)" and "part_ok p"
  shows "part_ok q \<and> thawed q = thawed p \<and> length (processes q) = length (processes p) \<and>
    part_conf q = part_conf p"
proof -
  from reset_Inr[OF assms(1)] obtain g where q: "q = (clear_completed_flag p)\<lparr>part_cgc := g,
      part_completed_cb := cb, current_proc := if first then 0 else current_proc p\<rparr>" by blast
  have "current_proc p < length (processes p)" using assms(2) by (simp add: part_ok_def)
  then have "part_ok q" using assms(2) unfolding q by (intro part_ok_current) auto
  then show ?thesis by (simp add: q)
qed

lemma seek_ok:
  assumes "seek_pending_process p = Inr (r, q)" and "part_ok p"
  shows "part_ok q \<and> thawed q = thawed p \<and> processes q = processes p \<and> part_cgc q = part_cgc p \<and>
    part_completed_cb q = part_completed_cb p \<and> part_conf q = part_conf p"
proof -
  have q: "q = p\<lparr>current_proc := current_proc q\<rparr>" and lt: "current_proc q < length (processes p)"
    using seek_pending_Inr[OF assms(1)] assms(2) by (auto simp: part_ok_def)
  have "part_ok (p\<lparr>current_proc := current_proc q\<rparr>)" by (rule part_ok_current[OF assms(2) lt])
  moreover have "thawed (p\<lparr>current_proc := current_proc q\<rparr>) = thawed p" by simp
  moreover have "processes q = processes p \<and> part_cgc q = part_cgc p \<and>
    part_completed_cb q = part_completed_cb p \<and> part_conf q = part_conf p"
    by (subst (1 2 3 4) q) simp
  ultimately show ?thesis using q by metis
qed

subsection \<open>Properties\<close>

text \<open>
  C28. \<open>seek_pending_process\<close> is a round robin: it returns the first pending process in cyclic
  order from the current one and stays there; when no process is pending it returns none and
  leaves the iterator one past where it was, so that the next window goes on round the queue.
\<close>

theorem seek_pending_round_robin:
  assumes "current_proc p < length (processes p)"
  shows "seek_pending_process p =
    (let n = length (processes p);
         r = find (\<lambda>i. is_pending (processes p ! i)) (rotate (current_proc p) [0..<n])
     in Inr (r, p\<lparr>current_proc := (case r of Some i \<Rightarrow> i | None \<Rightarrow> Suc (current_proc p) mod n)\<rparr>))"
  using seek_pending_eq[OF assms] by (simp add: Let_def queue_order_def)

text \<open>
  C27. Whatever process a window starts from, a partition that is given enough time executes each
  of its pending processes exactly once, in cyclic order from the current one, and no other.
\<close>

theorem partition_runs_each_process_once:
  assumes "current_proc p < length (processes p)"
  shows "\<exists>order q. drain (length (processes p)) p = Inr (order, q) \<and> distinct order \<and>
    set order = {i. i < length (processes p) \<and> is_pending (processes p ! i)} \<and>
    subseq order (rotate (current_proc p) [0..<length (processes p)])"
proof -
  let ?order = "filter (\<lambda>i. is_pending (processes p ! i)) (queue_order p)"
  have "length ?order \<le> length (queue_order p)" by (rule length_filter_le)
  then have "length ?order \<le> length (processes p)" by (simp add: queue_order_def)
  from drain_order[OF assms this] obtain q where "drain (length (processes p)) p = Inr (?order, q)" by auto
  moreover have "subseq ?order (queue_order p)" by (rule subseq_filter_left)
  ultimately show ?thesis by (intro exI[of _ ?order] exI[of _ q]) (auto simp: queue_order_def)
qed

text \<open>
  Resetting a partition for a new owner makes every spawned process pending again, installs the
  owner's CPU set and completion callback, and rewinds the queue exactly when asked to: a
  best-effort partition continues where it was.
\<close>

lemma reset_prepares_partition:
  assumes "reset first cpus cb p s = Inr (q, t)"
  shows "current_cpus (part_cgc q) = cpus \<and> part_completed_cb q = cb \<and>
    current_proc q = (if first then 0 else current_proc p) \<and>
    (\<forall>i < length (processes p). is_pending (processes q ! i) = is_spawned (processes p ! i))"
  using assms by (rule reset_Inr)
    (auto simp: clear_completed_flag_def is_pending_def is_spawned_def mark_uncompleted_def)

text \<open>A partition of two processes, for concrete runs.\<close>

definition demo_partition :: "process list \<Rightarrow> partition" where
  "demo_partition ps = \<lparr>part_name = ''P'', current_proc = 0,
     part_cgc = \<lparr>cg_remove = True, cg_path = ''/c'', current_cpus = 0\<rparr>, proc_count = length ps,
     part_empty = False, part_completed_cb = Cb_null, part_exit_cb = Exit_process,
     part_cgf = \<lparr>cg_remove = True, cg_path = ''/f''\<rparr>, part_cge = \<lparr>cg_remove = True, cg_path = ''/e''\<rparr>,
     processes = ps\<rparr>"

theorem seek_pending_round_robin_witness:
  "fst (projr (seek_pending_process
     ((demo_partition [demo_process ''a'' 1, demo_process ''b'' 2])\<lparr>current_proc := 1\<rparr>))) = Some 1"
  by (subst seek_pending_round_robin)
    (simp_all add: demo_partition_def demo_process_def is_pending_def is_spawned_def)

theorem partition_runs_each_process_once_witness:
  "\<exists>order q. drain 2 ((demo_partition [demo_process ''a'' 1, demo_process ''b'' 2])\<lparr>current_proc := 1\<rparr>) =
     Inr (order, q) \<and> distinct order \<and> set order = {0, 1}"
proof -
  let ?p = "(demo_partition [demo_process ''a'' 1, demo_process ''b'' 2])\<lparr>current_proc := 1\<rparr>"
  have "current_proc ?p < length (processes ?p)" by (simp add: demo_partition_def)
  from partition_runs_each_process_once[OF this] obtain order q where
    "drain (length (processes ?p)) ?p = Inr (order, q)" "distinct order"
    "set order = {i. i < length (processes ?p) \<and> is_pending (processes ?p ! i)}" by blast
  moreover have "length (processes ?p) = 2" by (simp add: demo_partition_def)
  moreover have "{i. i < length (processes ?p) \<and> is_pending (processes ?p ! i)} = {0, 1}"
    by (auto simp: demo_partition_def demo_process_def is_pending_def is_spawned_def less_Suc_eq)
  ultimately show ?thesis by (intro exI[of _ order] exI[of _ q]) simp
qed

lemma reset_prepares_partition_witness:
  "\<exists>q t. reset False 5 (Cb_slice 0 0) ((demo_partition [(demo_process ''a'' 1)\<lparr>completed := True\<rparr>, demo_process ''b'' 2])
      \<lparr>current_proc := 1\<rparr>) (quiet_os True) = Inr (q, t) \<and>
    is_pending (processes q ! 0) \<and> current_proc q = 1 \<and> current_cpus (part_cgc q) = 5"
proof -
  let ?p = "(demo_partition [(demo_process ''a'' 1)\<lparr>completed := True\<rparr>, demo_process ''b'' 2])\<lparr>current_proc := 1\<rparr>"
  have "\<exists>g t. set_cpus 5 (part_cgc ?p) (quiet_os True) = Inr (g, t)"
    using io_ok_set_cpus[of "quiet_os True" 5 "part_cgc ?p"] by auto
  then obtain q t where run: "reset False 5 (Cb_slice 0 0) ?p (quiet_os True) = Inr (q, t)"
    by (auto simp: reset_def Let_def clear_completed_flag_def)
  from reset_prepares_partition[OF run] run show ?thesis
    by (auto simp: demo_partition_def demo_process_def is_spawned_def)
qed

end
