(* ===== verification/Power_Manager.thy ===== *)
theory Power_Manager
  imports Cpufreq_Policy
begin

text \<open>
  The owner of all \<open>cpufreq\<close> policies (\<open>src/src/power_manager.hpp\<close>). The system it is constructed
  on is the argument \<open>pm_sysfs\<close>: whether the \<open>intel_pstate\<close> directory exists, the driver's status and
  the entries of \<open>/sys/devices/system/cpu/cpufreq\<close> in the order the directory iterator gives them.
\<close>

record pm_sysfs =
  has_intel_pstate :: bool
  pstate_status :: string
  cpufreq_entries :: "(string \<times> cpufreq_sysfs) list"

record power_manager =
  original_intel_pstate_status :: string
  policies :: "cpufreq_policy list"

definition ENOENT :: nat where "ENOENT = 2"
definition EACCES :: nat where "EACCES = 13"

definition cpufreq_dir :: string where
  "cpufreq_dir = ''/sys/devices/system/cpu/cpufreq''"

definition pstate_file :: string where
  "pstate_file = ''/sys/devices/system/cpu/intel_pstate/status''"

definition check_support :: "os \<Rightarrow> os result" where
  "check_support s =
     (case syscall (Open (cpufreq_dir @ ''/policy0/scaling_governor'')) s of
        (None, t) \<Rightarrow> Inr t
      | (Some errno, t) \<Rightarrow>
          if errno = ENOENT then Inl (Runtime_error ''cpufreq seems not to be supported by your kernel'')
          else if errno = EACCES
               then Inl (Runtime_error ''permission to control CPU frequency scaling'')
               else Inl (Runtime_error ''Failed to open CPU policy governor file for writing''))"

definition setup_intel_pstate_driver :: "pm_sysfs \<Rightarrow> os \<Rightarrow> (string \<times> os) result" where
  "setup_intel_pstate_driver fs s =
     bindE (CHECK (Open pstate_file) s) (\<lambda>t.
     if pstate_status fs = ''off'' then Inl (Runtime_error ''a non-standard driver is used'')
     else if pstate_status fs = ''active''
          then Inr (pstate_status fs, write_stream pstate_file ''passive'' t)
          else Inr (pstate_status fs, t))"

definition reset_intel_pstate_driver :: "power_manager \<Rightarrow> os \<Rightarrow> os result" where
  "reset_intel_pstate_driver pm s =
     (if original_intel_pstate_status pm = ''passive'' then Inr s
      else bindE (CHECK (Open pstate_file) s) (\<lambda>t.
           Inr (write_stream pstate_file (original_intel_pstate_status pm) t)))"

text \<open>Only entries named \<open>policy*\<close> are policies.\<close>

definition setup_policy_entry ::
  "string \<times> cpufreq_sysfs \<Rightarrow> cpufreq_policy list \<times> os \<Rightarrow> (cpufreq_policy list \<times> os) result" where
  "setup_policy_entry entry st =
     (if \<not> prefix ''policy'' (fst entry) then Inr st
      else bindE (cpufreq_policy_new (cpufreq_dir @ ''/'' @ fst entry) (fst entry) (snd entry) (snd st))
             (\<lambda>(p, u). Inr (fst st @ [p], u)))"

definition setup_policy_objects ::
  "(string \<times> cpufreq_sysfs) list \<Rightarrow> os \<Rightarrow> (cpufreq_policy list \<times> os) result" where
  "setup_policy_objects entries s = foldE setup_policy_entry entries ([], s)"

definition power_manager_new :: "pm_sysfs \<Rightarrow> os \<Rightarrow> (power_manager \<times> os) result" where
  "power_manager_new fs s =
     bindE (check_support s) (\<lambda>s1.
     bindE (if has_intel_pstate fs then setup_intel_pstate_driver fs s1 else Inr ([], s1)) (\<lambda>(st, s2).
     bindE (setup_policy_objects (cpufreq_entries fs) s2) (\<lambda>(ps, s3).
     Inr (\<lparr>original_intel_pstate_status = st, policies = ps\<rparr>, s3))))"

text \<open>
  The destructor resets the driver before the members, and with them the policies, are destroyed.
\<close>

definition power_manager_delete :: "power_manager \<Rightarrow> os \<Rightarrow> (power_manager \<times> os) result" where
  "power_manager_delete pm s =
     bindE (if original_intel_pstate_status pm \<noteq> [] then reset_intel_pstate_driver pm s else Inr s) (\<lambda>t.
     bindE (mapE cpufreq_policy_delete (policies pm) t) (\<lambda>(ps, u).
     Inr (pm\<lparr>policies := ps\<rparr>, u)))"

text \<open>\<open>policy_by_name.at(name)\<close>: the index of the policy; the map keeps the first of a name.\<close>

fun find_policy :: "string \<Rightarrow> cpufreq_policy list \<Rightarrow> nat \<Rightarrow> nat result" where
  "find_policy name [] i = Inl (Runtime_error ''map::at'')"
| "find_policy name (p # ps) i = (if policy_name p = name then Inr i else find_policy name ps (Suc i))"

definition get_policy :: "power_manager \<Rightarrow> string \<Rightarrow> nat result" where
  "get_policy pm name = find_policy name (policies pm) 0"

subsection \<open>Lemmas\<close>

lemma find_policy_Inr:
  "find_policy name ps i = Inr k \<Longrightarrow>
   i \<le> k \<and> k < i + length ps \<and> policy_name (ps ! (k - i)) = name"
proof (induction ps arbitrary: i)
  case Nil
  then show ?case by simp
next
  case (Cons p ps)
  show ?case
  proof (cases "policy_name p = name")
    case True
    with Cons.prems show ?thesis by simp
  next
    case False
    with Cons.prems have "find_policy name ps (Suc i) = Inr k" by simp
    from Cons.IH[OF this] have "Suc i \<le> k" "k < i + length (p # ps)" "policy_name (ps ! (k - Suc i)) = name"
      by auto
    moreover from this(1) have "(p # ps) ! (k - i) = ps ! (k - Suc i)" by (simp add: nth_Cons')
    ultimately show ?thesis by simp
  qed
qed

lemma get_policy_Inr:
  "get_policy pm name = Inr k \<Longrightarrow> k < length (policies pm) \<and> policy_name (policies pm ! k) = name"
  using find_policy_Inr[of name "policies pm" 0 k] by (simp add: get_policy_def)

lemma cpufreq_policy_new_name: "cpufreq_policy_new dir name fs s = Inr (p, t) \<Longrightarrow> policy_name p = name"
  by (auto simp: cpufreq_policy_new_def bindE_Inr_iff Let_def split: prod.splits
      dest!: write_governor_Inr)

lemma setup_policy_objects_names:
  assumes "setup_policy_objects entries s = Inr (ps, t)"
  shows "map policy_name ps = filter (prefix ''policy'') (map fst entries)"
proof -
  have "foldE setup_policy_entry es (qs, s) = Inr (ps, t) \<Longrightarrow>
      map policy_name ps = map policy_name qs @ filter (prefix ''policy'') (map fst es)" for es qs
  proof (induction es arbitrary: qs s)
    case Nil
    then show ?case by simp
  next
    case (Cons e es)
    from Cons.prems obtain rs u where e: "setup_policy_entry e (qs, s) = Inr (rs, u)"
      and rest: "foldE setup_policy_entry es (rs, u) = Inr (ps, t)"
      by (auto simp: bindE_Inr_iff)
    from e have "map policy_name rs = map policy_name qs @ filter (prefix ''policy'') [fst e]"
      by (auto simp: setup_policy_entry_def bindE_Inr_iff split: if_splits dest: cpufreq_policy_new_name)
    with Cons.IH[OF rest] show ?case by simp
  qed
  from this[of entries "[]"] assms show ?thesis by (simp add: setup_policy_objects_def)
qed

end
