(* ===== verification/Power_Policy.thy ===== *)
theory Power_Policy
  imports Power_Manager Scan
begin

unbundle bit_operations_syntax

text \<open>
  The power policies (\<open>src/src/power_policy/\<close>). \<open>PowerPolicy\<close> is an interface of event handlers
  that the scheduler calls; each class is a constructor of the datatype \<open>power_policy\<close> with the
  class's members, and each virtual method one function that dispatches on the constructor. A
  handler reads of its argument only what the views below hold: of a process its identity (the
  index of its partition and its index there), its requested frequency and the CPU set of its
  partition; of a slice its CPU set, its requested frequency and, for validation, the requested
  frequencies of the processes of its partitions.
\<close>

type_synonym proc_ref = "nat \<times> nat"

record slice_view =
  sv_cpus :: cpu_set
  sv_freq :: "cpu_freq option"
  sv_proc_freqs :: "cpu_freq option list"

text \<open>\<open>CpuCluster\<close>: a policy and the running processes that hold its frequency.\<close>

record cluster =
  cf_policy :: cpufreq_policy
  requesting_procs :: "(proc_ref \<times> cpu_freq) list"

record alternating =
  a53_pol :: cpufreq_policy
  a72_pol :: cpufreq_policy
  f1_a53 :: cpu_freq
  f2_a53 :: cpu_freq
  f1_a72 :: cpu_freq
  f2_a72 :: cpu_freq
  f1_next :: bool

datatype power_policy =
    PowerPolicy_None
  | PowerPolicy_MinBE power_manager
  | PowerPolicy_FixedLow power_manager
  | PowerPolicy_FixedHigh power_manager
  | PowerPolicy_PerProcess power_manager "cluster list"
  | PowerPolicy_Imx8_PerProcess power_manager "cluster list"
  | PowerPolicy_Imx8_PerSlice power_manager "cpufreq_policy list"
  | PowerPolicy_Imx8_Fixed power_manager
  | PowerPolicy_Imx8_Alternating power_manager alternating

definition cpus_overlap :: "cpu_set \<Rightarrow> cpu_set \<Rightarrow> bool" where
  "cpus_overlap a b \<longleftrightarrow> cpu_nonempty (a AND b)"

subsection \<open>Setting every policy to an extreme\<close>

definition write_all :: "(cpufreq_policy \<Rightarrow> cpu_freq) \<Rightarrow> cpufreq_policy list \<Rightarrow> os \<Rightarrow> os result" where
  "write_all f ps s = foldE (\<lambda>p. write_frequency (f p) p) ps s"

subsection \<open>Frequencies per process\<close>

definition cluster_process_start ::
  "proc_ref \<Rightarrow> cpu_freq option \<Rightarrow> cpu_set \<Rightarrow> cluster \<Rightarrow> os \<Rightarrow> (cluster \<times> os) result" where
  "cluster_process_start r req cpus cc s =
     (case req of None \<Rightarrow> Inr (cc, s)
      | Some f \<Rightarrow>
          if cpus_overlap cpus (affected_cores (cf_policy cc))
          then if requesting_procs cc \<noteq> [] \<and> snd (hd (requesting_procs cc)) \<noteq> f
               then Inl (Runtime_error ''Scheduled processes require different frequencies'')
               else bindE (write_frequency f (cf_policy cc) s) (\<lambda>t.
                    Inr (cc\<lparr>requesting_procs := requesting_procs cc @ [(r, f)]\<rparr>, t))
          else Inr (cc, s))"

definition cluster_process_end :: "proc_ref \<Rightarrow> cluster \<Rightarrow> cluster" where
  "cluster_process_end r cc =
     cc\<lparr>requesting_procs := filter (\<lambda>(q, f). q \<noteq> r) (requesting_procs cc)\<rparr>"

definition validate_processes :: "cpufreq_policy list \<Rightarrow> slice_view list list \<Rightarrow> unit result" where
  "validate_processes ps windows =
     foldE (\<lambda>win u. foldE (\<lambda>sl u. foldE (\<lambda>req u.
         case req of None \<Rightarrow> Inr ()
         | Some f \<Rightarrow> foldE (\<lambda>p u.
             if \<not> cpus_overlap (sv_cpus sl) (affected_cores p) then Inr () else validate_frequency p f)
             ps ())
       (sv_proc_freqs sl) ()) win ()) windows ()"

subsection \<open>Frequencies per slice\<close>

definition validate_slices :: "cpufreq_policy list \<Rightarrow> slice_view list list \<Rightarrow> unit result" where
  "validate_slices ps windows =
     foldE (\<lambda>win u. foldE (\<lambda>sl u.
         case sv_freq sl of None \<Rightarrow> Inr ()
         | Some f \<Rightarrow> foldE (\<lambda>p u.
             if \<not> cpus_overlap (sv_cpus sl) (affected_cores p) then Inr () else validate_frequency p f)
             ps ())
       win ()) windows ()"

definition slice_frequency ::
  "cpufreq_policy \<Rightarrow> slice_view \<Rightarrow> cpu_freq option \<Rightarrow> cpu_freq option result" where
  "slice_frequency p sl acc =
     (case sv_freq sl of None \<Rightarrow> Inr acc
      | Some f \<Rightarrow>
          if cpus_overlap (sv_cpus sl) (affected_cores p)
          then if acc \<noteq> None \<and> acc \<noteq> Some f
               then Inl (Runtime_error ''Scheduled slices require different frequencies'')
               else Inr (Some f)
          else Inr acc)"

definition per_slice_window_start ::
  "slice_view list \<Rightarrow> cpufreq_policy \<Rightarrow> os \<Rightarrow> os result" where
  "per_slice_window_start win p s =
     bindE (foldE (slice_frequency p) win None) (\<lambda>acc.
     case acc of None \<Rightarrow> Inr s | Some f \<Rightarrow> write_frequency f p s)"

subsection \<open>Alternating frequencies\<close>

definition alternating_window_start :: "alternating \<Rightarrow> os \<Rightarrow> (alternating \<times> os) result" where
  "alternating_window_start a s =
     bindE (if f1_a53 a \<noteq> f2_a53 a
            then write_frequency (if f1_next a then f1_a53 a else f2_a53 a) (a53_pol a) s
            else Inr s) (\<lambda>t.
     bindE (if f1_a72 a \<noteq> f2_a72 a
            then write_frequency (if f1_next a then f1_a72 a else f2_a72 a) (a72_pol a) t
            else Inr t) (\<lambda>u.
     Inr (a\<lparr>f1_next := \<not> f1_next a\<rparr>, u)))"

subsection \<open>The interface\<close>

fun pp_validate :: "power_policy \<Rightarrow> slice_view list list \<Rightarrow> unit result" where
  "pp_validate (PowerPolicy_PerProcess pm cs) ws = validate_processes (map cf_policy cs) ws"
| "pp_validate (PowerPolicy_Imx8_PerProcess pm cs) ws = validate_processes (map cf_policy cs) ws"
| "pp_validate (PowerPolicy_Imx8_PerSlice pm ps) ws = validate_slices ps ws"
| "pp_validate _ ws = Inr ()"

fun supports_per_process_frequencies :: "power_policy \<Rightarrow> bool" where
  "supports_per_process_frequencies (PowerPolicy_PerProcess pm cs) = True"
| "supports_per_process_frequencies (PowerPolicy_Imx8_PerProcess pm cs) = True"
| "supports_per_process_frequencies _ = False"

fun supports_per_slice_frequencies :: "power_policy \<Rightarrow> bool" where
  "supports_per_slice_frequencies (PowerPolicy_Imx8_PerSlice pm ps) = True"
| "supports_per_slice_frequencies _ = False"

fun on_window_start :: "slice_view list \<Rightarrow> power_policy \<Rightarrow> os \<Rightarrow> (power_policy \<times> os) result" where
  "on_window_start win (PowerPolicy_Imx8_PerSlice pm ps) s =
     bindE (foldE (per_slice_window_start win) ps s) (\<lambda>t. Inr (PowerPolicy_Imx8_PerSlice pm ps, t))"
| "on_window_start win (PowerPolicy_Imx8_Alternating pm a) s =
     bindE (alternating_window_start a s) (\<lambda>(b, t). Inr (PowerPolicy_Imx8_Alternating pm b, t))"
| "on_window_start win pp s = Inr (pp, s)"

fun on_sc_start :: "power_policy \<Rightarrow> os \<Rightarrow> (power_policy \<times> os) result" where
  "on_sc_start (PowerPolicy_MinBE pm) s =
     bindE (write_all max_frequency (policies pm) s) (\<lambda>t. Inr (PowerPolicy_MinBE pm, t))"
| "on_sc_start pp s = Inr (pp, s)"

fun on_be_start :: "power_policy \<Rightarrow> os \<Rightarrow> (power_policy \<times> os) result" where
  "on_be_start (PowerPolicy_MinBE pm) s =
     bindE (write_all min_frequency (policies pm) s) (\<lambda>t. Inr (PowerPolicy_MinBE pm, t))"
| "on_be_start pp s = Inr (pp, s)"

text \<open>No class overrides \<open>on_window_end\<close>.\<close>

definition on_window_end :: "power_policy \<Rightarrow> os \<Rightarrow> (power_policy \<times> os) result" where
  "on_window_end pp s = Inr (pp, s)"

fun on_process_start ::
  "proc_ref \<Rightarrow> cpu_freq option \<Rightarrow> cpu_set \<Rightarrow> power_policy \<Rightarrow> os \<Rightarrow> (power_policy \<times> os) result" where
  "on_process_start r req cpus (PowerPolicy_PerProcess pm cs) s =
     bindE (mapE (cluster_process_start r req cpus) cs s) (\<lambda>(ds, t). Inr (PowerPolicy_PerProcess pm ds, t))"
| "on_process_start r req cpus (PowerPolicy_Imx8_PerProcess pm cs) s =
     bindE (mapE (cluster_process_start r req cpus) cs s) (\<lambda>(ds, t). Inr (PowerPolicy_Imx8_PerProcess pm ds, t))"
| "on_process_start r req cpus pp s = Inr (pp, s)"

fun on_process_end :: "proc_ref \<Rightarrow> power_policy \<Rightarrow> power_policy" where
  "on_process_end r (PowerPolicy_PerProcess pm cs) =
     PowerPolicy_PerProcess pm (map (cluster_process_end r) cs)"
| "on_process_end r (PowerPolicy_Imx8_PerProcess pm cs) =
     PowerPolicy_Imx8_PerProcess pm (map (cluster_process_end r) cs)"
| "on_process_end r pp = pp"

subsection \<open>Constructors\<close>

text \<open>
  \<open>std::stoul\<close> in base 10: white space, a sign, then at least one digit; what follows is ignored. A
  minus sign negates modulo \<open>2 ^ 64\<close>.
\<close>

definition stoul :: "string \<Rightarrow> nat result" where
  "stoul str =
     (let s = dropWhile is_space str;
          neg = (s \<noteq> [] \<and> hd s = CHR ''-'');
          d = takeWhile is_digit (if s \<noteq> [] \<and> hd s \<in> {CHR ''-'', CHR ''+''} then tl s else s);
          v = dec_to_nat d
      in if d = [] then Inl (Runtime_error ''invalid_argument: stoul'')
         else if v \<ge> 2 ^ 64 then Inl (Runtime_error ''out_of_range: stoul'')
         else Inr (if neg then (2 ^ 64 - v) mod 2 ^ 64 else v))"

definition all_listed :: "power_manager \<Rightarrow> bool" where
  "all_listed pm \<longleftrightarrow> (\<forall>p \<in> set (policies pm). available_frequencies p \<noteq> None)"

definition require_listed :: "power_manager \<Rightarrow> unit result" where
  "require_listed pm = (if all_listed pm then Inr ()
     else Inl (Runtime_error ''Cannot list available frequencies for the CPU''))"

definition minbe_new :: "pm_sysfs \<Rightarrow> os \<Rightarrow> (power_policy \<times> os) result" where
  "minbe_new fs s = bindE (power_manager_new fs s) (\<lambda>(pm, t).
     bindE (write_all max_frequency (policies pm) t) (\<lambda>u. Inr (PowerPolicy_MinBE pm, u)))"

definition fixed_low_new :: "pm_sysfs \<Rightarrow> os \<Rightarrow> (power_policy \<times> os) result" where
  "fixed_low_new fs s = bindE (power_manager_new fs s) (\<lambda>(pm, t).
     bindE (write_all min_frequency (policies pm) t) (\<lambda>u. Inr (PowerPolicy_FixedLow pm, u)))"

definition fixed_high_new :: "pm_sysfs \<Rightarrow> os \<Rightarrow> (power_policy \<times> os) result" where
  "fixed_high_new fs s = bindE (power_manager_new fs s) (\<lambda>(pm, t).
     bindE (write_all max_frequency (policies pm) t) (\<lambda>u. Inr (PowerPolicy_FixedHigh pm, u)))"

definition new_cluster :: "cpufreq_policy \<Rightarrow> cluster" where
  "new_cluster p = \<lparr>cf_policy = p, requesting_procs = []\<rparr>"

definition per_process_new :: "pm_sysfs \<Rightarrow> os \<Rightarrow> (power_policy \<times> os) result" where
  "per_process_new fs s = bindE (power_manager_new fs s) (\<lambda>(pm, t).
     Inr (PowerPolicy_PerProcess pm (map new_cluster (policies pm)), t))"

text \<open>The i.MX8 classes look up \<open>policy0\<close> (A53) and \<open>policy4\<close> (A72) by name.\<close>

definition imx8_policies :: "power_manager \<Rightarrow> (cpufreq_policy \<times> cpufreq_policy) result" where
  "imx8_policies pm =
     bindE (get_policy pm ''policy0'') (\<lambda>i. bindE (get_policy pm ''policy4'') (\<lambda>j.
     Inr (policies pm ! i, policies pm ! j)))"

definition imx8_per_process_new :: "pm_sysfs \<Rightarrow> os \<Rightarrow> (power_policy \<times> os) result" where
  "imx8_per_process_new fs s = bindE (power_manager_new fs s) (\<lambda>(pm, t).
     bindE (imx8_policies pm) (\<lambda>(p, q). bindE (require_listed pm) (\<lambda>_.
     Inr (PowerPolicy_Imx8_PerProcess pm [new_cluster p, new_cluster q], t))))"

definition imx8_per_slice_new :: "pm_sysfs \<Rightarrow> os \<Rightarrow> (power_policy \<times> os) result" where
  "imx8_per_slice_new fs s = bindE (power_manager_new fs s) (\<lambda>(pm, t).
     bindE (imx8_policies pm) (\<lambda>(p, q). bindE (require_listed pm) (\<lambda>_.
     Inr (PowerPolicy_Imx8_PerSlice pm [p, q], t))))"

text \<open>\<open>catch (std::invalid_argument &)\<close> with the message the class throws instead.\<close>

definition catch_invalid_argument :: "'a result \<Rightarrow> 'a result" where
  "catch_invalid_argument m =
     (if m = Inl (Runtime_error ''invalid_argument: stoul'')
      then Inl (Runtime_error ''Both power policy arguments must be integers in the range <0, 3>'') else m)"

definition imx8_fixed_new ::
  "string \<Rightarrow> string \<Rightarrow> pm_sysfs \<Rightarrow> os \<Rightarrow> (power_policy \<times> os) result" where
  "imx8_fixed_new a53_freq_i a72_freq_i fs s = bindE (power_manager_new fs s) (\<lambda>(pm, t).
     bindE (imx8_policies pm) (\<lambda>(p, q). bindE (require_listed pm) (\<lambda>_.
     bindE (catch_invalid_argument (stoul a53_freq_i)) (\<lambda>i. bindE (write_frequency_i i p t) (\<lambda>u.
     bindE (catch_invalid_argument (stoul a72_freq_i)) (\<lambda>j. bindE (write_frequency_i j q u) (\<lambda>v.
     Inr (PowerPolicy_Imx8_Fixed pm, v))))))))"

text \<open>The function try block turns every exception into one message.\<close>

definition imx8_alternating_new ::
  "string \<Rightarrow> string \<Rightarrow> string \<Rightarrow> string \<Rightarrow> pm_sysfs \<Rightarrow> os \<Rightarrow> (power_policy \<times> os) result" where
  "imx8_alternating_new a53_f1 a53_f2 a72_f1 a72_f2 fs s =
     (let body =
        bindE (power_manager_new fs s) (\<lambda>(pm, t).
        bindE (imx8_policies pm) (\<lambda>(p, q).
        bindE (stoul a53_f1) (\<lambda>i1. bindE (get_freq p i1) (\<lambda>g1.
        bindE (stoul a53_f2) (\<lambda>i2. bindE (get_freq p i2) (\<lambda>g2.
        bindE (stoul a72_f1) (\<lambda>i3. bindE (get_freq q i3) (\<lambda>g3.
        bindE (stoul a72_f2) (\<lambda>i4. bindE (get_freq q i4) (\<lambda>g4.
        bindE (require_listed pm) (\<lambda>_.
        bindE (if g1 = g2 then write_frequency g1 p t else Inr t) (\<lambda>u.
        bindE (if g3 = g4 then write_frequency g3 q u else Inr u) (\<lambda>v.
        Inr (PowerPolicy_Imx8_Alternating pm
               \<lparr>a53_pol = p, a72_pol = q, f1_a53 = g1, f2_a53 = g2, f1_a72 = g3, f2_a72 = g4,
                f1_next = True\<rparr>, v))))))))))))))
      in case body of
           Inl e \<Rightarrow> Inl (Runtime_error ''All power policy arguments must be integers in the range <0, 3>'')
         | Inr r \<Rightarrow> Inr r)"

text \<open>The table \<open>power_policies\<close> with the number of arguments each class takes.\<close>

definition policy_arg_count :: "string \<Rightarrow> nat option" where
  "policy_arg_count name =
     map_of [(''minbe'', 0), (''low'', 0), (''high'', 0), (''per_process'', 0), (''imx8_alternating'', 4),
       (''imx8_fixed'', 2), (''imx8_per_process'', 0), (''imx8_per_slice'', 0)] name"

definition construct_policy ::
  "string \<Rightarrow> string list \<Rightarrow> pm_sysfs \<Rightarrow> os \<Rightarrow> (power_policy \<times> os) result" where
  "construct_policy name args fs s =
     (if name = ''minbe'' then minbe_new fs s
      else if name = ''low'' then fixed_low_new fs s
      else if name = ''high'' then fixed_high_new fs s
      else if name = ''per_process'' then per_process_new fs s
      else if name = ''imx8_alternating''
           then imx8_alternating_new (args ! 0) (args ! 1) (args ! 2) (args ! 3) fs s
      else if name = ''imx8_fixed'' then imx8_fixed_new (args ! 0) (args ! 1) fs s
      else if name = ''imx8_per_process'' then imx8_per_process_new fs s
      else imx8_per_slice_new fs s)"

definition instantiate_power_policy ::
  "string \<Rightarrow> string list \<Rightarrow> pm_sysfs \<Rightarrow> os \<Rightarrow> (power_policy \<times> os) result" where
  "instantiate_power_policy name args fs s =
     (if name = [] then Inr (PowerPolicy_None, s)
      else if name = ''none'' then Inr (PowerPolicy_None, s)
      else case policy_arg_count name of
             None \<Rightarrow> Inl (Runtime_error ''Unknown power policy selected'')
           | Some n \<Rightarrow>
               (case (if n \<noteq> length args then Inl (Runtime_error ''Incorrect number of parameters'')
                      else construct_policy name args fs s) of
                  Inl e \<Rightarrow> Inl (Runtime_error ''Failed to initialize power policy'')
                | Inr r \<Rightarrow> Inr r))"

text \<open>The loop that cuts the argument string at its commas.\<close>

function split_args :: "string \<Rightarrow> string list" where
  "split_args str =
     (case dropWhile (\<lambda>c. c \<noteq> CHR '','') str of
        [] \<Rightarrow> [str]
      | _ # rest \<Rightarrow> takeWhile (\<lambda>c. c \<noteq> CHR '','') str # split_args rest)"
  by pat_completeness auto
termination
proof (relation "measure length")
  fix str :: string and c rest
  assume "dropWhile (\<lambda>c. c \<noteq> CHR '','') str = c # rest"
  moreover have "length (dropWhile (\<lambda>c. c \<noteq> CHR '','') str) \<le> length str" by (rule length_dropWhile_le)
  ultimately show "(rest, str) \<in> measure length" by simp
qed simp

declare split_args.simps [simp del]

definition to_lower :: "char \<Rightarrow> char" where
  "to_lower c = (if 65 \<le> (of_char c :: nat) \<and> (of_char c :: nat) \<le> 90 then char_of (of_char c + 32 :: nat) else c)"

definition parse_policy :: "string \<Rightarrow> string \<times> string list" where
  "parse_policy str =
     (case dropWhile (\<lambda>c. c \<noteq> CHR '':'') str of
        [] \<Rightarrow> (map to_lower str, [])
      | _ # rest \<Rightarrow> (map to_lower (takeWhile (\<lambda>c. c \<noteq> CHR '':'') str), split_args rest))"

definition setup_power_policy :: "string \<Rightarrow> pm_sysfs \<Rightarrow> os \<Rightarrow> (power_policy \<times> os) result" where
  "setup_power_policy str fs s =
     (case parse_policy str of (name, args) \<Rightarrow> instantiate_power_policy name args fs s)"

subsection \<open>The handlers as one machine\<close>

datatype pp_event =
    Window_start "slice_view list"
  | Sc_start
  | Be_start
  | Window_end
  | Process_start proc_ref "cpu_freq option" cpu_set
  | Process_end proc_ref

fun pp_step :: "pp_event \<Rightarrow> power_policy \<times> os \<Rightarrow> (power_policy \<times> os) result" where
  "pp_step (Window_start win) (pp, s) = on_window_start win pp s"
| "pp_step Sc_start (pp, s) = on_sc_start pp s"
| "pp_step Be_start (pp, s) = on_be_start pp s"
| "pp_step Window_end (pp, s) = on_window_end pp s"
| "pp_step (Process_start r req cpus) (pp, s) = on_process_start r req cpus pp s"
| "pp_step (Process_end r) (pp, s) = Inr (on_process_end r pp, s)"

text \<open>The processes that hold a cluster's frequency all requested the same one.\<close>

definition cluster_ok :: "cluster \<Rightarrow> bool" where
  "cluster_ok cc \<longleftrightarrow> (\<forall>p \<in> set (requesting_procs cc). \<forall>q \<in> set (requesting_procs cc). snd p = snd q)"

fun pp_clusters :: "power_policy \<Rightarrow> cluster list" where
  "pp_clusters (PowerPolicy_PerProcess pm cs) = cs"
| "pp_clusters (PowerPolicy_Imx8_PerProcess pm cs) = cs"
| "pp_clusters _ = []"

definition pp_ok :: "power_policy \<Rightarrow> bool" where
  "pp_ok pp \<longleftrightarrow> (\<forall>cc \<in> set (pp_clusters pp). cluster_ok cc)"

lemma foldE_os_extends:
  assumes "foldE f xs s = Inr t" and "\<And>x s t. x \<in> set xs \<Longrightarrow> f x s = Inr t \<Longrightarrow> os_extends s t"
  shows "os_extends s t"
  using assms(1)
  by (rule foldE_invariant[where P = "os_extends s"]) (auto intro: os_extends_trans assms(2))

lemma write_all_extends: "write_all f ps s = Inr t \<Longrightarrow> os_extends s t"
  unfolding write_all_def by (erule foldE_os_extends) (rule write_frequency_extends)

lemma cluster_ok_push:
  assumes "cluster_ok cc" and "requesting_procs cc \<noteq> [] \<Longrightarrow> snd (hd (requesting_procs cc)) = f"
  shows "cluster_ok (cc\<lparr>requesting_procs := requesting_procs cc @ [(r, f)]\<rparr>)"
proof -
  have "snd p = f" if "p \<in> set (requesting_procs cc)" for p
  proof -
    from that have "hd (requesting_procs cc) \<in> set (requesting_procs cc)" by (cases "requesting_procs cc") auto
    with that assms show ?thesis unfolding cluster_ok_def by fastforce
  qed
  then show ?thesis by (simp add: cluster_ok_def)
qed

lemma cluster_process_start_Inr:
  assumes "cluster_process_start r req cpus cc s = Inr (dd, t)"
  shows "os_extends s t \<and> cf_policy dd = cf_policy cc \<and> (cluster_ok cc \<longrightarrow> cluster_ok dd)"
  using assms
  by (auto simp: cluster_process_start_def bindE_Inr_iff split: option.splits if_splits
      dest: write_frequency_extends intro!: cluster_ok_push)

lemma mapE_cluster_process_start:
  assumes "mapE (cluster_process_start r req cpus) cs s = Inr (ds, t)"
  shows "os_extends s t \<and> list_all2 (\<lambda>cc dd. cf_policy dd = cf_policy cc \<and> (cluster_ok cc \<longrightarrow> cluster_ok dd)) cs ds"
  using mapE_list_all2[OF assms, of "os_extends s"
      "\<lambda>cc dd. cf_policy dd = cf_policy cc \<and> (cluster_ok cc \<longrightarrow> cluster_ok dd)"]
  by (auto dest: cluster_process_start_Inr intro: os_extends_trans)

lemma list_all2_preserves:
  "list_all2 (\<lambda>x y. Q x y \<and> (P x \<longrightarrow> P y)) xs ys \<Longrightarrow> y \<in> set ys \<Longrightarrow> \<forall>x \<in> set xs. P x \<Longrightarrow> P y"
  by (induction rule: list_all2_induct) auto

lemma per_slice_window_start_extends: "per_slice_window_start win p s = Inr t \<Longrightarrow> os_extends s t"
  by (auto simp: per_slice_window_start_def bindE_Inr_iff split: option.splits dest: write_frequency_extends)

lemma alternating_window_start_extends: "alternating_window_start a s = Inr (b, t) \<Longrightarrow> os_extends s t"
  by (auto simp: alternating_window_start_def bindE_Inr_iff split: if_splits
      dest!: write_frequency_extends intro: os_extends_trans)

lemma on_window_start_Inr:
  "on_window_start win pp s = Inr (qq, t) \<Longrightarrow> os_extends s t \<and> pp_clusters qq = pp_clusters pp"
  by (cases pp) (auto simp: bindE_Inr_iff per_slice_window_start_extends alternating_window_start_extends
      dest: foldE_os_extends)

lemma on_sc_start_Inr:
  "on_sc_start pp s = Inr (qq, t) \<Longrightarrow> os_extends s t \<and> pp_clusters qq = pp_clusters pp"
  by (cases pp) (auto simp: bindE_Inr_iff write_all_extends)

lemma on_be_start_Inr:
  "on_be_start pp s = Inr (qq, t) \<Longrightarrow> os_extends s t \<and> pp_clusters qq = pp_clusters pp"
  by (cases pp) (auto simp: bindE_Inr_iff write_all_extends)

lemma on_process_start_Inr:
  "on_process_start r req cpus pp s = Inr (qq, t) \<Longrightarrow> os_extends s t \<and> (pp_ok pp \<longrightarrow> pp_ok qq)"
  by (cases pp) (auto simp: bindE_Inr_iff pp_ok_def dest!: mapE_cluster_process_start
      dest: list_all2_preserves)

lemma on_process_end_ok: "pp_ok pp \<Longrightarrow> pp_ok (on_process_end r pp)"
  by (cases pp) (auto simp: pp_ok_def cluster_ok_def cluster_process_end_def)

lemma pp_step_ok: "pp_ok (fst st) \<Longrightarrow> pp_step ev st = Inr st' \<Longrightarrow> pp_ok (fst st')"
  by (cases st; cases st'; cases ev)
    (auto simp: pp_ok_def on_window_end_def dest: on_window_start_Inr on_sc_start_Inr on_be_start_Inr
      dest!: on_process_start_Inr[unfolded pp_ok_def] intro: on_process_end_ok[unfolded pp_ok_def, rule_format])

interpretation handlers: event_machine pp_step "\<lambda>st. pp_ok (fst st)"
  by unfold_locales (rule pp_step_ok)


lemma new_clusters_ok [simp]: "cluster_ok (new_cluster p)"
  by (simp add: cluster_ok_def new_cluster_def)

lemma construct_policy_ok: "construct_policy name args fs s = Inr (pp, t) \<Longrightarrow> pp_ok pp"
  by (auto simp: construct_policy_def bindE_Inr_iff pp_ok_def minbe_new_def fixed_low_new_def
      fixed_high_new_def per_process_new_def imx8_alternating_new_def imx8_fixed_new_def
      imx8_per_process_new_def imx8_per_slice_new_def Let_def split: if_splits sum.splits)

lemma instantiate_cases:
  assumes "instantiate_power_policy name args fs s = Inr (pp, t)"
  shows "pp = PowerPolicy_None \<or> construct_policy name args fs s = Inr (pp, t)"
  using assms unfolding instantiate_power_policy_def
  by (simp split: if_split_asm option.split_asm sum.split_asm)

lemma pp_ok_None [simp]: "pp_ok PowerPolicy_None"
  by (simp add: pp_ok_def)

lemma setup_power_policy_ok:
  assumes "setup_power_policy str fs s = Inr (pp, t)"
  shows "pp_ok pp"
proof -
  obtain name args where "parse_policy str = (name, args)" by (cases "parse_policy str")
  with assms have "instantiate_power_policy name args fs s = Inr (pp, t)"
    by (simp add: setup_power_policy_def)
  from instantiate_cases[OF this] show ?thesis
  proof
    assume "pp = PowerPolicy_None"
    then show ?thesis by simp
  next
    assume "construct_policy name args fs s = Inr (pp, t)"
    then show ?thesis by (rule construct_policy_ok)
  qed
qed

lemma cluster_ok_hd_neq:
  assumes "cluster_ok cc"
  shows "requesting_procs cc \<noteq> [] \<and> snd (hd (requesting_procs cc)) \<noteq> f \<longleftrightarrow>
    (\<exists>p \<in> set (requesting_procs cc). snd p \<noteq> f)"
proof (cases "requesting_procs cc")
  case (Cons p ps)
  with assms have "\<forall>q \<in> set (p # ps). snd q = snd p"
    unfolding cluster_ok_def by (metis list.set_intros(1))
  with Cons show ?thesis by (metis list.sel(1) list.set_intros(1) list.distinct(1))
qed simp

lemma cluster_process_start_throws:
  assumes "cluster_ok cc" and "io_ok s" and "\<not> debug s"
  shows "(\<exists>e. cluster_process_start r (Some f) cpus cc s = Inl e) \<longleftrightarrow>
    cpus_overlap cpus (affected_cores (cf_policy cc)) \<and> (\<exists>p \<in> set (requesting_procs cc). snd p \<noteq> f)"
proof -
  obtain t where "write_frequency f (cf_policy cc) s = Inr t"
    using write_frequency_release[OF assms(3,2)] by blast
  then show ?thesis
    unfolding cluster_ok_hd_neq[OF assms(1), symmetric] cluster_process_start_def by auto
qed

lemma mapE_cluster_process_start_throws:
  assumes "\<forall>cc \<in> set cs. cluster_ok cc" and "io_ok s" and "\<not> debug s"
  shows "(\<exists>e. mapE (cluster_process_start r (Some f) cpus) cs s = Inl e) \<longleftrightarrow>
    (\<exists>cc \<in> set cs. cpus_overlap cpus (affected_cores (cf_policy cc)) \<and>
       (\<exists>p \<in> set (requesting_procs cc). snd p \<noteq> f))"
  using assms
proof (induction cs arbitrary: s)
  case Nil
  then show ?case by simp
next
  case (Cons cc cs)
  note throws = cluster_process_start_throws[of cc s r f cpus]
  show ?case
  proof (cases "cluster_process_start r (Some f) cpus cc s")
    case (Inl e)
    with throws Cons.prems show ?thesis by auto
  next
    case (Inr res)
    obtain dd u where res: "res = (dd, u)" by (cases res)
    with Inr have "os_extends s u" using cluster_process_start_Inr by blast
    with Cons.prems have "io_ok u" "\<not> debug u" by (simp_all add: os_extends_io_ok os_extends_debug)
    with Cons.IH Cons.prems throws Inr res show ?thesis
      by (auto simp: bindE_Inl_iff split: prod.splits)
  qed
qed

text \<open>Joining arguments with commas, the inverse of the splitting loop.\<close>

fun join_args :: "string list \<Rightarrow> string" where
  "join_args [] = []"
| "join_args [a] = a"
| "join_args (a # as) = a @ '','' @ join_args as"

lemma split_args_join:
  "as \<noteq> [] \<Longrightarrow> (\<And>a. a \<in> set as \<Longrightarrow> CHR '','' \<notin> set a) \<Longrightarrow> split_args (join_args as) = as"
proof (induction as rule: join_args.induct)
  case 1
  then show ?case by simp
next
  case (2 a)
  then have "dropWhile (\<lambda>c. c \<noteq> CHR '','') a = []" by (auto simp only: dropWhile_eq_Nil_conv list.set_intros)
  then show ?case unfolding join_args.simps by (subst split_args.simps) (simp only: list.case)
next
  case (3 a b as)
  have neq: "\<And>c. c \<in> set a \<Longrightarrow> c \<noteq> CHR '',''" using "3.prems"(2)[of a] by auto
  have "dropWhile (\<lambda>c. c \<noteq> CHR '','') (a @ '','' @ join_args (b # as)) = '','' @ join_args (b # as)"
    and "takeWhile (\<lambda>c. c \<noteq> CHR '','') (a @ '','' @ join_args (b # as)) = a"
    using neq by (simp_all add: dropWhile_append2 takeWhile_append2)
  with 3 show ?case by (subst split_args.simps) simp
qed

subsection \<open>A concrete policy\<close>

definition one_cluster_sysfs :: pm_sysfs where
  "one_cluster_sysfs = \<lparr>has_intel_pstate = False, pstate_status = [],
     cpufreq_entries = [(''policy0'', \<lparr>sys_governor = ''schedutil'', sys_min_khz = Some 600000,
       sys_max_khz = Some 1200000, sys_scaling_max_khz = Some 1200000,
       sys_available_khz = [600000, 1200000], sys_available_eof = True,
       sys_affected = [0, 1], sys_affected_eof = True\<rparr>)]\<rparr>"

definition two_requests :: "pp_event list" where
  "two_requests = [Process_start (0, 0) (Some (CpuFrequencyHz 600000000)) 1,
     Process_start (1, 0) (Some (CpuFrequencyHz 600000000)) 2]"

lemmas cpufreq_eval = cpufreq_policy_new_def read_governor_def read_freq_file_def
  read_available_frequencies_def read_affected_cpus_def write_governor_def write_stream_def governor_file_def write_scaling_max_freq_def
  CHECK_def syscall_def ASSERT_def Let_def cpu_count_pos_iff hz_of_khz_def set_cpu_def max_cpus_def
  quiet_os_def bit_0

lemmas pp_eval = setup_power_policy_def parse_policy_def to_lower_def char_of_def
  instantiate_power_policy_def policy_arg_count_def construct_policy_def per_process_new_def
  power_manager_new_def check_support_def setup_policy_objects_def setup_policy_entry_def
  new_cluster_def cluster_process_start_def cpus_overlap_def cpu_nonempty_def write_frequency_def
  validate_frequency_def less_cpu_freq_def one_cluster_sysfs_def two_requests_def cpufreq_eval

subsection \<open>Properties\<close>

text \<open>
  C30. The comment in \<open>on_process_start\<close> that \<open>all locking processes must have requested the same
  frequency\<close> holds: from any policy \<open>setup_power_policy\<close> builds, after any sequence of handler calls
  that did not throw, the processes registered with a cluster all requested one frequency.
\<close>

theorem power_policy_frequency_locks:
  assumes "setup_power_policy str fs s = Inr st" and "foldE pp_step evs st = Inr (pp, t)"
    and "cc \<in> set (pp_clusters pp)" and "p \<in> set (requesting_procs cc)" and "q \<in> set (requesting_procs cc)"
  shows "snd p = snd q"
proof -
  have "pp_ok (fst st)" using assms(1) by (cases st) (simp add: setup_power_policy_ok)
  from handlers.run_inv[OF this assms(2)] assms(3) have "cluster_ok cc" by (simp add: pp_ok_def)
  with assms(4,5) show ?thesis unfolding cluster_ok_def by blast
qed

theorem power_policy_frequency_locks_witness:
  "\<exists>st pp t cc p q. setup_power_policy ''Per_Process'' one_cluster_sysfs (quiet_os True) = Inr st \<and>
     foldE pp_step two_requests st = Inr (pp, t) \<and> cc \<in> set (pp_clusters pp) \<and>
     p \<in> set (requesting_procs cc) \<and> q \<in> set (requesting_procs cc) \<and> p \<noteq> q \<and> snd p = snd q"
proof -
  have "case setup_power_policy ''Per_Process'' one_cluster_sysfs (quiet_os True) of
      Inl e \<Rightarrow> False
    | Inr st \<Rightarrow> (case foldE pp_step two_requests st of
        Inl e \<Rightarrow> False
      | Inr (pp, t) \<Rightarrow> map (\<lambda>cc. map fst (requesting_procs cc)) (pp_clusters pp) = [[(0, 0), (1, 0)]])"
    by (simp add: pp_eval)
  then obtain st pp t where run: "setup_power_policy ''Per_Process'' one_cluster_sysfs (quiet_os True) = Inr st"
      "foldE pp_step two_requests st = Inr (pp, t)"
    and "map (\<lambda>cc. map fst (requesting_procs cc)) (pp_clusters pp) = [[(0, 0), (1, 0)]]"
    by (auto split: sum.splits)
  then obtain cc p q where cc: "cc \<in> set (pp_clusters pp)" "p \<in> set (requesting_procs cc)"
      "q \<in> set (requesting_procs cc)" and "fst p = (0, 0)" "fst q = (1, 0)"
    by (auto simp: map_eq_Cons_conv)
  moreover from this(4,5) have "p \<noteq> q" by auto
  moreover have "snd p = snd q" by (rule power_policy_frequency_locks[OF run cc])
  ultimately show ?thesis using run by blast
qed

text \<open>
  C37. In a release build in which no system call fails, \<open>on_process_start\<close> of a process that requests
  a frequency throws exactly where a process that requested another frequency is registered with a
  cluster its CPU set overlaps.
\<close>

theorem per_process_collision:
  assumes "pp_ok pp" and "io_ok s" and "\<not> debug s"
  shows "(\<exists>e. on_process_start r (Some f) cpus pp s = Inl e) \<longleftrightarrow>
    (\<exists>cc \<in> set (pp_clusters pp). cpus_overlap cpus (affected_cores (cf_policy cc)) \<and>
       (\<exists>p \<in> set (requesting_procs cc). snd p \<noteq> f))"
  using assms mapE_cluster_process_start_throws[of "pp_clusters pp" s r f cpus]
  by (cases pp) (auto simp: pp_ok_def bindE_Inl_iff)

theorem per_process_collision_witness:
  "\<exists>e. on_process_start (1, 0) (Some (CpuFrequencyHz 1200000000)) 2
     (PowerPolicy_PerProcess \<lparr>original_intel_pstate_status = [], policies = []\<rparr>
       [\<lparr>cf_policy = \<lparr>policy_dir = [], policy_name = ''policy0'', current_governor = ''userspace'',
           original_governor = ''schedutil'', min_frequency = CpuFrequencyHz 600000000,
           max_frequency = CpuFrequencyHz 1200000000,
           original_scaling_max_frequency = CpuFrequencyHz 1200000000,
           available_frequencies = None, affected_cores = 3, policy_active = True\<rparr>,
         requesting_procs = [((0, 0), CpuFrequencyHz 600000000)]\<rparr>]) (quiet_os False) = Inl e"
  by (subst per_process_collision)
    (simp_all add: pp_ok_def cluster_ok_def cpus_overlap_def cpu_nonempty_def cpu_count_pos_iff)

text \<open>
  C22. A policy string that is made of a name without a colon, a colon, and one or more arguments without commas, joined
  by commas, is split into the name in lower case and exactly these arguments, empty ones included.
\<close>

theorem parse_policy_roundtrip:
  assumes "CHR '':'' \<notin> set name" and "as \<noteq> []" and "\<And>a. a \<in> set as \<Longrightarrow> CHR '','' \<notin> set a"
  shows "parse_policy (name @ '':'' @ join_args as) = (map to_lower name, as)"
proof -
  have neq: "\<And>c. c \<in> set name \<Longrightarrow> c \<noteq> CHR '':''" using assms(1) by auto
  have "dropWhile (\<lambda>c. c \<noteq> CHR '':'') (name @ '':'' @ join_args as) = '':'' @ join_args as"
    and "takeWhile (\<lambda>c. c \<noteq> CHR '':'') (name @ '':'' @ join_args as) = name"
    using neq by (simp_all add: dropWhile_append2 takeWhile_append2)
  with assms(2,3) show ?thesis by (simp add: parse_policy_def split_args_join)
qed

theorem parse_policy_roundtrip_witness:
  "parse_policy ''IMX8_fixed:0,3'' = (''imx8_fixed'', [''0'', ''3''])"
proof -
  have "parse_policy (''IMX8_fixed'' @ '':'' @ join_args [''0'', ''3'']) = (map to_lower ''IMX8_fixed'', [''0'', ''3''])"
    by (rule parse_policy_roundtrip) auto
  then show ?thesis by (simp add: to_lower_def char_of_def bit_0)
qed

text \<open>
  C38. Constructing a \<open>CpufreqPolicy\<close> and destroying it puts the governor back, on a system whose calls succeed.
  For an active policy that was found under another governor, exactly two texts are written to its file
  \<open>scaling_governor\<close>: \<open>userspace\<close> by the constructor, the governor that was found by the destructor. Nothing is written
  there for an inactive policy, or one that was found under \<open>userspace\<close>.
\<close>

theorem cpufreq_governor_restored:
  assumes "cpufreq_policy_new dir name fs s = Inr (p, t)" and "cpufreq_policy_delete p u = Inr (q, v)"
    and "io_ok s" and "io_ok u"
  shows "let file = governor_file dir; found = sys_governor fs in
    (if policy_active p \<and> found \<noteq> ''userspace''
     then written_to file t = ''userspace'' # written_to file s \<and> written_to file v = found # written_to file u
     else written_to file t = written_to file s \<and> written_to file v = written_to file u) \<and>
    (policy_active p \<longrightarrow> current_governor p = ''userspace'') \<and> current_governor q = found"
  using cpufreq_policy_new_written[OF assms(1,3)] cpufreq_policy_delete_written[OF assms(2,4)] by (simp add: Let_def)

theorem cpufreq_governor_restored_witness:
  "\<exists>p t q v. cpufreq_policy_new [] ''policy0'' (snd (hd (cpufreq_entries one_cluster_sysfs))) (quiet_os True) = Inr (p, t) \<and>
     cpufreq_policy_delete p t = Inr (q, v) \<and> policy_active p \<and>
     written_to ''/scaling_governor'' v = [''schedutil'', ''userspace''] \<and> current_governor q = ''schedutil''"
proof -
  let ?fs = "snd (hd (cpufreq_entries one_cluster_sysfs))"
  have "case cpufreq_policy_new [] ''policy0'' ?fs (quiet_os True) of
      Inl e \<Rightarrow> False
    | Inr r \<Rightarrow> policy_active (fst r) \<and> io_outcome (snd r) = (\<lambda>n. None) \<and> isl (cpufreq_policy_delete (fst r) (snd r)) = False"
    by (simp add: cpufreq_policy_delete_def one_cluster_sysfs_def cpufreq_eval)
  then obtain p t where p: "cpufreq_policy_new [] ''policy0'' ?fs (quiet_os True) = Inr (p, t)"
      and act: "policy_active p" and ok: "io_ok t" and del: "\<not> isl (cpufreq_policy_delete p t)"
    by (cases "cpufreq_policy_new [] ''policy0'' ?fs (quiet_os True)") (auto simp: io_ok_def)
  from del obtain q v where q: "cpufreq_policy_delete p t = Inr (q, v)"
    by (cases "cpufreq_policy_delete p t") auto
  have "written_to ''/scaling_governor'' (quiet_os True) = []" by (simp add: written_to_def quiet_os_def List.map_filter_simps)
  with cpufreq_governor_restored[OF p q _ ok] act p q show ?thesis
    by (auto simp: one_cluster_sysfs_def governor_file_def Let_def)
qed

end
