(* ===== verification/Slice.thy ===== *)
theory Slice
  imports Partition Power_Policy
begin

text \<open>
  Slices (\<open>src/src/slice.cpp\<close>, \<open>src/src/slice.hpp\<close>). The pointers \<open>sc\<close>, \<open>be\<close> and
  \<open>running_partition\<close> are indices into the store of partitions, \<open>running_process\<close> an index into
  the running partition. The operations of this theory are the parts of the methods that work on
  one slice and its running partition; they pass on the slice, the partition, the power policy and
  the system. Where the method calls \<open>sc_done_cb\<close> as its last action, the operation returns
  \<open>False\<close> (no process found) and the caller in \<open>Window\<close>, which owns all slices, makes the call.
  \<open>t0\<close> is the static member \<open>start_time\<close>.
\<close>

record slice =
  sl_sc :: "nat option"
  sl_be :: "nat option"
  sl_cpus :: cpu_set
  sl_freq :: "cpu_freq option"
  running_process :: "nat option"
  running_partition :: "nat option"
  sl_timeout :: time_point
  sl_timer :: timerfd

type_synonym slice_ctx = "slice \<times> partition \<times> power_policy \<times> os"

text \<open>\<open>time_point::min()\<close> in nanoseconds of a signed 64-bit count.\<close>

definition time_point_min :: time_point where
  "time_point_min = - (2 ^ 63)"

definition slice_new ::
  "nat option \<Rightarrow> nat option \<Rightarrow> cpu_freq option \<Rightarrow> cpu_set \<Rightarrow> os \<Rightarrow> (slice \<times> os) result" where
  "slice_new sc be req_freq cpus s =
     bindE (timerfd_new s) (\<lambda>(tm, t).
     Inr (\<lparr>sl_sc = sc, sl_be = be, sl_cpus = cpus, sl_freq = req_freq, running_process = None,
           running_partition = None, sl_timeout = time_point_min, sl_timer = tm\<rparr>, t))"

definition load_next_process :: "slice_ctx \<Rightarrow> (bool \<times> slice_ctx) result" where
  "load_next_process = (\<lambda>(sl, p, pp, s).
     bindE (ASSERT (running_process sl = None) ''running_process == nullptr'' s) (\<lambda>s.
     bindE (seek_pending_process p) (\<lambda>(r, p).
     Inr (r \<noteq> None, sl\<lparr>running_process := r\<rparr>, p, pp, s))))"

text \<open>The line of the schedule log, written by debug builds only.\<close>

definition schedule_log :: "time_point \<Rightarrow> time_point \<Rightarrow> slice \<Rightarrow> process \<Rightarrow> milliseconds \<Rightarrow> os \<Rightarrow> os" where
  "schedule_log t0 current_time sl q b s =
     (if debug s
      then emit (Schedule_log (duration_cast_ms (current_time - t0)) (sl_cpus sl) (argv q) b) s else s)"

text \<open>The rest of \<open>start_next_process\<close> once a process with a non-zero budget is found.\<close>

definition launch_process ::
  "time_point \<Rightarrow> time_point \<Rightarrow> nat \<Rightarrow> nat \<Rightarrow> milliseconds \<Rightarrow> slice_ctx \<Rightarrow> slice_ctx result" where
  "launch_process t0 current_time pi i b = (\<lambda>(sl, p, pp, s).
     let s = schedule_log t0 current_time sl (processes p ! i) b s in
     bindE (on_proc i resume p s) (\<lambda>(p, s).
     let sl = sl\<lparr>sl_timeout := current_time + ns_of_ms b\<rparr>;
         p = upd_proc i reset_budget p in
     bindE (timer_start (sl_timeout sl) (sl_timer sl) s) (\<lambda>(tm, s).
     let sl = sl\<lparr>sl_timer := tm\<rparr> in
     bindE (on_process_start (pi, i) (requested_frequency (processes p ! i)) (current_cpus (part_cgc p)) pp s)
       (\<lambda>(pp, s). Inr (sl, p, pp, s)))))"

definition pending_count :: "partition \<Rightarrow> nat" where
  "pending_count p = length (filter is_pending (processes p))"

lemma length_filter_update_less:
  assumes "i < length xs" and "P (xs ! i)" and "\<not> P y"
  shows "length (filter P (xs[i := y])) < length (filter P xs)"
proof -
  have "length (filter P xs) = length (filter P (take i xs)) + 1 + length (filter P (drop (Suc i) xs))"
    using assms(1,2) by (subst id_take_nth_drop[OF assms(1)]) simp
  moreover have "length (filter P (xs[i := y])) = length (filter P (take i xs)) + length (filter P (drop (Suc i) xs))"
    using assms(1,3) by (simp add: upd_conv_take_nth_drop)
  ultimately show ?thesis by simp
qed

lemma load_next_process_pending:
  assumes "load_next_process (sl, p, pp, s) = Inr (b, sl', p', pp', s')"
    and "running_process sl' = Some i"
  shows "i < length (processes p) \<and> is_pending (processes p ! i) \<and> processes p' = processes p \<and> b"
  using assms seek_pending_Inr
  by (fastforce simp: load_next_process_def bindE_Inr_iff ASSERT_Inr_iff)

text \<open>
  \<open>start_next_process\<close>: a process whose effective budget is zero is marked completed and skipped.
\<close>

function start_next_process ::
  "time_point \<Rightarrow> time_point \<Rightarrow> nat \<Rightarrow> slice_ctx \<Rightarrow> (bool \<times> slice_ctx) result" where
  "start_next_process t0 current_time pi (sl, p, pp, s) =
     bindE (load_next_process (sl, p, pp, s)) (\<lambda>(found, sl, p, pp, s).
     case running_process sl of
       None \<Rightarrow> Inr (False, sl, p, pp, s)
     | Some i \<Rightarrow>
         bindE (get_actual_budget (processes p ! i) s) (\<lambda>(b, s).
         if b = 0
         then start_next_process t0 current_time pi
                (sl\<lparr>running_process := None\<rparr>, upd_proc i mark_completed p, pp, s)
         else bindE (launch_process t0 current_time pi i b (sl, p, pp, s)) (\<lambda>c. Inr (True, c))))"
  by pat_completeness auto
termination
proof (relation "measure (\<lambda>(t0, t, pi, sl, p, pp, s). pending_count p)")
  fix t0 current_time :: time_point and pi :: nat and sl :: slice and p pp s r found c sl' d p' e pp' s' i b f v s''
  assume run: "load_next_process (sl, p, pp, s) = Inr r" "(found, c) = r" "(sl', d) = c" "(p', e) = d" "(pp', s') = e"
    and i: "running_process sl' = Some i"
  then have "load_next_process (sl, p, pp, s) = Inr (found, sl', p', pp', s')" by auto
  from load_next_process_pending[OF this i] show
    "((t0, current_time, pi, sl'\<lparr>running_process := None\<rparr>, upd_proc i mark_completed p', pp', s''),
      (t0, current_time, pi, sl, p, pp, s)) \<in> measure (\<lambda>(t0, t, pi, sl, p, pp, s). pending_count p)"
    by (auto simp: pending_count_def upd_proc_def is_pending_def[abs_def] mark_completed_def
        intro!: length_filter_update_less)
qed simp_all

declare start_next_process.simps [simp del]

definition stop_current_process :: "bool \<Rightarrow> nat \<Rightarrow> slice_ctx \<Rightarrow> slice_ctx result" where
  "stop_current_process mark pi = (\<lambda>(sl, p, pp, s).
     bindE (ASSERT (running_process sl \<noteq> None) ''running_process != nullptr'' s) (\<lambda>s.
     case running_process sl of
       None \<Rightarrow> Inl (Undefined_behaviour ''dereference of running_process == nullptr'')
     | Some i \<Rightarrow>
         let pp = on_process_end (pi, i) pp;
             sl = sl\<lparr>sl_timer := timer_stop (sl_timer sl)\<rparr> in
         bindE (on_proc i suspend p s) (\<lambda>(p, s).
         let p = (if mark then upd_proc i mark_completed p else p) in
         Inr (sl\<lparr>running_process := None\<rparr>, p, pp, s))))"

definition start_partition ::
  "time_point \<Rightarrow> nat \<Rightarrow> completion_cb \<Rightarrow> time_point \<Rightarrow> bool \<Rightarrow> slice_ctx \<Rightarrow> (bool \<times> slice_ctx) result" where
  "start_partition t0 pi completion_cb_cached current_time move_to_first_proc = (\<lambda>(sl, p, pp, s).
     let sl = sl\<lparr>running_partition := Some pi\<rparr> in
     bindE (reset move_to_first_proc (sl_cpus sl) completion_cb_cached p s) (\<lambda>(p, s).
     start_next_process t0 current_time pi (sl, p, pp, s)))"

text \<open>
  The part of \<open>stop\<close> after both partitions are disconnected, for a slice with a running process; the
  flag is what \<open>load_next_process\<close> returned, \<open>True\<close> where it was not called.
\<close>

definition stop_running :: "nat \<Rightarrow> time_point \<Rightarrow> slice_ctx \<Rightarrow> (bool \<times> slice_ctx) result" where
  "stop_running pi current_time = (\<lambda>(sl, p, pp, s).
     case running_process sl of
       None \<Rightarrow> Inr (True, sl, p, pp, s)
     | Some i \<Rightarrow>
         let remaining = duration_cast_ms (sl_timeout sl - current_time) in
         if remaining = 0
         then bindE (stop_current_process True pi (sl, p, pp, s)) load_next_process
         else bindE (if running_partition sl = sl_be sl
                     then on_proc i (set_remaining_budget remaining) p s else Inr (p, s)) (\<lambda>(p, s).
              bindE (stop_current_process False pi (sl, p, pp, s)) (\<lambda>c. Inr (True, c))))"

text \<open>\<open>schedule_next\<close>: the reaction to the slice's timer and to a completion message.\<close>

definition schedule_next ::
  "time_point \<Rightarrow> nat \<Rightarrow> time_point \<Rightarrow> slice_ctx \<Rightarrow> (bool \<times> slice_ctx) result" where
  "schedule_next t0 pi current_time c =
     bindE (stop_current_process True pi c) (start_next_process t0 current_time pi)"

subsection \<open>What the operations keep\<close>

text \<open>
  \<open>ctx_frame\<close>: the constant members of the slice, the callback and the configuration of the
  partition stay, and the system only moves on. \<open>ctx_ok\<close>: the slice's process is the only one of the
  partition the freezer lets run, and the timer is set for its timeout.
\<close>

definition ctx_frame :: "slice_ctx \<Rightarrow> slice_ctx \<Rightarrow> bool" where
  "ctx_frame = (\<lambda>(sl, p, pp, s) (sl', p', pp', s').
     sl_sc sl' = sl_sc sl \<and> sl_be sl' = sl_be sl \<and> sl_cpus sl' = sl_cpus sl \<and> sl_freq sl' = sl_freq sl \<and>
     running_partition sl' = running_partition sl \<and> length (processes p') = length (processes p) \<and>
     part_completed_cb p' = part_completed_cb p \<and> part_conf p' = part_conf p \<and> os_extends s s')"

definition timer_for :: "slice \<Rightarrow> bool" where
  "timer_for sl \<longleftrightarrow> tfd_active (sl_timer sl) \<and> tfd_value (sl_timer sl) = timepointToTimespec (sl_timeout sl)"

definition ctx_ok :: "slice_ctx \<Rightarrow> bool" where
  "ctx_ok = (\<lambda>(sl, p, pp, s). part_ok p \<and> thawed p = set_option (running_process sl) \<and>
     (if running_process sl = None then \<not> tfd_active (sl_timer sl) else timer_for sl))"

lemma ctx_frame_refl [simp]: "ctx_frame c c"
  by (simp add: ctx_frame_def split: prod.splits)

lemma ctx_frame_trans [trans]: "ctx_frame c d \<Longrightarrow> ctx_frame d e \<Longrightarrow> ctx_frame c e"
  by (auto simp: ctx_frame_def split: prod.splits elim: os_extends_trans)

lemma proc_ok_ops [simp]:
  "proc_ok (mark_completed q) = proc_ok q" "proc_ok (reset_budget q) = proc_ok q"
  "proc_ok (q\<lparr>proc_cgf := g\<rparr>) = proc_ok q" "proc_ok (q\<lparr>actual_budget := b\<rparr>) = proc_ok q"
  "proc_ok (q\<lparr>demos_completed := d\<rparr>) = proc_ok q"
  "is_spawned (mark_completed q) = is_spawned q" "is_spawned (reset_budget q) = is_spawned q"
  "is_spawned (q\<lparr>proc_cgf := g\<rparr>) = is_spawned q" "is_spawned (q\<lparr>actual_budget := b\<rparr>) = is_spawned q"
  "is_spawned (q\<lparr>demos_completed := d\<rparr>) = is_spawned q"
  "proc_cgf (mark_completed q) = proc_cgf q" "proc_cgf (reset_budget q) = proc_cgf q"
  by (simp_all add: proc_ok_def mark_completed_def reset_budget_def is_spawned_def)

lemma part_ok_upd_same:
  assumes "part_ok p" and "i < length (processes p)" and "\<And>q. proc_ok (f q) = proc_ok q"
    and "\<And>q. is_spawned (f q) = is_spawned q" and "\<And>q. proc_cgf (f q) = proc_cgf q"
  shows "part_ok (upd_proc i f p) \<and> thawed (upd_proc i f p) = thawed p"
proof
  show "part_ok (upd_proc i f p)" by (rule part_ok_upd_proc[OF assms(1,2)]) (simp_all add: assms)
  show "thawed (upd_proc i f p) = thawed p" using assms(2,5) by (auto simp: thawed_def upd_proc_nth split: if_splits)
qed

lemma load_next_process_ok:
  assumes "load_next_process (sl, p, pp, s) = Inr (b, sl', p', pp', s')" and "part_ok p"
  shows "part_ok p' \<and> processes p' = processes p \<and> sl' = sl\<lparr>running_process := running_process sl'\<rparr> \<and>
    b = (running_process sl' \<noteq> None) \<and> pp' = pp \<and> s' = s \<and>
    sl_timer sl' = sl_timer sl \<and> sl_timeout sl' = sl_timeout sl \<and> thawed p' = thawed p \<and>
    ctx_frame (sl, p, pp, s) (sl', p', pp', s') \<and> (debug s \<longrightarrow> running_process sl = None)"
  using assms by (auto simp: load_next_process_def bindE_Inr_iff ASSERT_Inr_iff ctx_frame_def dest: seek_ok)

lemma launch_process_ok:
  assumes "launch_process t0 t pi i b (sl, p, pp, s) = Inr (sl', p', pp', s')" and "part_ok p"
  shows "i < length (processes p) \<and> part_ok p' \<and> thawed p' = insert i (thawed p) \<and>
    running_process sl' = running_process sl \<and> sl_timeout sl' = t + ns_of_ms b \<and> timer_for sl' \<and>
    ctx_frame (sl, p, pp, s) (sl', p', pp', s')"
proof -
  let ?s = "schedule_log t0 t sl (processes p ! i) b s"
  from assms(1) obtain p1 s1 tm s2 where
    r: "on_proc i resume p ?s = Inr (p1, s1)" and
    tm: "timer_start (t + ns_of_ms b) (sl_timer sl) s1 = Inr (tm, s2)" and
    pp: "on_process_start (pi, i) (requested_frequency (processes (upd_proc i reset_budget p1) ! i))
      (current_cpus (part_cgc (upd_proc i reset_budget p1))) pp s2 = Inr (pp', s')" and
    eq: "sl' = sl\<lparr>sl_timeout := t + ns_of_ms b, sl_timer := tm\<rparr>" "p' = upd_proc i reset_budget p1"
    by (auto simp: launch_process_def Let_def bindE_Inr_iff split: prod.splits)
  from r obtain q where i: "i < length (processes p)" and q: "resume (processes p ! i) ?s = Inr (q, s1)"
    and p1: "p1 = upd_proc i (\<lambda>_. q) p" by (rule on_proc_Inr)
  note q' = resume_Inr[OF q]
  have p1_ok: "part_ok p1" unfolding p1
    using assms(2) i by (rule part_ok_upd_proc) (use q' in auto)
  have p1_thawed: "thawed p1 = insert i (thawed p)" unfolding p1 using i q' by (simp add: thawed_upd_proc)
  have p': "part_ok p' \<and> thawed p' = thawed p1" unfolding eq(2)
    by (rule part_ok_upd_same) (use p1_ok i in \<open>simp_all add: p1\<close>)
  have "os_extends s ?s" by (simp add: schedule_log_def)
  also have "os_extends ?s s1" using q' by simp
  also have "os_extends s1 s2" by (rule timer_start_extends[OF tm])
  also have "os_extends s2 s'" by (rule conjunct1[OF on_process_start_Inr[OF pp]])
  finally have "os_extends s s'" .
  moreover have "part_conf p1 = part_conf p" using q' by (simp add: p1)
  ultimately show ?thesis using p' p1_thawed i tm
    by (auto simp: eq ctx_frame_def p1 timer_for_def timer_start_Inr)
qed

lemma start_next_process_cases:
  assumes "start_next_process t0 t pi (sl, p, pp, s) = Inr (found, c)"
  obtains
    (none) sl1 p1 pp1 s1 where "load_next_process (sl, p, pp, s) = Inr (False, sl1, p1, pp1, s1)"
      "running_process sl1 = None" "\<not> found" "c = (sl1, p1, pp1, s1)"
  | (skip) sl1 p1 pp1 s1 i s2 where "load_next_process (sl, p, pp, s) = Inr (True, sl1, p1, pp1, s1)"
      "running_process sl1 = Some i" "get_actual_budget (processes p1 ! i) s1 = Inr (0, s2)"
      "start_next_process t0 t pi (sl1\<lparr>running_process := None\<rparr>, upd_proc i mark_completed p1, pp1, s2) = Inr (found, c)"
  | (run) sl1 p1 pp1 s1 i b s2 where "load_next_process (sl, p, pp, s) = Inr (True, sl1, p1, pp1, s1)"
      "running_process sl1 = Some i" "get_actual_budget (processes p1 ! i) s1 = Inr (b, s2)" "b \<noteq> 0"
      "launch_process t0 t pi i b (sl1, p1, pp1, s2) = Inr c" "found"
proof -
  from assms obtain fl sl1 p1 pp1 s1 where
    l: "load_next_process (sl, p, pp, s) = Inr (fl, sl1, p1, pp1, s1)"
    by (subst (asm) start_next_process.simps) (auto simp: bindE_Inr_iff split: prod.splits)
  then have fl: "fl = (running_process sl1 \<noteq> None)" by (auto simp: load_next_process_def bindE_Inr_iff)
  show ?thesis
  proof (cases "running_process sl1")
    case None
    with assms l have "(found, c) = (False, sl1, p1, pp1, s1)" by (subst (asm) start_next_process.simps) simp
    with None l fl show ?thesis by (intro none[of sl1 p1 pp1 s1]) auto
  next
    case (Some i)
    with assms l obtain b s2 where g: "get_actual_budget (processes p1 ! i) s1 = Inr (b, s2)"
      by (subst (asm) start_next_process.simps) (auto simp: bindE_Inr_iff split: prod.splits)
    show ?thesis
    proof (cases "b = 0")
      case True
      with assms l Some g fl show ?thesis
        by (intro skip[of sl1 p1 pp1 s1 i s2]; subst (asm) start_next_process.simps) simp_all
    next
      case False
      with assms l Some g fl show ?thesis
        by (intro run[of sl1 p1 pp1 s1 i b s2]; subst (asm) start_next_process.simps) (auto simp: bindE_Inr_iff)
    qed
  qed
qed

lemma pending_count_skip:
  "i < length (processes p) \<Longrightarrow> is_pending (processes p ! i) \<Longrightarrow>
   pending_count (upd_proc i mark_completed p) < pending_count p"
  by (auto simp: pending_count_def upd_proc_def is_pending_def[abs_def] mark_completed_def
      intro!: length_filter_update_less)

lemma load_skip:
  assumes "load_next_process (sl, p, pp, s) = Inr (b, sl1, p1, pp1, s1)" and "running_process sl1 = Some i"
    and "part_ok p"
  shows "i < length (processes p1)" "is_pending (processes p1 ! i)"
    "pending_count (upd_proc i mark_completed p1) < pending_count p"
    "part_ok (upd_proc i mark_completed p1)" "thawed (upd_proc i mark_completed p1) = thawed p"
proof -
  note l = load_next_process_ok[OF assms(1,3)]
  from load_next_process_pending[OF assms(1,2)] l show i: "i < length (processes p1)" "is_pending (processes p1 ! i)"
    by auto
  have "pending_count p1 = pending_count p" using l by (simp add: pending_count_def)
  with pending_count_skip[OF i] show "pending_count (upd_proc i mark_completed p1) < pending_count p" by simp
  have "part_ok (upd_proc i mark_completed p1) \<and> thawed (upd_proc i mark_completed p1) = thawed p1"
    by (rule part_ok_upd_same) (use l i in simp_all)
  with l show "part_ok (upd_proc i mark_completed p1)" "thawed (upd_proc i mark_completed p1) = thawed p" by auto
qed

lemma start_next_process_ok:
  assumes "start_next_process t0 t pi (sl, p, pp, s) = Inr (found, sl', p', pp', s')"
    and "ctx_ok (sl, p, pp, s)" and "running_process sl = None"
  shows "ctx_ok (sl', p', pp', s') \<and> found = (running_process sl' \<noteq> None) \<and>
    ctx_frame (sl, p, pp, s) (sl', p', pp', s')"
  using assms
proof (induction "pending_count p" arbitrary: sl p pp s rule: less_induct)
  case less
  have ok: "part_ok p" "thawed p = {}" "\<not> tfd_active (sl_timer sl)"
    using less.prems(2,3) by (auto simp: ctx_ok_def)
  from less.prems(1) show ?case
  proof (cases rule: start_next_process_cases)
    case (none sl1 p1 pp1 s1)
    with load_next_process_ok[OF none(1) ok(1)] ok show ?thesis by (auto simp: ctx_ok_def)
  next
    case (skip sl1 p1 pp1 s1 i s2)
    let ?c = "(sl1\<lparr>running_process := None\<rparr>, upd_proc i mark_completed p1, pp1, s2)"
    note l = load_next_process_ok[OF skip(1) ok(1)]
    have "ctx_ok ?c" using ok l load_skip[OF skip(1,2) ok(1)] by (simp add: ctx_ok_def)
    from less.hyps[OF load_skip(3)[OF skip(1,2) ok(1)] skip(4) this] have
      IH: "ctx_ok (sl', p', pp', s')" "found = (running_process sl' \<noteq> None)" "ctx_frame ?c (sl', p', pp', s')" by auto
    have "ctx_frame (sl, p, pp, s) ?c"
      using l get_actual_budget_extends[OF skip(3)] by (auto simp: ctx_frame_def)
    with IH show ?thesis by (auto intro: ctx_frame_trans)
  next
    case (run sl1 p1 pp1 s1 i b s2)
    note l = load_next_process_ok[OF run(1) ok(1)]
    from launch_process_ok[OF run(5)] l ok(2) run(2,6) have
      "ctx_ok (sl', p', pp', s')" "found = (running_process sl' \<noteq> None)"
      and fr: "ctx_frame (sl1, p1, pp1, s2) (sl', p', pp', s')" by (auto simp: ctx_ok_def)
    moreover have "ctx_frame (sl, p, pp, s) (sl1, p1, pp1, s2)"
      using l get_actual_budget_extends[OF run(3)] by (auto simp: ctx_frame_def)
    ultimately show ?thesis by (auto intro: ctx_frame_trans)
  qed
qed

text \<open>What was started, and what is left when nothing was.\<close>

definition started_process :: "process \<Rightarrow> process" where
  "started_process q = q\<lparr>demos_completed := False, proc_cgf := (proc_cgf q)\<lparr>frozen := False\<rparr>,
     actual_budget := budget q\<rparr>"

lemma launch_process_proc:
  assumes "launch_process t0 t pi i b (sl, p, pp, s) = Inr (sl', p', pp', s')"
  shows "processes p' = (processes p)[i := started_process (processes p ! i)]"
  using assms
  by (auto simp: launch_process_def Let_def bindE_Inr_iff upd_proc_def reset_budget_def started_process_def
      split: prod.splits elim!: on_proc_Inr dest!: resume_Inr)

lemma start_next_process_found:
  assumes "start_next_process t0 t pi (sl, p, pp, s) = Inr (True, sl', p', pp', s')" and "part_ok p"
  shows "\<exists>i b u v. running_process sl' = Some i \<and> i < length (processes p) \<and> is_pending (processes p ! i) \<and>
    get_actual_budget (processes p ! i) u = Inr (b, v) \<and> debug u = debug s \<and> b \<noteq> 0 \<and>
    sl_timeout sl' = t + ns_of_ms b \<and> timer_for sl' \<and>
    processes p' ! i = started_process (processes p ! i)"
  using assms
proof (induction "pending_count p" arbitrary: sl p pp s rule: less_induct)
  case less
  from less.prems(1) show ?case
  proof (cases rule: start_next_process_cases)
    case (none sl1 p1 pp1 s1)
    then show ?thesis by simp
  next
    case (skip sl1 p1 pp1 s1 i s2)
    note l = load_next_process_ok[OF skip(1) less.prems(2)]
    note sk = load_skip[OF skip(1,2) less.prems(2)]
    from less.hyps[OF sk(3) skip(4) sk(4)] obtain j b u v where
      j: "running_process sl' = Some j" "j < length (processes p1)" "is_pending (processes (upd_proc i mark_completed p1) ! j)"
      "get_actual_budget (processes (upd_proc i mark_completed p1) ! j) u = Inr (b, v)" "debug u = debug s2" "b \<noteq> 0"
      "sl_timeout sl' = t + ns_of_ms b" "timer_for sl'"
      "processes p' ! j = started_process (processes (upd_proc i mark_completed p1) ! j)" by auto
    then have "i \<noteq> j" by (auto simp: upd_proc_nth sk is_pending_def mark_completed_def)
    moreover have "debug s2 = debug s" using get_actual_budget_extends[OF skip(3)] l by (simp add: os_extends_debug)
    ultimately show ?thesis using j l by (auto simp: upd_proc_nth)
  next
    case (run sl1 p1 pp1 s1 i b s2)
    note l = load_next_process_ok[OF run(1) less.prems(2)]
    from launch_process_ok[OF run(5)] l launch_process_proc[OF run(5)] run load_next_process_pending[OF run(1,2)]
    show ?thesis by (intro exI[of _ i] exI[of _ b] exI[of _ s1] exI[of _ s2]) auto
  qed
qed

lemma start_next_process_none:
  assumes "start_next_process t0 t pi (sl, p, pp, s) = Inr (False, sl', p', pp', s')" and "part_ok p"
  shows "\<forall>i < length (processes p'). \<not> is_pending (processes p' ! i)"
  using assms
proof (induction "pending_count p" arbitrary: sl p pp s rule: less_induct)
  case less
  from less.prems(1) show ?case
  proof (cases rule: start_next_process_cases)
    case (none sl1 p1 pp1 s1)
    have cur: "current_proc p < length (processes p)" using less.prems(2) by (simp add: part_ok_def)
    from none(1,2) have "seek_pending_process p = Inr (None, p1)" by (auto simp: load_next_process_def bindE_Inr_iff ASSERT_Inr_iff)
    then have "find (\<lambda>i. is_pending (processes p ! i)) (queue_order p) = None" and "processes p1 = processes p"
      by (auto simp: seek_pending_eq[OF cur] Let_def)
    with none(4) show ?thesis by (auto simp: find_None_iff)
  next
    case (skip sl1 p1 pp1 s1 i s2)
    note sk = load_skip[OF skip(1,2) less.prems(2)]
    from less.hyps[OF sk(3) skip(4) sk(4)] show ?thesis .
  next
    case (run sl1 p1 pp1 s1 i b s2)
    then show ?thesis by simp
  qed
qed

lemma stop_current_process_Inr:
  assumes "stop_current_process mark pi (sl, p, pp, s) = Inr (sl', p', pp', s')"
  obtains i where "running_process sl = Some i" and "i < length (processes p)"
    and "sl' = sl\<lparr>sl_timer := timer_stop (sl_timer sl), running_process := None\<rparr>"
    and "p' = upd_proc i (\<lambda>q. q\<lparr>proc_cgf := (proc_cgf q)\<lparr>frozen := True\<rparr>, completed := mark \<or> completed q\<rparr>) p"
    and "pp' = on_process_end (pi, i) pp" and "os_extends s s'"
proof -
  from assms(1) obtain i q where i: "running_process sl = Some i"
    and q: "on_proc i suspend p s = Inr (q, s')"
    and eq: "sl' = sl\<lparr>sl_timer := timer_stop (sl_timer sl), running_process := None\<rparr>"
      "p' = (if mark then upd_proc i mark_completed q else q)" "pp' = on_process_end (pi, i) pp"
    by (auto simp: stop_current_process_def bindE_Inr_iff ASSERT_Inr_iff Let_def split: option.splits prod.splits)
  from q obtain r where lt: "i < length (processes p)" and r: "suspend (processes p ! i) s = Inr (r, s')"
    and qq: "q = upd_proc i (\<lambda>_. r) p" by (rule on_proc_Inr)
  have r': "r = (processes p ! i)\<lparr>proc_cgf := (proc_cgf (processes p ! i))\<lparr>frozen := True\<rparr>\<rparr>"
    and ext: "os_extends s s'" using r by (auto simp: suspend_Inr dest: CHECK_extends)
  have "p' = upd_proc i (\<lambda>q. q\<lparr>proc_cgf := (proc_cgf q)\<lparr>frozen := True\<rparr>, completed := mark \<or> completed q\<rparr>) p"
    using lt by (auto simp: eq(2) qq r' upd_proc_def mark_completed_def)
  with i lt eq(1,3) ext show ?thesis by (intro that)
qed

lemma stop_current_process_ok:
  assumes "stop_current_process mark pi (sl, p, pp, s) = Inr (sl', p', pp', s')"
    and "part_ok p" and "thawed p = set_option (running_process sl)"
  shows "ctx_ok (sl', p', pp', s') \<and> running_process sl' = None \<and>
    ctx_frame (sl, p, pp, s) (sl', p', pp', s')"
proof -
  let ?f = "\<lambda>q. q\<lparr>proc_cgf := (proc_cgf q)\<lparr>frozen := True\<rparr>, completed := mark \<or> completed q\<rparr>"
  from assms(1) obtain i where i: "running_process sl = Some i" "i < length (processes p)"
    and eq: "sl' = sl\<lparr>sl_timer := timer_stop (sl_timer sl), running_process := None\<rparr>"
      "p' = upd_proc i ?f p" and ext: "os_extends s s'"
    by (rule stop_current_process_Inr)
  have ok: "part_ok p" "thawed p = {i}" using assms(2,3) i(1) by auto
  have "part_ok (upd_proc i ?f p)"
    by (rule part_ok_upd_proc[OF ok(1) i(2)]) (auto simp: proc_ok_def is_spawned_def)
  moreover have "thawed (upd_proc i ?f p) = {}" using ok(2) i(2) by (simp add: thawed_upd_proc)
  ultimately show ?thesis using ext by (simp add: eq ctx_ok_def ctx_frame_def)
qed

lemma schedule_next_ok:
  assumes "schedule_next t0 pi t (sl, p, pp, s) = Inr (found, sl', p', pp', s')"
    and "ctx_ok (sl, p, pp, s)"
  shows "ctx_ok (sl', p', pp', s') \<and> found = (running_process sl' \<noteq> None) \<and>
    ctx_frame (sl, p, pp, s) (sl', p', pp', s')"
proof -
  from assms(1) obtain sl1 p1 pp1 s1 where st: "stop_current_process True pi (sl, p, pp, s) = Inr (sl1, p1, pp1, s1)"
    and run: "start_next_process t0 t pi (sl1, p1, pp1, s1) = Inr (found, sl', p', pp', s')"
    by (auto simp: schedule_next_def bindE_Inr_iff)
  have "part_ok p" "thawed p = set_option (running_process sl)" using assms(2) by (simp_all add: ctx_ok_def)
  note st' = stop_current_process_ok[OF st this]
  have "ctx_ok (sl1, p1, pp1, s1)" "running_process sl1 = None" and fr: "ctx_frame (sl, p, pp, s) (sl1, p1, pp1, s1)"
    using st' by blast+
  from start_next_process_ok[OF run this(1,2)] show ?thesis by (auto intro: ctx_frame_trans[OF fr])
qed

lemma start_partition_ok:
  assumes "start_partition t0 pi cb t first (sl, p, pp, s) = Inr (found, sl', p', pp', s')"
    and "part_ok p" and "thawed p = {}" and "running_process sl = None" and "\<not> tfd_active (sl_timer sl)"
  shows "ctx_ok (sl', p', pp', s') \<and> found = (running_process sl' \<noteq> None) \<and>
    ctx_frame (sl\<lparr>running_partition := Some pi\<rparr>, p\<lparr>part_completed_cb := cb\<rparr>, pp, s) (sl', p', pp', s')"
proof -
  from assms(1) obtain p1 s1 where r: "reset first (sl_cpus sl) cb p s = Inr (p1, s1)"
    and run: "start_next_process t0 t pi (sl\<lparr>running_partition := Some pi\<rparr>, p1, pp, s1) = Inr (found, sl', p', pp', s')"
    by (auto simp: start_partition_def bindE_Inr_iff Let_def)
  note ok = reset_ok[OF r assms(2)]
  have cb: "part_completed_cb p1 = cb" and ext: "os_extends s s1" by (rule reset_Inr[OF r], simp)+
  have "ctx_ok (sl\<lparr>running_partition := Some pi\<rparr>, p1, pp, s1)" using ok assms(3-5) by (simp add: ctx_ok_def)
  from start_next_process_ok[OF run this] assms(4) have
    "ctx_ok (sl', p', pp', s') \<and> found = (running_process sl' \<noteq> None)"
    "ctx_frame (sl\<lparr>running_partition := Some pi\<rparr>, p1, pp, s1) (sl', p', pp', s')" by auto
  moreover have "ctx_frame (sl\<lparr>running_partition := Some pi\<rparr>, p\<lparr>part_completed_cb := cb\<rparr>, pp, s)
      (sl\<lparr>running_partition := Some pi\<rparr>, p1, pp, s1)" using ok cb ext by (simp add: ctx_frame_def)
  ultimately show ?thesis by (blast intro: ctx_frame_trans)
qed

lemma on_proc_remaining_ok:
  assumes "on_proc i (set_remaining_budget r) p s = Inr (q, t)" and "part_ok p"
  shows "part_ok q \<and> thawed q = thawed p \<and> q = upd_proc i (\<lambda>x. x\<lparr>actual_budget := r\<rparr>) p \<and> t = s \<and>
    i < length (processes p) \<and> (debug s \<longrightarrow> 0 < r \<and> r < budget (processes p ! i))"
proof -
  from assms(1) obtain x where lt: "i < length (processes p)"
    and x: "set_remaining_budget r (processes p ! i) s = Inr (x, t)" and q: "q = upd_proc i (\<lambda>_. x) p"
    by (rule on_proc_Inr)
  have q': "q = upd_proc i (\<lambda>x. x\<lparr>actual_budget := r\<rparr>) p"
    using x by (simp add: q upd_proc_def set_remaining_budget_Inr)
  have "part_ok q \<and> thawed q = thawed p" unfolding q'
    by (rule part_ok_upd_same) (use assms(2) lt in simp_all)
  with q' x lt show ?thesis by (simp add: set_remaining_budget_Inr)
qed

lemma stop_running_ok:
  assumes "stop_running pi t (sl, p, pp, s) = Inr (found, sl', p', pp', s')" and "part_ok p"
    and "thawed p = set_option (running_process sl)" and "running_process sl \<noteq> None"
  shows "part_ok p' \<and> thawed p' = {} \<and> \<not> tfd_active (sl_timer sl') \<and>
    ctx_frame (sl, p, pp, s) (sl', p', pp', s')"
proof -
  from assms(4) obtain i where Some: "running_process sl = Some i" by blast
  let ?r = "duration_cast_ms (sl_timeout sl - t)"
  show ?thesis
  proof (cases "?r = 0")
    case True
    with assms(1) Some obtain sl1 p1 pp1 s1 where
      st: "stop_current_process True pi (sl, p, pp, s) = Inr (sl1, p1, pp1, s1)" and
      l: "load_next_process (sl1, p1, pp1, s1) = Inr (found, sl', p', pp', s')"
      by (auto simp: stop_running_def bindE_Inr_iff)
    note st' = stop_current_process_ok[OF st assms(2,3)]
    have p1: "part_ok p1" "thawed p1 = {}" "\<not> tfd_active (sl_timer sl1)"
      and fr: "ctx_frame (sl, p, pp, s) (sl1, p1, pp1, s1)" using st' by (auto simp: ctx_ok_def)
    note l' = load_next_process_ok[OF l p1(1)]
    have "thawed p' = thawed p1" using l' by (simp add: thawed_def)
    with l' p1 fr show ?thesis by (auto intro: ctx_frame_trans[OF fr])
  next
    case False
    with assms(1) Some obtain p1 s1 where
      r: "(if running_partition sl = sl_be sl then on_proc i (set_remaining_budget ?r) p s else Inr (p, s)) = Inr (p1, s1)" and
      st: "stop_current_process False pi (sl, p1, pp, s1) = Inr (sl', p', pp', s')"
      by (auto simp: stop_running_def bindE_Inr_iff Let_def)
    have p1: "part_ok p1 \<and> thawed p1 = thawed p \<and> s1 = s \<and> ctx_frame (sl, p, pp, s) (sl, p1, pp, s1)"
    proof (cases "running_partition sl = sl_be sl")
      case True
      with r have "on_proc i (set_remaining_budget ?r) p s = Inr (p1, s1)" by simp
      from on_proc_remaining_ok[OF this assms(2)] show ?thesis by (auto simp: ctx_frame_def)
    next
      case False
      with r assms(2) show ?thesis by (simp add: ctx_frame_def)
    qed
    then have "part_ok p1" "thawed p1 = set_option (running_process sl)" using assms(3) by auto
    from stop_current_process_ok[OF st this] p1 show ?thesis
      by (auto simp: ctx_ok_def intro: ctx_frame_trans)
  qed
qed

subsection \<open>Operations that cannot fail\<close>

text \<open>The policies whose handlers do nothing.\<close>

fun pp_silent :: "power_policy \<Rightarrow> bool" where
  "pp_silent PowerPolicy_None = True"
| "pp_silent (PowerPolicy_FixedLow pm) = True"
| "pp_silent (PowerPolicy_FixedHigh pm) = True"
| "pp_silent (PowerPolicy_Imx8_Fixed pm) = True"
| "pp_silent _ = False"

lemma pp_silent_handlers [simp]:
  "pp_silent pp \<Longrightarrow> on_process_start r req cpus pp s = Inr (pp, s)"
  "pp_silent pp \<Longrightarrow> on_process_end r pp = pp"
  "pp_silent pp \<Longrightarrow> on_window_start win pp s = Inr (pp, s)"
  "pp_silent pp \<Longrightarrow> on_sc_start pp s = Inr (pp, s)" "pp_silent pp \<Longrightarrow> on_be_start pp s = Inr (pp, s)"
  by (cases pp; simp)+

text \<open>A stored remaining budget is positive and shorter than the full one.\<close>

definition budgets_ok :: "partition \<Rightarrow> bool" where
  "budgets_ok p \<longleftrightarrow> (\<forall>q \<in> set (processes p). 0 < actual_budget q \<or> actual_budget q = budget q)"

lemma budgets_ok_upd_proc:
  "budgets_ok p \<Longrightarrow> i < length (processes p) \<Longrightarrow>
   (0 < actual_budget (processes p ! i) \<or> actual_budget (processes p ! i) = budget (processes p ! i) \<Longrightarrow>
    0 < actual_budget (f (processes p ! i)) \<or> actual_budget (f (processes p ! i)) = budget (f (processes p ! i))) \<Longrightarrow>
   budgets_ok (upd_proc i f p)"
  using set_update_subset_insert[of "processes p" i "f (processes p ! i)"]
  by (fastforce simp: budgets_ok_def upd_proc_def)

lemma launch_process_total:
  assumes "io_ok s" and "pp_silent pp" and "i < length (processes p)" and "is_spawned (processes p ! i)"
  shows "\<exists>sl' p' s'. launch_process t0 t pi i b (sl, p, pp, s) = Inr (sl', p', pp, s')"
proof -
  let ?s = "schedule_log t0 t sl (processes p ! i) b s"
  have "io_ok ?s" using assms(1) by (simp add: schedule_log_def)
  then obtain s1 where r: "resume (processes p ! i) ?s = Inr ((processes p ! i)\<lparr>demos_completed := False,
      proc_cgf := (proc_cgf (processes p ! i))\<lparr>frozen := False\<rparr>\<rparr>, s1)" "os_extends ?s s1"
    using io_ok_resume[OF _ assms(4)] by blast
  then have "io_ok s1" using \<open>io_ok ?s\<close> by (simp add: os_extends_io_ok)
  then obtain s2 where "timer_start (t + ns_of_ms b) (sl_timer sl) s1 = Inr ((sl_timer sl)\<lparr>tfd_value :=
      timepointToTimespec (t + ns_of_ms b), tfd_active := True\<rparr>, s2)" using io_ok_timer_start by blast
  with r assms(2,3) show ?thesis by (simp add: launch_process_def on_proc_def Let_def)
qed

lemma start_next_process_total:
  assumes "io_ok s" and "pp_silent pp" and "part_ok p" and "budgets_ok p" and "running_process sl = None"
  shows "\<exists>found sl' p' s'. start_next_process t0 t pi (sl, p, pp, s) = Inr (found, sl', p', pp, s') \<and> budgets_ok p'"
  using assms
proof (induction "pending_count p" arbitrary: sl p s rule: less_induct)
  case less
  have cur: "current_proc p < length (processes p)" using less.prems(3) by (simp add: part_ok_def)
  then obtain r p1 where seek: "seek_pending_process p = Inr (r, p1)" using seek_pending_total by blast
  let ?sl = "sl\<lparr>running_process := r\<rparr>"
  have l: "load_next_process (sl, p, pp, s) = Inr (r \<noteq> None, ?sl, p1, pp, s)"
    using seek less.prems(5) by (simp add: load_next_process_def)
  have procs: "processes p1 = processes p" using load_next_process_ok[OF l less.prems(3)] by simp
  then have bo: "budgets_ok p1" using less.prems(4) by (simp add: budgets_ok_def)
  show ?case
  proof (cases r)
    case None
    with l bo show ?thesis by (subst start_next_process.simps) (auto intro: exI[of _ False])
  next
    case (Some i)
    then have ri: "running_process ?sl = Some i" by simp
    note sk = load_skip[OF l ri less.prems(3)]
    have mem: "processes p1 ! i \<in> set (processes p1)" using sk(1) by simp
    have "proc_ok (processes p1 ! i)" using mem procs less.prems(3) by (simp add: part_ok_def)
    moreover have "budget (processes p1 ! i) \<noteq> actual_budget (processes p1 ! i) \<longrightarrow> 0 < actual_budget (processes p1 ! i)"
      using mem bo by (auto simp: budgets_ok_def)
    ultimately obtain b s2 where g: "get_actual_budget (processes p1 ! i) s = Inr (b, s2)" "os_extends s s2"
      using get_actual_budget_total by blast
    have spawned: "is_spawned (processes p1 ! i)" using sk(2) by (simp add: is_pending_def)
    have io: "io_ok s2" using g(2) less.prems(1) by (simp add: os_extends_io_ok)
    show ?thesis
    proof (cases "b = 0")
      case True
      have "budgets_ok (upd_proc i mark_completed p1)"
        using bo sk(1) by (rule budgets_ok_upd_proc) (simp add: mark_completed_def)
      from less.hyps[OF sk(3) io less.prems(2) sk(4) this, of "?sl\<lparr>running_process := None\<rparr>"] True l Some g(1)
      show ?thesis by (subst start_next_process.simps) simp
    next
      case False
      obtain sl' p' s' where la: "launch_process t0 t pi i b (?sl, p1, pp, s2) = Inr (sl', p', pp, s')"
        using launch_process_total[OF io less.prems(2) sk(1) spawned] by blast
      have "budgets_ok (upd_proc i started_process p1)"
        using bo sk(1) by (rule budgets_ok_upd_proc) (simp add: started_process_def)
      then have "budgets_ok p'" using launch_process_proc[OF la] by (simp add: budgets_ok_def upd_proc_def)
      with la False l Some g(1) show ?thesis by (subst start_next_process.simps) (auto intro: exI[of _ True])
    qed
  qed
qed

lemma stop_current_process_total:
  assumes "io_ok s" and "running_process sl = Some i" and "i < length (processes p)" and "budgets_ok p"
  shows "\<exists>sl' p' pp' s'. stop_current_process mark pi (sl, p, pp, s) = Inr (sl', p', pp', s') \<and> budgets_ok p'"
proof -
  obtain s1 where s1: "suspend (processes p ! i) s =
      Inr ((processes p ! i)\<lparr>proc_cgf := (proc_cgf (processes p ! i))\<lparr>frozen := True\<rparr>\<rparr>, s1)"
    using io_ok_suspend[OF assms(1)] by blast
  then obtain sl' p' pp' s' where run: "stop_current_process mark pi (sl, p, pp, s) = Inr (sl', p', pp', s')"
    using assms(2,3) by (simp add: stop_current_process_def on_proc_def Let_def)
  let ?f = "\<lambda>q. q\<lparr>proc_cgf := (proc_cgf q)\<lparr>frozen := True\<rparr>, completed := mark \<or> completed q\<rparr>"
  from run obtain j where "j < length (processes p)" "p' = upd_proc j ?f p" by (rule stop_current_process_Inr)
  then have "budgets_ok p'" by (auto intro!: budgets_ok_upd_proc[OF assms(4)])
  with run show ?thesis by blast
qed

subsection \<open>Properties\<close>

text \<open>
  C25. When a slice starts a process, it is a pending process of the running partition and the only
  one the freezer lets run; its timer is set for exactly the start time plus the effective budget,
  which is the stored remaining budget or lies within the jitter of the configured one; the
  configured budget is restored for the next window. When nothing is started, no process of the
  partition is pending any more and none runs.
\<close>

theorem start_next_process_correct:
  assumes "start_next_process t0 t pi (sl, p, pp, s) = Inr (found, sl', p', pp', s')"
    and "ctx_ok (sl, p, pp, s)" and "running_process sl = None"
  shows "if found
    then \<exists>i b. running_process sl' = Some i \<and> i < length (processes p) \<and> is_pending (processes p ! i) \<and>
      thawed p' = {i} \<and> sl_timeout sl' = t + ns_of_ms b \<and> timer_for sl' \<and> b \<noteq> 0 \<and>
      (if actual_budget (processes p ! i) \<noteq> budget (processes p ! i) then b = actual_budget (processes p ! i)
       else budget (processes p ! i) + jitter_lo (processes p ! i) \<le> b \<and>
            b \<le> budget (processes p ! i) + jitter_hi (processes p ! i)) \<and>
      actual_budget (processes p' ! i) = budget (processes p ! i)
    else running_process sl' = None \<and> thawed p' = {} \<and> \<not> tfd_active (sl_timer sl') \<and>
      (\<forall>i < length (processes p'). \<not> is_pending (processes p' ! i))"
proof (cases found)
  case True
  have ok: "part_ok p" using assms(2) by (simp add: ctx_ok_def)
  note after = start_next_process_ok[OF assms]
  have "start_next_process t0 t pi (sl, p, pp, s) = Inr (True, sl', p', pp', s')" using assms(1) True by simp
  from start_next_process_found[OF this ok] obtain i b u v where
    i: "running_process sl' = Some i" "i < length (processes p)" "is_pending (processes p ! i)"
      "get_actual_budget (processes p ! i) u = Inr (b, v)" "b \<noteq> 0" "sl_timeout sl' = t + ns_of_ms b"
      "timer_for sl'" "processes p' ! i = started_process (processes p ! i)" by blast
  have "proc_ok (processes p ! i)" using ok i(2) by (simp add: part_ok_def)
  then have range: "jitter_lo (processes p ! i) \<le> jitter_hi (processes p ! i)" by (simp add: proc_ok_def)
  have "if actual_budget (processes p ! i) \<noteq> budget (processes p ! i) then b = actual_budget (processes p ! i)
       else budget (processes p ! i) + jitter_lo (processes p ! i) \<le> b \<and>
            b \<le> budget (processes p ! i) + jitter_hi (processes p ! i)"
    using i(4) uniform_int_range[OF range]
    by (fastforce simp: get_actual_budget_def bindE_Inr_iff ASSERT_Inr_iff Let_def split: if_splits prod.splits)
  moreover have "thawed p' = {i}" using after i(1) by (simp add: ctx_ok_def)
  moreover have "actual_budget (processes p' ! i) = budget (processes p ! i)" using i(8) by (simp add: started_process_def)
  ultimately show ?thesis using i(1-3,5-7)
    unfolding if_P[OF True] by (intro exI[of _ i] exI[of _ b] conjI)
next
  case False
  have ok: "part_ok p" using assms(2) by (simp add: ctx_ok_def)
  have "start_next_process t0 t pi (sl, p, pp, s) = Inr (False, sl', p', pp', s')" using assms(1) False by simp
  from False start_next_process_ok[OF assms] start_next_process_none[OF this ok] show ?thesis
    by (auto simp: ctx_ok_def split: if_splits)
qed


text \<open>
  C13. An error at the end of a window. A best-effort process whose own timeout passed at least a millisecond before
  the window is stopped (the event loop was late and served the window timer first) makes a debug build fail the
  assertion on the remaining budget. A release build, where stopping it succeeds, stores a negative budget for it.
\<close>

theorem late_window_end_negative_budget:
  assumes "running_process sl = Some i" and "i < length (processes p)"
    and "running_partition sl = sl_be sl" and "sl_timeout sl + 1000000 \<le> t"
  shows "if debug s
    then stop_running pi t (sl, p, pp, s) = Inl (Assertion_error ''next_budget > next_budget.zero()'')
    else \<forall>b sl' p' pp' s'. stop_running pi t (sl, p, pp, s) = Inr (b, sl', p', pp', s') \<longrightarrow>
      actual_budget (processes p' ! i) < 0"
proof -
  let ?r = "duration_cast_ms (sl_timeout sl - t)"
  have neg: "?r < 0"
    using assms(4) by (auto simp: duration_cast_ms_def signed_divide_int_def sgn_if pos_imp_zdiv_pos_iff)
  have "\<not> debug s \<Longrightarrow> set_remaining_budget ?r (processes p ! i) s = Inr ((processes p ! i)\<lparr>actual_budget := ?r\<rparr>, s)"
    by (simp add: set_remaining_budget_def ASSERT_def)
  with assms neg show ?thesis
    by (auto simp: stop_running_def on_proc_def set_remaining_budget_def ASSERT_def Let_def bindE_Inr_iff
        upd_proc_nth elim!: stop_current_process_Inr)
qed

text \<open>
  A completion message that reaches a slice with no running process (sent by a process that was
  suspended before the message was read) fails an assertion in a debug build and dereferences a
  null pointer in a release build.
\<close>

lemma stale_completion_fails:
  assumes "running_process sl = None"
  shows "schedule_next t0 pi t (sl, p, pp, s) =
    Inl (if debug s then Assertion_error ''running_process != nullptr''
         else Undefined_behaviour ''dereference of running_process == nullptr'')"
  using assms by (simp add: schedule_next_def stop_current_process_def ASSERT_def)

subsection \<open>Concrete runs\<close>

definition demo_slice :: "nat option \<Rightarrow> nat option \<Rightarrow> slice" where
  "demo_slice sc be = \<lparr>sl_sc = sc, sl_be = be, sl_cpus = 1, sl_freq = None, running_process = None,
     running_partition = None, sl_timeout = time_point_min,
     sl_timer = \<lparr>tfd_value = (0, 0), tfd_active = False\<rparr>\<rparr>"

text \<open>A slice that runs the first process of its best-effort partition until 5 ms.\<close>

definition demo_running :: slice where
  "demo_running = (demo_slice None (Some 0))\<lparr>running_process := Some 0, running_partition := Some 0,
     sl_timeout := 5000000, sl_timer := \<lparr>tfd_value = (0, 5000000), tfd_active = True\<rparr>\<rparr>"

definition demo_running_part :: partition where
  "demo_running_part = demo_partition [(demo_process ''be'' 5)\<lparr>proc_cgf :=
     \<lparr>cg_remove = True, cg_path = ''/f'', frozen = False\<rparr>\<rparr>]"

lemmas demo_simps = demo_slice_def demo_partition_def demo_process_def demo_running_def demo_running_part_def

lemma demo_running_ok: "ctx_ok (demo_running, demo_running_part, PowerPolicy_None, quiet_os d)"
  by (auto simp: ctx_ok_def part_ok_def proc_ok_def is_spawned_def thawed_def timer_for_def
      timepointToTimespec_def ns_per_sec_def demo_simps)

theorem start_next_process_correct_witness:
  "\<exists>sl' p' s'. start_next_process 0 0 0 (demo_slice (Some 0) None,
       demo_partition [demo_process ''a'' 5], PowerPolicy_None, quiet_os True) = Inr (True, sl', p', PowerPolicy_None, s') \<and>
     running_process sl' = Some 0 \<and> thawed p' = {0} \<and> sl_timeout sl' = 5000000"
proof -
  let ?c = "(demo_slice (Some 0) None, demo_partition [demo_process ''a'' 5], PowerPolicy_None, quiet_os True)"
  have ok: "ctx_ok ?c" "running_process (demo_slice (Some 0) None) = None"
    by (auto simp: ctx_ok_def part_ok_def proc_ok_def is_spawned_def thawed_def demo_simps)
  have "budgets_ok (demo_partition [demo_process ''a'' 5])" by (simp add: budgets_ok_def demo_simps)
  then obtain found sl' p' s' where run: "start_next_process 0 0 0 ?c = Inr (found, sl', p', PowerPolicy_None, s')"
    using start_next_process_total[of "quiet_os True" PowerPolicy_None "demo_partition [demo_process ''a'' 5]"
        "demo_slice (Some 0) None" 0 0 0] ok by (auto simp: ctx_ok_def)
  have "found" using run by (cases rule: start_next_process_cases)
      (auto simp: load_next_process_def seek_pending_process_def get_actual_budget_def demo_simps uniform_int_def
        is_pending_def is_spawned_def bindE_Inr_iff ASSERT_Inr_iff quiet_os_def)
  with start_next_process_correct[OF run ok] obtain i b where "running_process sl' = Some i" "thawed p' = {i}"
    "i < 1" "sl_timeout sl' = ns_of_ms b" "b = 5" by (auto simp: demo_simps)
  with run \<open>found\<close> show ?thesis by (intro exI[of _ sl'] exI[of _ p'] exI[of _ s']) (auto simp: ns_of_ms_def)
qed


theorem late_window_end_negative_budget_witness:
  "stop_running 0 7000000 (demo_running, demo_running_part, PowerPolicy_None, quiet_os True) =
     Inl (Assertion_error ''next_budget > next_budget.zero()'')"
  using late_window_end_negative_budget[of demo_running 0 demo_running_part 7000000 "quiet_os True" 0 PowerPolicy_None]
  by (simp add: demo_simps)

lemma stale_completion_fails_witness:
  "schedule_next 0 0 0 (demo_slice None (Some 0), demo_running_part, PowerPolicy_None, quiet_os True) =
     Inl (Assertion_error ''running_process != nullptr'')"
  using stale_completion_fails[of "demo_slice None (Some 0)" 0 0 0 demo_running_part PowerPolicy_None "quiet_os True"]
  by (simp add: demo_simps)

end
