(* ===== verification/Window.thy ===== *)
theory Window
  imports Slice
begin

text \<open>
  Windows (\<open>src/src/window.cpp\<close>, \<open>src/src/window.hpp\<close>) and the methods of \<open>Slice\<close> that call
  \<open>sc_done_cb\<close>. The objects of the program that point at each other are kept in a \<open>store\<close>: the
  list of partitions, the list of windows with their slices, the power policy, the system and the
  static \<open>Slice::start_time\<close>. A pointer is an index; an index with nothing behind it is a dangling
  pointer and its use undefined behaviour. Later theories extend the record with the state of the
  major frame, the partition manager and the scheduler.

  \<open>Window::slice_sc_end_cb\<close> starts the best-effort partitions, which may call it again (when a
  slice has the same partition in both roles), so it is defined with fuel: every nested call comes
  after an increment of \<open>finished_sc_partitions\<close>, and only the call that makes it equal to the
  number of slices starts anything, hence two levels are enough (\<open>slice_sc_end_cb_fuel\<close>).
\<close>

record window =
  win_length :: milliseconds
  finished_sc_partitions :: nat
  stopping :: bool
  slices :: "slice list"

record store =
  partitions :: "partition list"
  windows :: "window list"
  st_policy :: power_policy
  st_os :: os
  start_time :: time_point

definition the_slice :: "nat \<Rightarrow> nat \<Rightarrow> 'a store_scheme \<Rightarrow> slice" where
  "the_slice wi si w = slices (windows w ! wi) ! si"

definition valid_slice :: "nat \<Rightarrow> nat \<Rightarrow> 'a store_scheme \<Rightarrow> bool" where
  "valid_slice wi si w \<longleftrightarrow> wi < length (windows w) \<and> si < length (slices (windows w ! wi))"

definition upd_window :: "nat \<Rightarrow> (window \<Rightarrow> window) \<Rightarrow> 'a store_scheme \<Rightarrow> 'a store_scheme" where
  "upd_window wi f w = w\<lparr>windows := (windows w)[wi := f (windows w ! wi)]\<rparr>"

definition upd_slice :: "nat \<Rightarrow> nat \<Rightarrow> (slice \<Rightarrow> slice) \<Rightarrow> 'a store_scheme \<Rightarrow> 'a store_scheme" where
  "upd_slice wi si f w =
     upd_window wi (\<lambda>win. win\<lparr>slices := (slices win)[si := f (slices win ! si)]\<rparr>) w"

definition upd_part :: "nat \<Rightarrow> (partition \<Rightarrow> partition) \<Rightarrow> 'a store_scheme \<Rightarrow> 'a store_scheme" where
  "upd_part pi f w = w\<lparr>partitions := (partitions w)[pi := f (partitions w ! pi)]\<rparr>"

text \<open>An operation of \<open>Slice\<close> on a slice and one of its partitions.\<close>

definition get_ctx :: "nat \<Rightarrow> nat \<Rightarrow> nat \<Rightarrow> 'a store_scheme \<Rightarrow> slice_ctx" where
  "get_ctx wi si pi w = (the_slice wi si w, partitions w ! pi, st_policy w, st_os w)"

definition put_ctx :: "nat \<Rightarrow> nat \<Rightarrow> nat \<Rightarrow> slice_ctx \<Rightarrow> 'a store_scheme \<Rightarrow> 'a store_scheme" where
  "put_ctx wi si pi = (\<lambda>(sl, p, pp, s) w.
     (upd_slice wi si (\<lambda>_. sl) (upd_part pi (\<lambda>_. p) w))\<lparr>st_policy := pp, st_os := s\<rparr>)"

definition on_slice ::
  "nat \<Rightarrow> nat \<Rightarrow> nat \<Rightarrow> (slice_ctx \<Rightarrow> (bool \<times> slice_ctx) result) \<Rightarrow>
   'a store_scheme \<Rightarrow> (bool \<times> 'a store_scheme) result" where
  "on_slice wi si pi f w =
     (if valid_slice wi si w \<and> pi < length (partitions w)
      then bindE (f (get_ctx wi si pi w)) (\<lambda>(r, c). Inr (r, put_ctx wi si pi c w))
      else Inl (Undefined_behaviour ''dangling pointer''))"

definition on_policy ::
  "(power_policy \<Rightarrow> os \<Rightarrow> (power_policy \<times> os) result) \<Rightarrow> 'a store_scheme \<Rightarrow> 'a store_scheme result" where
  "on_policy f w = bindE (f (st_policy w) (st_os w)) (\<lambda>(pp, s). Inr (w\<lparr>st_policy := pp, st_os := s\<rparr>))"

text \<open>What the power policy reads of the slices of a window.\<close>

definition slice_view_of :: "'a store_scheme \<Rightarrow> slice \<Rightarrow> slice_view" where
  "slice_view_of w sl = \<lparr>sv_cpus = sl_cpus sl, sv_freq = sl_freq sl,
     sv_proc_freqs = concat (map (\<lambda>r. case r of None \<Rightarrow> []
       | Some pi \<Rightarrow> map requested_frequency (processes (partitions w ! pi))) [sl_sc sl, sl_be sl])\<rparr>"

subsection \<open>Slices with their callback\<close>

type_synonym 'a sc_done_cb = "time_point \<Rightarrow> 'a store_scheme \<Rightarrow> 'a store_scheme result"

definition start_sc :: "'a sc_done_cb \<Rightarrow> nat \<Rightarrow> nat \<Rightarrow> time_point \<Rightarrow> 'a store_scheme \<Rightarrow> 'a store_scheme result" where
  "start_sc sc_done wi si current_time w =
     (case sl_sc (the_slice wi si w) of
        None \<Rightarrow> sc_done current_time w
      | Some pi \<Rightarrow>
          bindE (on_slice wi si pi (start_partition (start_time w) pi (Cb_slice wi si) current_time True) w)
            (\<lambda>(found, w). if found then Inr w else sc_done current_time w))"

definition start_be :: "'a sc_done_cb \<Rightarrow> nat \<Rightarrow> nat \<Rightarrow> time_point \<Rightarrow> 'a store_scheme \<Rightarrow> 'a store_scheme result" where
  "start_be sc_done wi si current_time w =
     (case sl_be (the_slice wi si w) of
        None \<Rightarrow> Inr w
      | Some pi \<Rightarrow>
          bindE (on_slice wi si pi (start_partition (start_time w) pi (Cb_slice wi si) current_time False) w)
            (\<lambda>(found, w). if \<not> found \<and> Some pi = sl_sc (the_slice wi si w)
                          then sc_done current_time w else Inr w))"

definition disconnect_part :: "nat option \<Rightarrow> 'a store_scheme \<Rightarrow> 'a store_scheme result" where
  "disconnect_part r w =
     (case r of None \<Rightarrow> Inr w
      | Some pi \<Rightarrow> if pi < length (partitions w) then Inr (upd_part pi disconnect w)
                  else Inl (Undefined_behaviour ''dangling pointer''))"

definition slice_stop :: "'a sc_done_cb \<Rightarrow> nat \<Rightarrow> nat \<Rightarrow> time_point \<Rightarrow> 'a store_scheme \<Rightarrow> 'a store_scheme result" where
  "slice_stop sc_done wi si current_time w =
     (let w = upd_slice wi si (\<lambda>sl. sl\<lparr>sl_timer := timer_stop (sl_timer sl)\<rparr>) w;
          sl = the_slice wi si w in
      bindE (disconnect_part (sl_sc sl) w) (\<lambda>w.
      bindE (disconnect_part (sl_be sl) w) (\<lambda>w.
      case (running_process sl, running_partition sl) of
        (None, _) \<Rightarrow> Inr w
      | (Some _, None) \<Rightarrow> Inl (Undefined_behaviour ''null pointer'')
      | (Some _, Some pi) \<Rightarrow>
          bindE (on_slice wi si pi (stop_running pi current_time) w) (\<lambda>(found, w).
          bindE (if \<not> found \<and> running_partition sl = sl_sc sl then sc_done current_time w else Inr w) (\<lambda>w.
          Inr (upd_slice wi si (\<lambda>sl. sl\<lparr>running_process := None\<rparr>) w))))))"

text \<open>\<open>schedule_next\<close>; without a running partition there is no running process either.\<close>

definition slice_schedule_next ::
  "'a sc_done_cb \<Rightarrow> nat \<Rightarrow> nat \<Rightarrow> time_point \<Rightarrow> 'a store_scheme \<Rightarrow> 'a store_scheme result" where
  "slice_schedule_next sc_done wi si current_time w =
     (case running_partition (the_slice wi si w) of
        None \<Rightarrow> bindE (ASSERT False ''running_process != nullptr'' (st_os w)) (\<lambda>_.
                Inl (Undefined_behaviour ''dereference of running_process == nullptr''))
      | Some pi \<Rightarrow>
          bindE (on_slice wi si pi (schedule_next (start_time w) pi current_time) w) (\<lambda>(found, w).
          if \<not> found \<and> Some pi = sl_sc (the_slice wi si w) then sc_done current_time w else Inr w))"

subsection \<open>Windows\<close>

definition window_new :: "milliseconds \<Rightarrow> window" where
  "window_new len = \<lparr>win_length = len, finished_sc_partitions = 0, stopping = False, slices = []\<rparr>"

definition add_slice ::
  "nat option \<Rightarrow> nat option \<Rightarrow> cpu_set \<Rightarrow> cpu_freq option \<Rightarrow> window \<Rightarrow> os \<Rightarrow> (window \<times> os) result" where
  "add_slice sc be cpus req_freq win s =
     bindE (slice_new sc be req_freq cpus s) (\<lambda>(sl, s). Inr (win\<lparr>slices := slices win @ [sl]\<rparr>, s))"

definition has_sc_finished :: "window \<Rightarrow> bool" where
  "has_sc_finished win \<longleftrightarrow> finished_sc_partitions win = length (slices win)"

definition for_slices ::
  "(nat \<Rightarrow> 'a store_scheme \<Rightarrow> 'a store_scheme result) \<Rightarrow> nat \<Rightarrow> 'a store_scheme \<Rightarrow> 'a store_scheme result" where
  "for_slices f wi w = foldE f [0..<length (slices (windows w ! wi))] w"

fun slice_sc_end_cb :: "nat \<Rightarrow> nat \<Rightarrow> 'a sc_done_cb" where
  "slice_sc_end_cb 0 wi current_time w = Inl Out_of_fuel"
| "slice_sc_end_cb (Suc fuel) wi current_time w =
     (let w = upd_window wi (\<lambda>win. win\<lparr>finished_sc_partitions := Suc (finished_sc_partitions win)\<rparr>) w in
      if stopping (windows w ! wi) then Inr w
      else if has_sc_finished (windows w ! wi)
      then bindE (for_slices (\<lambda>si. start_be (slice_sc_end_cb fuel wi) wi si current_time) wi w)
             (on_policy on_be_start)
      else Inr w)"

abbreviation sc_done :: "nat \<Rightarrow> 'a sc_done_cb" where
  "sc_done wi \<equiv> slice_sc_end_cb 2 wi"

definition window_start :: "nat \<Rightarrow> time_point \<Rightarrow> 'a store_scheme \<Rightarrow> 'a store_scheme result" where
  "window_start wi current_time w =
     (let w = upd_window wi (\<lambda>win. win\<lparr>finished_sc_partitions := 0\<rparr>) w in
      bindE (for_slices (\<lambda>si. start_sc (sc_done wi) wi si current_time) wi w) (\<lambda>w.
      bindE (on_policy (on_window_start (map (slice_view_of w) (slices (windows w ! wi)))) w)
        (on_policy on_sc_start)))"

definition window_stop :: "nat \<Rightarrow> time_point \<Rightarrow> 'a store_scheme \<Rightarrow> 'a store_scheme result" where
  "window_stop wi current_time w =
     bindE (on_policy on_window_end w) (\<lambda>w.
     let w = upd_window wi (\<lambda>win. win\<lparr>stopping := True\<rparr>) w in
     bindE (for_slices (\<lambda>si. slice_stop (sc_done wi) wi si current_time) wi w) (\<lambda>w.
     Inr (upd_window wi (\<lambda>win. win\<lparr>stopping := False\<rparr>) w)))"

subsection \<open>The store\<close>

lemma upd_window_simps [simp]:
  "partitions (upd_window wi f w) = partitions w" "st_policy (upd_window wi f w) = st_policy w"
  "st_os (upd_window wi f w) = st_os w" "start_time (upd_window wi f w) = start_time w"
  "store.more (upd_window wi f w) = store.more w"
  "length (windows (upd_window wi f w)) = length (windows w)"
  by (simp_all add: upd_window_def)

lemma windows_upd_window: "wj < length (windows w) \<Longrightarrow>
    windows (upd_window wi f w) ! wj = (if wi = wj then f (windows w ! wj) else windows w ! wj)"
  by (auto simp: upd_window_def)

lemma upd_part_simps [simp]:
  "windows (upd_part pi f w) = windows w" "st_policy (upd_part pi f w) = st_policy w"
  "st_os (upd_part pi f w) = st_os w" "start_time (upd_part pi f w) = start_time w"
  "store.more (upd_part pi f w) = store.more w"
  "length (partitions (upd_part pi f w)) = length (partitions w)"
  by (simp_all add: upd_part_def)

lemma partitions_upd_part: "pj < length (partitions w) \<Longrightarrow>
    partitions (upd_part pi f w) ! pj = (if pi = pj then f (partitions w ! pj) else partitions w ! pj)"
  by (auto simp: upd_part_def)

lemma upd_slice_simps [simp]:
  "partitions (upd_slice wi si f w) = partitions w" "st_policy (upd_slice wi si f w) = st_policy w"
  "st_os (upd_slice wi si f w) = st_os w" "start_time (upd_slice wi si f w) = start_time w"
  "store.more (upd_slice wi si f w) = store.more w"
  "length (windows (upd_slice wi si f w)) = length (windows w)"
  by (simp_all add: upd_slice_def)

lemma windows_upd_slice: "wj < length (windows w) \<Longrightarrow>
    windows (upd_slice wi si f w) ! wj = (if wi = wj
      then (windows w ! wj)\<lparr>slices := (slices (windows w ! wj))[si := f (slices (windows w ! wj) ! si)]\<rparr>
      else windows w ! wj)"
  by (simp add: upd_slice_def windows_upd_window)

lemma the_slice_upd_slice: "valid_slice wi sj w \<Longrightarrow>
    the_slice wi sj (upd_slice wi si f w) = (if si = sj then f (the_slice wi sj w) else the_slice wi sj w)"
  by (auto simp: the_slice_def windows_upd_slice valid_slice_def)

text \<open>
  The parts of the store that never change, and the relation between two stores of which the
  second follows from the first by operations of the window \<open>wi\<close>.
\<close>

definition slice_conf :: "slice \<Rightarrow> nat option \<times> nat option \<times> cpu_set \<times> cpu_freq option" where
  "slice_conf sl = (sl_sc sl, sl_be sl, sl_cpus sl, sl_freq sl)"

definition shape :: "'a store_scheme \<Rightarrow>
  time_point \<times> part_config list \<times> (milliseconds \<times> (nat option \<times> nat option \<times> cpu_set \<times> cpu_freq option) list) list" where
  "shape w = (start_time w, map part_conf (partitions w),
     map (\<lambda>win. (win_length win, map slice_conf (slices win))) (windows w))"

definition evolves :: "nat \<Rightarrow> 'a store_scheme \<Rightarrow> 'a store_scheme \<Rightarrow> bool" where
  "evolves wi w w' \<longleftrightarrow> shape w' = shape w \<and> os_extends (st_os w) (st_os w') \<and> store.more w' = store.more w \<and>
     (\<forall>wj. wj \<noteq> wi \<longrightarrow> windows w' ! wj = windows w ! wj) \<and>
     stopping (windows w' ! wi) = stopping (windows w ! wi)"

lemma evolves_refl [simp]: "evolves wi w w"
  by (simp add: evolves_def)

lemma evolves_trans [trans]: "evolves wi w w' \<Longrightarrow> evolves wi w' w'' \<Longrightarrow> evolves wi w w''"
  by (auto simp: evolves_def elim: os_extends_trans)

lemma shape_lengths:
  assumes "shape w' = shape w"
  shows "length (partitions w') = length (partitions w)" "length (windows w') = length (windows w)"
    "start_time w' = start_time w"
    "wj < length (windows w) \<Longrightarrow> length (slices (windows w' ! wj)) = length (slices (windows w ! wj))"
    "wj < length (windows w) \<Longrightarrow> si < length (slices (windows w ! wj)) \<Longrightarrow>
       slice_conf (the_slice wj si w') = slice_conf (the_slice wj si w)"
    "wj < length (windows w) \<Longrightarrow> win_length (windows w' ! wj) = win_length (windows w ! wj)"
proof -
  have p: "map part_conf (partitions w') =
      map part_conf (partitions w)"
    and m: "map (\<lambda>win. (win_length win, map slice_conf (slices win))) (windows w') =
      map (\<lambda>win. (win_length win, map slice_conf (slices win))) (windows w)"
    and st: "start_time w' = start_time w" using assms by (simp_all add: shape_def)
  show "length (partitions w') = length (partitions w)" using arg_cong[OF p, of length] by simp
  show len: "length (windows w') = length (windows w)" using arg_cong[OF m, of length] by simp
  show "start_time w' = start_time w" by (rule st)
  have nth: "wj < length (windows w) \<Longrightarrow> win_length (windows w' ! wj) = win_length (windows w ! wj) \<and>
      map slice_conf (slices (windows w' ! wj)) = map slice_conf (slices (windows w ! wj))" for wj
    using arg_cong[OF m, of "\<lambda>xs. xs ! wj"] len by simp
  from nth show l: "wj < length (windows w) \<Longrightarrow> length (slices (windows w' ! wj)) = length (slices (windows w ! wj))"
    and "wj < length (windows w) \<Longrightarrow> win_length (windows w' ! wj) = win_length (windows w ! wj)"
    by (blast dest: map_eq_imp_length_eq, blast)
  show "wj < length (windows w) \<Longrightarrow> si < length (slices (windows w ! wj)) \<Longrightarrow>
       slice_conf (the_slice wj si w') = slice_conf (the_slice wj si w)"
    using nth[of wj] l unfolding the_slice_def by (metis nth_map)
qed

lemma map_list_update_same: "(i < length xs \<Longrightarrow> f y = f (xs ! i)) \<Longrightarrow> map f (xs[i := y]) = map f xs"
  by (cases "i < length xs") (simp_all add: map_update list_update_same_conv list_update_beyond)

lemma evolves_upd_window:
  assumes "wi < length (windows w)" and "\<And>win. slices (f win) = slices win"
    and "\<And>win. win_length (f win) = win_length win" and "\<And>win. stopping (f win) = stopping win"
  shows "evolves wi w (upd_window wi f w)"
  using assms by (auto simp: evolves_def shape_def upd_window_def intro!: map_list_update_same)

lemma evolves_put_ctx:
  assumes "valid_slice wi si w" and "pi < length (partitions w)" and "slice_conf sl = slice_conf (the_slice wi si w)"
    and "length (processes p) = length (processes (partitions w ! pi))"
    and "part_conf p = part_conf (partitions w ! pi)" and "os_extends (st_os w) s"
  shows "evolves wi w (put_ctx wi si pi (sl, p, pp, s) w)"
proof -
  let ?w = "put_ctx wi si pi (sl, p, pp, s) w"
  have parts: "map part_conf (partitions ?w) =
      map part_conf (partitions w)"
    using assms(2,4,5) by (auto simp: put_ctx_def upd_part_def upd_slice_def upd_window_def intro!: map_list_update_same)
  have sl: "map slice_conf ((slices (windows w ! wi))[si := sl]) = map slice_conf (slices (windows w ! wi))"
    using assms(3) by (auto simp: the_slice_def intro!: map_list_update_same)
  have wins: "map (\<lambda>win. (win_length win, map slice_conf (slices win))) (windows ?w) =
      map (\<lambda>win. (win_length win, map slice_conf (slices win))) (windows w)"
    using sl by (auto simp: put_ctx_def upd_slice_def upd_window_def upd_part_def intro!: map_list_update_same)
  have "windows ?w ! wj = windows w ! wj" if "wj \<noteq> wi" for wj
    using that by (simp add: put_ctx_def upd_slice_def upd_window_def)
  moreover have "stopping (windows ?w ! wi) = stopping (windows w ! wi)"
    using assms(1) by (simp add: put_ctx_def upd_slice_def upd_window_def valid_slice_def)
  ultimately show ?thesis using parts wins assms(6) by (simp add: evolves_def shape_def) (simp add: put_ctx_def)
qed

subsection \<open>The invariant of the active window\<close>

definition parts_of :: "slice \<Rightarrow> nat set" where
  "parts_of sl = set_option (sl_sc sl) \<union> set_option (sl_be sl)"

text \<open>The configuration names existing partitions, none of them in two slices of the window.\<close>

definition window_wf :: "nat \<Rightarrow> 'a store_scheme \<Rightarrow> bool" where
  "window_wf wi w \<longleftrightarrow> wi < length (windows w) \<and>
     (\<forall>si. valid_slice wi si w \<longrightarrow> parts_of (the_slice wi si w) \<subseteq> {..<length (partitions w)}) \<and>
     (\<forall>si sj. valid_slice wi si w \<longrightarrow> valid_slice wi sj w \<longrightarrow> si \<noteq> sj \<longrightarrow>
        parts_of (the_slice wi si w) \<inter> parts_of (the_slice wi sj w) = {})"

text \<open>
  A slice and the freezer agree: of the slice's partitions only the process that the slice runs is
  thawed, and the timer is set for its timeout, or stopped when nothing runs.
\<close>

definition slice_inv :: "partition list \<Rightarrow> slice \<Rightarrow> bool" where
  "slice_inv ps sl \<longleftrightarrow>
     (running_process sl \<noteq> None \<longrightarrow> running_partition sl \<noteq> None) \<and>
     set_option (running_partition sl) \<subseteq> parts_of sl \<and>
     (\<forall>pi \<in> parts_of sl. thawed (ps ! pi) =
        (if running_partition sl = Some pi then set_option (running_process sl) else {})) \<and>
     (if running_process sl = None then \<not> tfd_active (sl_timer sl) else timer_for sl)"

text \<open>
  \<open>cb_inv\<close>: no partition reports completions to the initialisation, and to a slice only if the
  slice belongs to the active window and the partition to the slice.
\<close>

definition cb_inv :: "nat \<Rightarrow> 'a store_scheme \<Rightarrow> bool" where
  "cb_inv wi w \<longleftrightarrow> (\<forall>pi < length (partitions w). part_completed_cb (partitions w ! pi) \<noteq> Cb_init) \<and>
     (\<forall>pi < length (partitions w). \<forall>wj sj.
     part_completed_cb (partitions w ! pi) = Cb_slice wj sj \<longrightarrow>
     wj = wi \<and> valid_slice wi sj w \<and> pi \<in> parts_of (the_slice wi sj w))"

definition win_inv :: "nat \<Rightarrow> 'a store_scheme \<Rightarrow> bool" where
  "win_inv wi w \<longleftrightarrow> window_wf wi w \<and> cb_inv wi w \<and> (\<forall>p \<in> set (partitions w). part_ok p) \<and>
     (\<forall>si. valid_slice wi si w \<longrightarrow> slice_inv (partitions w) (the_slice wi si w)) \<and>
     (\<forall>pi < length (partitions w). (\<forall>si. valid_slice wi si w \<longrightarrow> pi \<notin> parts_of (the_slice wi si w)) \<longrightarrow>
        thawed (partitions w ! pi) = {})"

lemma parts_of_conf: "slice_conf sl = slice_conf sl' \<Longrightarrow> parts_of sl = parts_of sl'"
  by (simp add: slice_conf_def parts_of_def)

lemma valid_slice_shape: "shape w' = shape w \<Longrightarrow> valid_slice wi si w' = valid_slice wi si w"
  using shape_lengths[of w' w] by (auto simp: valid_slice_def)

lemma parts_of_shape:
  "shape w' = shape w \<Longrightarrow> valid_slice wi si w \<Longrightarrow> parts_of (the_slice wi si w') = parts_of (the_slice wi si w)"
  by (rule parts_of_conf, rule shape_lengths(5)) (auto simp: valid_slice_def)

lemma window_wf_shape: "shape w' = shape w \<Longrightarrow> window_wf wi w' = window_wf wi w"
proof -
  assume sh: "shape w' = shape w"
  have v: "valid_slice wi si w' = valid_slice wi si w" for si by (rule valid_slice_shape[OF sh])
  have p: "valid_slice wi si w \<Longrightarrow> parts_of (the_slice wi si w') = parts_of (the_slice wi si w)" for si
    by (rule parts_of_shape[OF sh])
  show ?thesis
    unfolding window_wf_def v shape_lengths(1,2)[OF sh] by (simp add: p cong: conj_cong imp_cong)
qed

lemma put_ctx_nth:
  assumes "valid_slice wi si w" and "pi < length (partitions w)"
  shows "valid_slice wi sj (put_ctx wi si pi (sl, p, pp, s) w) = valid_slice wi sj w"
    "valid_slice wi sj w \<Longrightarrow> the_slice wi sj (put_ctx wi si pi (sl, p, pp, s) w) = (if sj = si then sl else the_slice wi sj w)"
    "partitions (put_ctx wi si pi (sl, p, pp, s) w) = (partitions w)[pi := p]"
    "finished_sc_partitions (windows (put_ctx wi si pi (sl, p, pp, s) w) ! wi) = finished_sc_partitions (windows w ! wi)"
  using assms by (auto simp: put_ctx_def upd_slice_def upd_part_def upd_window_def valid_slice_def the_slice_def)

lemma get_ctx_ok:
  assumes "win_inv wi w" and "valid_slice wi si w" and "pi \<in> parts_of (the_slice wi si w)"
    and "running_partition (the_slice wi si w) = Some pi \<or> running_process (the_slice wi si w) = None"
  shows "ctx_ok (get_ctx wi si pi w) \<and> pi < length (partitions w)"
proof -
  have pi: "pi < length (partitions w)" using assms(1-3) by (auto simp: win_inv_def window_wf_def)
  have "slice_inv (partitions w) (the_slice wi si w)" using assms(1,2) by (simp add: win_inv_def)
  with pi assms show ?thesis by (auto simp: ctx_ok_def get_ctx_def slice_inv_def win_inv_def)
qed

lemma slice_inv_cong:
  "(\<And>pj. pj \<in> parts_of sl \<Longrightarrow> thawed (ps ! pj) = thawed (qs ! pj)) \<Longrightarrow> slice_inv ps sl = slice_inv qs sl"
  by (simp add: slice_inv_def)

lemma put_ctx_inv:
  assumes inv: "win_inv wi w" and si: "valid_slice wi si w" and pi: "pi \<in> parts_of (the_slice wi si w)"
    and run: "running_partition (the_slice wi si w) = Some pi \<or> running_process (the_slice wi si w) = None"
    and ok: "ctx_ok (sl, p, pp, s)" and conf: "slice_conf sl = slice_conf (the_slice wi si w)"
    and part: "running_partition sl = Some pi"
    and cb: "part_completed_cb p = part_completed_cb (partitions w ! pi) \<or> part_completed_cb p = Cb_slice wi si"
    and ev: "evolves wi w (put_ctx wi si pi (sl, p, pp, s) w)"
  shows "win_inv wi (put_ctx wi si pi (sl, p, pp, s) w)"
proof -
  let ?w = "put_ctx wi si pi (sl, p, pp, s) w"
  have lt: "pi < length (partitions w)" using inv si pi by (auto simp: win_inv_def window_wf_def)
  note nth = put_ctx_nth[OF si lt, where sl = sl and p = p and pp = pp and s = s]
  have wf: "window_wf wi ?w" using ev inv window_wf_shape[of ?w w] by (simp add: evolves_def win_inv_def)
  have po: "parts_of sl = parts_of (the_slice wi si w)" using conf by (rule parts_of_conf)
  have cb_old: "wj = wi \<and> valid_slice wi sj w \<and> pj \<in> parts_of (the_slice wi sj w)"
    if "pj < length (partitions w)" "part_completed_cb (partitions w ! pj) = Cb_slice wj sj" for pj wj sj
    using inv that unfolding win_inv_def cb_inv_def by blast
  have ninit: "part_completed_cb (partitions ?w ! pj) \<noteq> Cb_init" if pj: "pj < length (partitions ?w)" for pj
  proof -
    have "part_completed_cb (partitions w ! pj) \<noteq> Cb_init" "part_completed_cb (partitions w ! pi) \<noteq> Cb_init"
      using inv pj lt by (simp_all add: win_inv_def cb_inv_def nth(3))
    then show ?thesis using cb lt by (cases "pj = pi") (auto simp: nth(3))
  qed
  have cbi: "cb_inv wi ?w"
    unfolding cb_inv_def
  proof (rule conjI; intro allI impI ninit)
    fix pj wj sj
    assume pj: "pj < length (partitions ?w)" and eq: "part_completed_cb (partitions ?w ! pj) = Cb_slice wj sj"
    have "wj = wi \<and> valid_slice wi sj w \<and> pj \<in> parts_of (the_slice wi sj w)"
    proof (cases "pj = pi \<and> part_completed_cb p = Cb_slice wi si")
      case True
      with eq lt si pi show ?thesis by (simp add: nth(3))
    next
      case False
      with eq cb pj lt have "part_completed_cb (partitions w ! pj) = Cb_slice wj sj"
        by (cases "pj = pi") (auto simp: nth(3))
      moreover have "pj < length (partitions w)" using pj by (simp add: nth(3))
      ultimately show ?thesis by (intro cb_old)
    qed
    then show "wj = wi \<and> valid_slice wi sj ?w \<and> pj \<in> parts_of (the_slice wi sj ?w)"
      using nth(1,2) po by auto
  qed
  have old: "slice_inv (partitions w) (the_slice wi si w)" using inv si by (simp add: win_inv_def)
  have other: "thawed (partitions w ! pj) = {}" if "pj \<in> parts_of (the_slice wi si w)" "pj \<noteq> pi" for pj
    using old run that by (auto simp: slice_inv_def)
  have new: "slice_inv (partitions ?w) sl"
    using ok other pi part lt unfolding slice_inv_def nth(3) po
    by (auto simp: ctx_ok_def nth_list_update split: if_splits)
  have "slice_inv (partitions ?w) (the_slice wi sj ?w)" if sj: "valid_slice wi sj ?w" for sj
  proof (cases "sj = si")
    case True
    with new nth(2)[OF si] show ?thesis by simp
  next
    case False
    have sj': "valid_slice wi sj w" using sj nth(1) by simp
    have "pi \<notin> parts_of (the_slice wi sj w)"
      using inv si sj' False pi unfolding win_inv_def window_wf_def by blast
    moreover have "slice_inv (partitions w) (the_slice wi sj w)" using inv sj' by (simp add: win_inv_def)
    ultimately have "slice_inv ((partitions w)[pi := p]) (the_slice wi sj w)"
      by (subst slice_inv_cong[of _ "(partitions w)[pi := p]" "partitions w"])
        (metis nth_list_update_neq, assumption)
    then show ?thesis using nth(2)[OF sj'] False by (simp add: nth(3))
  qed
  moreover have "\<forall>q \<in> set (partitions ?w). part_ok q"
    using inv ok set_update_subset_insert[of "partitions w" pi p] by (auto simp: nth(3) win_inv_def ctx_ok_def)
  moreover have "thawed (partitions ?w ! pj) = {}" if pj: "pj < length (partitions ?w)"
      "\<forall>sj. valid_slice wi sj ?w \<longrightarrow> pj \<notin> parts_of (the_slice wi sj ?w)" for pj
  proof -
    have "pj \<noteq> pi" using pj(2) si nth(1,2) po pi by force
    moreover have "\<forall>sj. valid_slice wi sj w \<longrightarrow> pj \<notin> parts_of (the_slice wi sj w)"
      using pj(2) nth(1,2) po by (metis (full_types))
    ultimately show ?thesis using pj(1) inv by (simp add: nth(3) win_inv_def)
  qed
  ultimately show ?thesis using wf cbi by (simp add: win_inv_def)
qed

subsection \<open>Steps of one slice\<close>

definition slice_step :: "nat \<Rightarrow> nat \<Rightarrow> 'a store_scheme \<Rightarrow> 'a store_scheme \<Rightarrow> bool" where
  "slice_step wi si w w' \<longleftrightarrow> evolves wi w w' \<and>
     (\<forall>sj. valid_slice wi sj w \<longrightarrow> sj \<noteq> si \<longrightarrow> the_slice wi sj w' = the_slice wi sj w) \<and>
     finished_sc_partitions (windows w' ! wi) = finished_sc_partitions (windows w ! wi)"

lemma on_slice_Inr:
  assumes "on_slice wi si pi f w = Inr (r, w')"
  obtains sl p pp s where "valid_slice wi si w" "pi < length (partitions w)"
    "f (get_ctx wi si pi w) = Inr (r, sl, p, pp, s)" "w' = put_ctx wi si pi (sl, p, pp, s) w"
  using assms by (auto simp: on_slice_def bindE_Inr_iff split: if_splits prod.splits)

text \<open>Every operation that ends in a good context of the same slice keeps the invariant.\<close>

lemma ctx_step:
  assumes inv: "win_inv wi w" and si: "valid_slice wi si w" and pi: "pi \<in> parts_of (the_slice wi si w)"
    and run: "running_partition (the_slice wi si w) = Some pi \<or> running_process (the_slice wi si w) = None"
    and ok: "ctx_ok (sl, p, pp, s)" and part: "running_partition sl = Some pi"
    and conf: "slice_conf sl = slice_conf (the_slice wi si w)"
    and len: "length (processes p) = length (processes (partitions w ! pi))"
    and ex: "part_conf p = part_conf (partitions w ! pi)" and ext: "os_extends (st_os w) s"
    and cb: "part_completed_cb p = part_completed_cb (partitions w ! pi) \<or> part_completed_cb p = Cb_slice wi si"
    and w': "w' = put_ctx wi si pi (sl, p, pp, s) w"
  shows "win_inv wi w' \<and> slice_step wi si w w' \<and> the_slice wi si w' = sl"
proof -
  have lt: "pi < length (partitions w)" using get_ctx_ok[OF inv si pi run] by simp
  have ev: "evolves wi w w'" unfolding w' by (rule evolves_put_ctx[OF si lt conf len ex ext])
  moreover have "win_inv wi w'"
    unfolding w' by (rule put_ctx_inv[OF inv si pi run ok conf part cb]) (use ev w' in simp)
  ultimately show ?thesis using put_ctx_nth[OF si lt] si by (simp add: w' slice_step_def)
qed

lemma ctx_frame_get:
  assumes "ctx_frame (get_ctx wi si pi w) (sl, p, pp, s)"
  shows "slice_conf sl = slice_conf (the_slice wi si w)"
    "running_partition sl = running_partition (the_slice wi si w)"
    "length (processes p) = length (processes (partitions w ! pi))"
    "part_conf p = part_conf (partitions w ! pi)" "os_extends (st_os w) s"
    "part_completed_cb p = part_completed_cb (partitions w ! pi)"
  using assms by (simp_all add: ctx_frame_def get_ctx_def slice_conf_def)

lemma on_slice_start:
  assumes "on_slice wi si pi (start_partition t0 pi (Cb_slice wi si) t first) w = Inr (found, w')"
    and "win_inv wi w" and "pi \<in> parts_of (the_slice wi si w)" and "running_process (the_slice wi si w) = None"
  shows "win_inv wi w' \<and> slice_step wi si w w' \<and> valid_slice wi si w \<and>
    running_partition (the_slice wi si w') = Some pi \<and> found = (running_process (the_slice wi si w') \<noteq> None)"
proof -
  from assms(1) obtain sl p pp s where si: "valid_slice wi si w"
    and run: "start_partition t0 pi (Cb_slice wi si) t first (get_ctx wi si pi w) = Inr (found, sl, p, pp, s)"
    and w': "w' = put_ctx wi si pi (sl, p, pp, s) w" by (rule on_slice_Inr)
  have "ctx_ok (get_ctx wi si pi w)" using get_ctx_ok[OF assms(2) si assms(3)] assms(4) by blast
  then have "part_ok (partitions w ! pi)" "thawed (partitions w ! pi) = {}"
    "\<not> tfd_active (sl_timer (the_slice wi si w))"
    using assms(4) by (auto simp: ctx_ok_def get_ctx_def)
  from start_partition_ok[OF run[unfolded get_ctx_def] this(1,2) assms(4) this(3)]
  have ok: "ctx_ok (sl, p, pp, s)" "found = (running_process sl \<noteq> None)"
    and fr: "running_partition sl = Some pi" "slice_conf sl = slice_conf (the_slice wi si w)"
      "length (processes p) = length (processes (partitions w ! pi))"
      "part_conf p = part_conf (partitions w ! pi)" "os_extends (st_os w) s"
      "part_completed_cb p = Cb_slice wi si"
    by (auto simp: ctx_frame_def slice_conf_def)
  from ctx_step[OF assms(2) si assms(3) _ ok(1) fr(1-5) disjI2[OF fr(6)] w'] assms(4) fr(1) ok(2) si show ?thesis by simp
qed

lemma on_slice_schedule:
  assumes "on_slice wi si pi (schedule_next t0 pi t) w = Inr (found, w')"
    and "win_inv wi w" and "running_partition (the_slice wi si w) = Some pi"
  shows "win_inv wi w' \<and> slice_step wi si w w' \<and> valid_slice wi si w \<and> pi \<in> parts_of (the_slice wi si w) \<and>
    running_process (the_slice wi si w) \<noteq> None \<and>
    running_partition (the_slice wi si w') = Some pi \<and> found = (running_process (the_slice wi si w') \<noteq> None)"
proof -
  from assms(1) obtain sl p pp s where si: "valid_slice wi si w"
    and run: "schedule_next t0 pi t (get_ctx wi si pi w) = Inr (found, sl, p, pp, s)"
    and w': "w' = put_ctx wi si pi (sl, p, pp, s) w" by (rule on_slice_Inr)
  have rp: "running_process (the_slice wi si w) \<noteq> None"
    using run by (auto simp: schedule_next_def get_ctx_def bindE_Inr_iff elim!: stop_current_process_Inr)
  have "slice_inv (partitions w) (the_slice wi si w)" using assms(2) si by (simp add: win_inv_def)
  with rp assms(3) have pi: "pi \<in> parts_of (the_slice wi si w)" by (auto simp: slice_inv_def)
  have "ctx_ok (get_ctx wi si pi w)" using get_ctx_ok[OF assms(2) si pi] assms(3) by blast
  from schedule_next_ok[OF run[unfolded get_ctx_def] this[unfolded get_ctx_def]]
  have ok: "ctx_ok (sl, p, pp, s)" "found = (running_process sl \<noteq> None)"
    and fr: "ctx_frame (get_ctx wi si pi w) (sl, p, pp, s)" by (auto simp: get_ctx_def)
  note fr' = ctx_frame_get[OF fr]
  from ctx_step[OF assms(2) si pi _ ok(1) _ fr'(1,3-5) disjI1[OF fr'(6)] w'] assms(3) fr'(2) ok(2) si pi rp show ?thesis by simp
qed

subsection \<open>Safety critical first, best effort after\<close>

text \<open>
  \<open>sched_inv wi k d\<close>: the first \<open>k\<close> slices of the window were started and all but \<open>d\<close> of those that
  are idle have been counted. Until every slice is counted only safety critical partitions run;
  from then on only best-effort ones.
\<close>

definition idle_slices :: "nat \<Rightarrow> nat \<Rightarrow> 'a store_scheme \<Rightarrow> nat set" where
  "idle_slices wi k w = {si. si < k \<and> running_process (the_slice wi si w) = None}"

definition sched_inv :: "nat \<Rightarrow> nat \<Rightarrow> nat \<Rightarrow> 'a store_scheme \<Rightarrow> bool" where
  "sched_inv wi k d w \<longleftrightarrow> win_inv wi w \<and> \<not> stopping (windows w ! wi) \<and>
     (let n = length (slices (windows w ! wi)) in
      k \<le> n \<and> (\<forall>si. k \<le> si \<longrightarrow> si < n \<longrightarrow> running_process (the_slice wi si w) = None) \<and>
      (if finished_sc_partitions (windows w ! wi) < n
       then finished_sc_partitions (windows w ! wi) + d = card (idle_slices wi k w) \<and>
         (\<forall>si < n. running_process (the_slice wi si w) \<noteq> None \<longrightarrow>
            running_partition (the_slice wi si w) = sl_sc (the_slice wi si w))
       else k = n \<and> (\<forall>si < n. running_process (the_slice wi si w) \<noteq> None \<longrightarrow>
            running_partition (the_slice wi si w) = sl_be (the_slice wi si w))))"

lemma inv_cong:
  assumes "partitions w' = partitions w" and "windows w' = windows w"
  shows "win_inv wi w' = win_inv wi w" "sched_inv wi k d w' = sched_inv wi k d w"
proof -
  show w: "win_inv wi w' = win_inv wi w"
    using assms by (simp add: win_inv_def cb_inv_def window_wf_def valid_slice_def the_slice_def)
  show "sched_inv wi k d w' = sched_inv wi k d w"
    using assms by (simp add: sched_inv_def w idle_slices_def the_slice_def)
qed

lemma sched_inv_window: "sched_inv wi k d w \<Longrightarrow> wi < length (windows w)"
  by (simp add: sched_inv_def win_inv_def window_wf_def)

lemma inv_policy [simp]:
  "win_inv wi (w\<lparr>st_policy := pp, st_os := s\<rparr>) = win_inv wi w"
  "sched_inv wi k d (w\<lparr>st_policy := pp, st_os := s\<rparr>) = sched_inv wi k d w"
  by (rule inv_cong; simp)+

lemma evolves_policy: "os_extends (st_os w) s \<Longrightarrow> evolves wi w (w\<lparr>st_policy := pp, st_os := s\<rparr>)"
  by (simp add: evolves_def shape_def)

lemma win_inv_upd_window:
  assumes "\<And>win. slices (f win) = slices win" and "win_inv wi w"
  shows "win_inv wi (upd_window wi f w)"
proof -
  have wi: "wi < length (windows w)" using assms(2) by (simp add: win_inv_def window_wf_def)
  have "slices (windows (upd_window wi f w) ! wi) = slices (windows w ! wi)"
    using wi assms(1) by (simp add: windows_upd_window)
  then have eq: "valid_slice wi sj (upd_window wi f w) = valid_slice wi sj w"
    "the_slice wi sj (upd_window wi f w) = the_slice wi sj w" for sj by (simp_all add: valid_slice_def the_slice_def)
  show ?thesis using assms(2) unfolding win_inv_def cb_inv_def window_wf_def eq upd_window_simps by (elim conjE) (intro conjI)
qed

definition count_finished :: "nat \<Rightarrow> 'a store_scheme \<Rightarrow> 'a store_scheme" where
  "count_finished wi w = upd_window wi (\<lambda>win. win\<lparr>finished_sc_partitions := Suc (finished_sc_partitions win)\<rparr>) w"

lemma count_finished_simps:
  assumes "wi < length (windows w)"
  shows "slices (windows (count_finished wi w) ! wi) = slices (windows w ! wi)"
    "stopping (windows (count_finished wi w) ! wi) = stopping (windows w ! wi)"
    "finished_sc_partitions (windows (count_finished wi w) ! wi) = Suc (finished_sc_partitions (windows w ! wi))"
    "the_slice wi si (count_finished wi w) = the_slice wi si w"
    "valid_slice wi si (count_finished wi w) = valid_slice wi si w"
    "idle_slices wi k (count_finished wi w) = idle_slices wi k w"
    "win_inv wi w \<Longrightarrow> win_inv wi (count_finished wi w)" "evolves wi w (count_finished wi w)"
  using assms
  by (auto simp: count_finished_def windows_upd_window the_slice_def valid_slice_def idle_slices_def
      intro!: win_inv_upd_window evolves_upd_window)

declare slice_sc_end_cb.simps [simp del]

lemma slice_sc_end_cb_Suc:
  "slice_sc_end_cb (Suc f) wi t w =
     (let w = count_finished wi w in
      if stopping (windows w ! wi) then Inr w
      else if finished_sc_partitions (windows w ! wi) = length (slices (windows w ! wi))
      then bindE (for_slices (\<lambda>si. start_be (slice_sc_end_cb f wi) wi si t) wi w) (on_policy on_be_start)
      else Inr w)"
  by (simp add: slice_sc_end_cb.simps count_finished_def has_sc_finished_def Let_def)

text \<open>Once every slice is counted, the callback only counts on.\<close>

lemma be_phase_cb:
  assumes "sched_inv wi k d w" and "length (slices (windows w ! wi)) \<le> finished_sc_partitions (windows w ! wi)"
  shows "slice_sc_end_cb (Suc f) wi t w = Inr (count_finished wi w)"
    "sched_inv wi k e (count_finished wi w)"
proof -
  have wi: "wi < length (windows w)" by (rule sched_inv_window[OF assms(1)])
  note c = count_finished_simps[OF wi]
  show "slice_sc_end_cb (Suc f) wi t w = Inr (count_finished wi w)"
    using assms c(1-3) by (simp add: slice_sc_end_cb_Suc Let_def sched_inv_def)
  show "sched_inv wi k e (count_finished wi w)"
    using assms c by (simp add: sched_inv_def Let_def)
qed

lemma slice_step_simps:
  assumes "slice_step wi si w w'" and "wi < length (windows w)"
  shows "length (slices (windows w' ! wi)) = length (slices (windows w ! wi))"
    "finished_sc_partitions (windows w' ! wi) = finished_sc_partitions (windows w ! wi)"
    "stopping (windows w' ! wi) = stopping (windows w ! wi)"
    "sj < length (slices (windows w ! wi)) \<Longrightarrow> sj \<noteq> si \<Longrightarrow> the_slice wi sj w' = the_slice wi sj w"
    "sj < length (slices (windows w ! wi)) \<Longrightarrow> sl_sc (the_slice wi sj w') = sl_sc (the_slice wi sj w) \<and>
       sl_be (the_slice wi sj w') = sl_be (the_slice wi sj w)"
    "evolves wi w w'"
proof -
  have sh: "shape w' = shape w" using assms(1) by (simp add: slice_step_def evolves_def)
  show "length (slices (windows w' ! wi)) = length (slices (windows w ! wi))" by (rule shape_lengths(4)[OF sh assms(2)])
  show "sj < length (slices (windows w ! wi)) \<Longrightarrow> sl_sc (the_slice wi sj w') = sl_sc (the_slice wi sj w) \<and>
       sl_be (the_slice wi sj w') = sl_be (the_slice wi sj w)"
    using shape_lengths(5)[OF sh assms(2)] by (simp add: slice_conf_def)
qed (use assms in \<open>auto simp: slice_step_def evolves_def valid_slice_def\<close>)

text \<open>The phase is kept when one slice changes and runs, if anything, a partition of the phase.\<close>

lemma sched_inv_slice:
  assumes inv: "sched_inv wi k d w" and st: "slice_step wi si w w'" and w': "win_inv wi w'"
    and si: "si < length (slices (windows w ! wi))" and k: "si < k \<and> k' = k \<or> si = k \<and> k' = Suc k"
    and sc: "finished_sc_partitions (windows w ! wi) < length (slices (windows w ! wi)) \<Longrightarrow>
      finished_sc_partitions (windows w ! wi) + d' = card (idle_slices wi k' w') \<and>
      (running_process (the_slice wi si w') \<noteq> None \<longrightarrow>
         running_partition (the_slice wi si w') = sl_sc (the_slice wi si w))"
    and be: "length (slices (windows w ! wi)) \<le> finished_sc_partitions (windows w ! wi) \<Longrightarrow>
      running_process (the_slice wi si w') \<noteq> None \<Longrightarrow>
      running_partition (the_slice wi si w') = sl_be (the_slice wi si w)"
  shows "sched_inv wi k' d' w'"
proof -
  have wi: "wi < length (windows w)" by (rule sched_inv_window[OF inv])
  note s = slice_step_simps[OF st wi]
  have kn: "k' \<le> length (slices (windows w ! wi))" using inv si k by (auto simp: sched_inv_def Let_def)
  have later: "running_process (the_slice wi sj w') = None"
    if "k' \<le> sj" "sj < length (slices (windows w ! wi))" for sj
    using that inv k s(4)[of sj] by (auto simp: sched_inv_def Let_def)
  show ?thesis
  proof (cases "finished_sc_partitions (windows w ! wi) < length (slices (windows w ! wi))")
    case True
    have "running_partition (the_slice wi sj w') = sl_sc (the_slice wi sj w')"
      if "sj < length (slices (windows w ! wi))" "running_process (the_slice wi sj w') \<noteq> None" for sj
      using that True inv sc[OF True] s(4,5)[of sj] by (cases "sj = si") (auto simp: sched_inv_def Let_def)
    with True sc[OF True] kn later w' inv s(1-3) show ?thesis by (simp add: sched_inv_def Let_def)
  next
    case False
    have "running_partition (the_slice wi sj w') = sl_be (the_slice wi sj w')"
      if "sj < length (slices (windows w ! wi))" "running_process (the_slice wi sj w') \<noteq> None" for sj
      using that False inv be s(4,5)[of sj] by (cases "sj = si") (auto simp: sched_inv_def Let_def)
    moreover have "k' = length (slices (windows w ! wi))" using False inv k si by (auto simp: sched_inv_def Let_def)
    ultimately show ?thesis using False w' inv s(1-3) by (simp add: sched_inv_def Let_def)
  qed
qed

lemma start_be_inv:
  assumes run: "start_be (slice_sc_end_cb (Suc f) wi) wi si t w = Inr w'"
    and inv: "sched_inv wi k 0 w" and fin: "length (slices (windows w ! wi)) \<le> finished_sc_partitions (windows w ! wi)"
    and si: "valid_slice wi si w" and idle: "running_process (the_slice wi si w) = None"
  shows "sched_inv wi k 0 w' \<and> length (slices (windows w' ! wi)) \<le> finished_sc_partitions (windows w' ! wi) \<and>
    evolves wi w w' \<and> (\<forall>sj. valid_slice wi sj w \<longrightarrow> sj \<noteq> si \<longrightarrow> the_slice wi sj w' = the_slice wi sj w)"
proof (cases "sl_be (the_slice wi si w)")
  case None
  with run inv fin show ?thesis by (simp add: start_be_def)
next
  case (Some pi)
  have wi: "wi < length (windows w)" and si': "si < length (slices (windows w ! wi))"
    using si by (simp_all add: valid_slice_def)
  from run Some obtain found w1 where
    on: "on_slice wi si pi (start_partition (start_time w) pi (Cb_slice wi si) t False) w = Inr (found, w1)" and
    cb: "(if \<not> found \<and> Some pi = sl_sc (the_slice wi si w1) then slice_sc_end_cb (Suc f) wi t w1 else Inr w1) = Inr w'"
    by (auto simp: start_be_def bindE_Inr_iff)
  have pi: "pi \<in> parts_of (the_slice wi si w)" using Some by (simp add: parts_of_def)
  have "win_inv wi w" using inv by (simp add: sched_inv_def)
  note st = on_slice_start[OF on this pi idle]
  have step: "slice_step wi si w w1" using st by blast
  note s = slice_step_simps[OF step wi]
  have inv1: "sched_inv wi k 0 w1"
    by (rule sched_inv_slice[OF inv step]) (use st Some fin si' inv in \<open>auto simp: sched_inv_def Let_def\<close>)
  have fin1: "length (slices (windows w1 ! wi)) \<le> finished_sc_partitions (windows w1 ! wi)" using fin s by simp
  have wi1: "wi < length (windows w1)" by (rule sched_inv_window[OF inv1])
  show ?thesis
  proof (cases "\<not> found \<and> Some pi = sl_sc (the_slice wi si w1)")
    case True
    with cb be_phase_cb(1)[OF inv1 fin1] have "w' = count_finished wi w1" by simp
    with be_phase_cb(2)[OF inv1 fin1] count_finished_simps[OF wi1] fin1 s(4,6) show ?thesis
      by (auto simp: valid_slice_def intro: evolves_trans)
  next
    case False
    then have "w' = w1" using cb by (auto split: if_splits)
    with inv1 fin1 s(4,6) show ?thesis by (auto simp: valid_slice_def)
  qed
qed

lemma be_loop_inv:
  assumes "foldE (\<lambda>si. start_be (slice_sc_end_cb (Suc f) wi) wi si t) xs w = Inr w'"
    and "sched_inv wi k 0 w" and "length (slices (windows w ! wi)) \<le> finished_sc_partitions (windows w ! wi)"
    and "\<forall>si \<in> set xs. valid_slice wi si w \<and> running_process (the_slice wi si w) = None" and "distinct xs"
  shows "sched_inv wi k 0 w' \<and> evolves wi w w' \<and>
    length (slices (windows w' ! wi)) \<le> finished_sc_partitions (windows w' ! wi)"
  using assms
proof (induction xs arbitrary: w)
  case Nil
  then show ?case by simp
next
  case (Cons x xs)
  from Cons.prems(1) obtain w1 where w1: "start_be (slice_sc_end_cb (Suc f) wi) wi x t w = Inr w1"
    and rest: "foldE (\<lambda>si. start_be (slice_sc_end_cb (Suc f) wi) wi si t) xs w1 = Inr w'"
    by (auto simp: bindE_Inr_iff)
  note st = start_be_inv[OF w1 Cons.prems(2,3)]
  have x: "valid_slice wi x w" "running_process (the_slice wi x w) = None" using Cons.prems(4) by auto
  note st = st[OF this]
  have "valid_slice wi si w1 = valid_slice wi si w" for si
    using st by (intro valid_slice_shape) (simp add: evolves_def)
  then have "\<forall>si \<in> set xs. valid_slice wi si w1 \<and> running_process (the_slice wi si w1) = None"
    using Cons.prems(4,5) st by auto
  from Cons.IH[OF rest _ _ this] st Cons.prems(5) show ?case by (auto intro: evolves_trans)
qed

lemma on_policy_inv:
  assumes "on_policy f w = Inr w'" and "\<And>pp s pp' s'. f pp s = Inr (pp', s') \<Longrightarrow> os_extends s s'"
  shows "evolves wi w w' \<and> sched_inv wi k d w' = sched_inv wi k d w \<and> win_inv wi w' = win_inv wi w"
  using assms by (auto simp: on_policy_def bindE_Inr_iff intro!: evolves_policy)

lemma card_idle_full:
  assumes "card (idle_slices wi k w) = length (slices (windows w ! wi))" and "k \<le> length (slices (windows w ! wi))"
  shows "k = length (slices (windows w ! wi)) \<and> (\<forall>si < k. running_process (the_slice wi si w) = None)"
proof -
  have sub: "idle_slices wi k w \<subseteq> {..<k}" by (auto simp: idle_slices_def)
  then have "card (idle_slices wi k w) \<le> k" using card_mono[OF _ sub] by simp
  with assms have k: "k = length (slices (windows w ! wi))" by simp
  with sub assms(1) have "idle_slices wi k w = {..<k}" by (intro card_subset_eq) auto
  with k show ?thesis by (auto simp: idle_slices_def)
qed

lemma sc_end_inv:
  assumes run: "slice_sc_end_cb (Suc (Suc f)) wi t w = Inr w'" and inv: "sched_inv wi k 1 w"
  shows "sched_inv wi k 0 w' \<and> evolves wi w w'"
proof (cases "finished_sc_partitions (windows w ! wi) < length (slices (windows w ! wi))")
  case False
  then have fin: "length (slices (windows w ! wi)) \<le> finished_sc_partitions (windows w ! wi)" by simp
  have "w' = count_finished wi w" using run be_phase_cb(1)[OF inv fin, of "Suc f" t] by simp
  then show ?thesis using be_phase_cb(2)[OF inv fin] count_finished_simps(8)[OF sched_inv_window[OF inv]] by simp
next
  case True
  let ?n = "length (slices (windows w ! wi))"
  have wi: "wi < length (windows w)" by (rule sched_inv_window[OF inv])
  let ?w = "count_finished wi w"
  note c = count_finished_simps[OF wi]
  have card: "Suc (finished_sc_partitions (windows w ! wi)) = card (idle_slices wi k w)"
    using inv True by (simp add: sched_inv_def Let_def)
  show ?thesis
  proof (cases "Suc (finished_sc_partitions (windows w ! wi)) = ?n")
    case False
    with run inv c(1-3) have "w' = ?w"
      by (simp add: slice_sc_end_cb_Suc Let_def sched_inv_def)
    moreover have "sched_inv wi k 0 ?w" using inv c False True card by (simp add: sched_inv_def Let_def)
    ultimately show ?thesis using c(8) by simp
  next
    case all: True
    with inv card card_idle_full[of wi k w] have k: "k = ?n" "\<forall>si < ?n. running_process (the_slice wi si w) = None"
      by (auto simp: sched_inv_def Let_def)
    from run inv c(1-3) all obtain w1 where
      loop: "foldE (\<lambda>si. start_be (slice_sc_end_cb (Suc f) wi) wi si t) [0..<?n] ?w = Inr w1" and
      pol: "on_policy on_be_start w1 = Inr w'"
      by (auto simp: slice_sc_end_cb_Suc Let_def sched_inv_def for_slices_def bindE_Inr_iff)
    have inv1: "sched_inv wi k 0 ?w" using inv c k all by (simp add: sched_inv_def Let_def)
    have "\<forall>si \<in> set [0..<?n]. valid_slice wi si ?w \<and> running_process (the_slice wi si ?w) = None"
      using c(4,5) k(2) wi by (simp add: valid_slice_def[of wi _ w])
    then have "sched_inv wi k 0 w1 \<and> evolves wi ?w w1"
      using be_loop_inv[OF loop inv1] c(1,3) all by simp
    moreover have "evolves wi w1 w' \<and> sched_inv wi k 0 w' = sched_inv wi k 0 w1"
      using on_policy_inv[OF pol] on_be_start_Inr by blast
    ultimately show ?thesis using c(8) by (blast intro: evolves_trans)
  qed
qed

lemma idle_slices_Suc:
  "idle_slices wi (Suc k) u = (if running_process (the_slice wi k u) = None
     then insert k (idle_slices wi k u) else idle_slices wi k u)"
  "finite (idle_slices wi k u)" "k \<notin> idle_slices wi k u"
  by (auto simp: idle_slices_def less_Suc_eq intro: finite_subset[of _ "{..<k}"])

lemma sched_inv_starting:
  assumes "sched_inv wi k 0 w" and "k < length (slices (windows w ! wi))"
  shows "finished_sc_partitions (windows w ! wi) < length (slices (windows w ! wi))"
    "finished_sc_partitions (windows w ! wi) = card (idle_slices wi k w)" "win_inv wi w"
    "running_process (the_slice wi k w) = None"
  using assms by (auto simp: sched_inv_def Let_def split: if_splits)

lemma start_sc_none:
  assumes inv: "sched_inv wi k 0 w" and k: "k < length (slices (windows w ! wi))"
  shows "sched_inv wi (Suc k) 1 w"
  using inv k sched_inv_starting[OF inv k] idle_slices_Suc(1)[of wi k w]
  by (auto simp: sched_inv_def Let_def idle_slices_Suc(2,3))

lemma start_sc_some:
  assumes inv: "sched_inv wi k 0 w" and k: "k < length (slices (windows w ! wi))"
    and pi: "sl_sc (the_slice wi k w) = Some pi"
    and on: "on_slice wi k pi (start_partition t0 pi (Cb_slice wi k) t True) w = Inr (found, w1)"
  shows "sched_inv wi (Suc k) (if found then 0 else 1) w1" "evolves wi w w1"
proof -
  note st0 = sched_inv_starting[OF inv k]
  have "pi \<in> parts_of (the_slice wi k w)" using pi by (simp add: parts_of_def)
  note st = on_slice_start[OF on st0(3) this st0(4)]
  have step: "slice_step wi k w w1" using st by blast
  note s = slice_step_simps[OF step sched_inv_window[OF inv]]
  have same: "idle_slices wi k w1 = idle_slices wi k w" using s(4) k by (auto simp: idle_slices_def)
  show "sched_inv wi (Suc k) (if found then 0 else 1) w1"
    by (rule sched_inv_slice[OF inv step])
      (use st pi k st0 same in \<open>auto simp: idle_slices_Suc\<close>)
  show "evolves wi w w1" by (rule s(6))
qed

lemma start_sc_inv:
  assumes run: "start_sc (sc_done wi) wi k t w = Inr w'" and inv: "sched_inv wi k 0 w"
    and k: "k < length (slices (windows w ! wi))"
  shows "sched_inv wi (Suc k) 0 w' \<and> evolves wi w w'"
proof (cases "sl_sc (the_slice wi k w)")
  case None
  with run start_sc_none[OF inv k] sc_end_inv[of 0 wi t w w'] show ?thesis
    by (simp add: start_sc_def numeral_2_eq_2)
next
  case (Some pi)
  from run Some obtain found w1 where
    on: "on_slice wi k pi (start_partition (start_time w) pi (Cb_slice wi k) t True) w = Inr (found, w1)" and
    cb: "(if found then Inr w1 else sc_done wi t w1) = Inr w'"
    by (auto simp: start_sc_def bindE_Inr_iff)
  note st = start_sc_some[OF inv k Some on]
  from cb st sc_end_inv[of 0 wi t w1 w' "Suc k"] show ?thesis
    by (cases found) (auto simp: numeral_2_eq_2 intro: evolves_trans)
qed

lemma start_loop_inv:
  assumes "foldE (\<lambda>si. start_sc (sc_done wi) wi si t) [k..<length (slices (windows w ! wi))] w = Inr w'"
    and "sched_inv wi k 0 w" and "k \<le> length (slices (windows w ! wi))"
  shows "sched_inv wi (length (slices (windows w ! wi))) 0 w' \<and> evolves wi w w'"
  using assms
proof (induction "length (slices (windows w ! wi)) - k" arbitrary: k w)
  case 0
  then show ?case by simp
next
  case (Suc m)
  let ?n = "length (slices (windows w ! wi))"
  from Suc.hyps(2) have k: "k < ?n" by simp
  from Suc.prems(1) k obtain w1 where w1: "start_sc (sc_done wi) wi k t w = Inr w1"
    and rest: "foldE (\<lambda>si. start_sc (sc_done wi) wi si t) [Suc k..<?n] w1 = Inr w'"
    by (auto simp: upt_conv_Cons bindE_Inr_iff)
  note st = start_sc_inv[OF w1 Suc.prems(2) k]
  have len: "length (slices (windows w1 ! wi)) = ?n"
    using st shape_lengths(4) sched_inv_window[OF Suc.prems(2)] by (auto simp: evolves_def)
  have "sched_inv wi (length (slices (windows w1 ! wi))) 0 w' \<and> evolves wi w1 w'"
    by (rule Suc.hyps(1)) (use Suc.hyps(2) rest len st k in auto)
  with st len show ?case by (auto intro: evolves_trans)
qed

definition all_idle :: "nat \<Rightarrow> 'a store_scheme \<Rightarrow> bool" where
  "all_idle wi w \<longleftrightarrow> (\<forall>si. valid_slice wi si w \<longrightarrow> running_process (the_slice wi si w) = None)"

lemma window_start_inv:
  assumes run: "window_start wi t w = Inr w'" and inv: "win_inv wi w" and idle: "all_idle wi w"
    and stop: "\<not> stopping (windows w ! wi)"
  shows "sched_inv wi (length (slices (windows w' ! wi))) 0 w' \<and> evolves wi w w'"
proof -
  let ?w = "upd_window wi (\<lambda>win. win\<lparr>finished_sc_partitions := 0\<rparr>) w"
  have wi: "wi < length (windows w)" using inv by (simp add: win_inv_def window_wf_def)
  have ev0: "evolves wi w ?w" by (rule evolves_upd_window[OF wi]) simp_all
  have sl: "slices (windows ?w ! wi) = slices (windows w ! wi)" using wi by (simp add: windows_upd_window)
  have inv0: "sched_inv wi 0 0 ?w"
    using win_inv_upd_window[OF _ inv, of "\<lambda>win. win\<lparr>finished_sc_partitions := 0\<rparr>"] idle stop wi
    by (auto simp: sched_inv_def Let_def windows_upd_window idle_slices_def the_slice_def all_idle_def valid_slice_def)
  from run obtain w1 w2 where
    loop: "foldE (\<lambda>si. start_sc (sc_done wi) wi si t) [0..<length (slices (windows ?w ! wi))] ?w = Inr w1" and
    p1: "on_policy (on_window_start (map (slice_view_of w1) (slices (windows w1 ! wi)))) w1 = Inr w2" and
    p2: "on_policy on_sc_start w2 = Inr w'"
    by (auto simp: window_start_def Let_def for_slices_def bindE_Inr_iff)
  let ?n = "length (slices (windows ?w ! wi))"
  have l: "sched_inv wi ?n 0 w1 \<and> evolves wi ?w w1" by (rule start_loop_inv[OF loop inv0]) simp
  have q1: "evolves wi w1 w2 \<and> sched_inv wi ?n 0 w2 = sched_inv wi ?n 0 w1"
    using on_policy_inv[OF p1] on_window_start_Inr by blast
  have q2: "evolves wi w2 w' \<and> sched_inv wi ?n 0 w' = sched_inv wi ?n 0 w2"
    using on_policy_inv[OF p2] on_sc_start_Inr by blast
  have ev: "evolves wi w w'" using ev0 l q1 q2 by (blast intro: evolves_trans)
  then have "length (slices (windows w' ! wi)) = length (slices (windows w ! wi))"
    using shape_lengths(4) wi by (auto simp: evolves_def)
  with ev l q1 q2 sl show ?thesis by simp
qed

lemma schedule_next_step:
  assumes on: "on_slice wi si pi (schedule_next t0 pi t) w = Inr (found, w1)"
    and inv: "sched_inv wi (length (slices (windows w ! wi))) 0 w"
    and pi: "running_partition (the_slice wi si w) = Some pi"
  shows "sched_inv wi (length (slices (windows w ! wi))) (if found then 0 else 1) w1 \<and> evolves wi w w1 \<and>
    sl_sc (the_slice wi si w1) = sl_sc (the_slice wi si w) \<and>
    (Some pi \<noteq> sl_sc (the_slice wi si w) \<longrightarrow> sched_inv wi (length (slices (windows w ! wi))) 0 w1)"
proof -
  let ?n = "length (slices (windows w ! wi))" and ?F = "finished_sc_partitions (windows w ! wi)"
  have wi: "wi < length (windows w)" by (rule sched_inv_window[OF inv])
  have wini: "win_inv wi w" using inv by (simp add: sched_inv_def)
  note st = on_slice_schedule[OF on wini pi]
  have step: "slice_step wi si w w1" using st by blast
  note s = slice_step_simps[OF step wi]
  have si: "si < ?n" using st by (simp add: valid_slice_def)
  have sc: "?F < ?n \<Longrightarrow> Some pi = sl_sc (the_slice wi si w)" "?n \<le> ?F \<Longrightarrow> Some pi = sl_be (the_slice wi si w)"
    and card: "?F < ?n \<Longrightarrow> ?F = card (idle_slices wi ?n w)"
    using inv st si pi by (auto simp: sched_inv_def Let_def split: if_splits)
  have "running_process (the_slice wi x w1) = None \<longleftrightarrow>
      (if x = si then \<not> found else running_process (the_slice wi x w) = None)" if "x < ?n" for x
    using s(4)[OF that] st by auto
  then have "idle_slices wi ?n w1 = (if found then idle_slices wi ?n w - {si} else insert si (idle_slices wi ?n w))"
    using si by (auto simp: idle_slices_def split: if_splits)
  moreover have "si \<notin> idle_slices wi ?n w" "finite (idle_slices wi ?n w)"
    using st by (auto simp: idle_slices_def intro: finite_subset[of _ "{..<?n}"])
  ultimately have card1: "card (idle_slices wi ?n w1) = card (idle_slices wi ?n w) + (if found then 0 else 1)" by simp
  have inv1: "sched_inv wi ?n (if found then 0 else 1) w1"
    by (rule sched_inv_slice[OF inv step]) (use st si sc card card1 in auto)
  moreover have "sched_inv wi ?n 0 w1" if "Some pi \<noteq> sl_sc (the_slice wi si w)"
  proof -
    have "?n \<le> ?F" using that sc(1) by (metis not_le)
    then show ?thesis using inv1 s(1,2) by (simp add: sched_inv_def Let_def)
  qed
  ultimately show ?thesis using s(6) s(5)[OF si] by simp
qed

lemma schedule_next_inv:
  assumes run: "slice_schedule_next (sc_done wi) wi si t w = Inr w'"
    and inv: "sched_inv wi (length (slices (windows w ! wi))) 0 w"
  shows "sched_inv wi (length (slices (windows w ! wi))) 0 w' \<and> evolves wi w w'"
proof -
  let ?n = "length (slices (windows w ! wi))"
  from run obtain pi found w1 where pi: "running_partition (the_slice wi si w) = Some pi" and
    on: "on_slice wi si pi (schedule_next (start_time w) pi t) w = Inr (found, w1)" and
    cb: "(if \<not> found \<and> Some pi = sl_sc (the_slice wi si w1) then sc_done wi t w1 else Inr w1) = Inr w'"
    by (auto simp: slice_schedule_next_def bindE_Inr_iff split: option.splits)
  note st = schedule_next_step[OF on inv pi]
  show ?thesis
  proof (cases "\<not> found \<and> Some pi = sl_sc (the_slice wi si w1)")
    case True
    with cb st sc_end_inv[of 0 wi t w1 w' ?n] show ?thesis
      by (auto simp: numeral_2_eq_2 intro: evolves_trans)
  next
    case False
    then have "w' = w1" using cb by (auto split: if_splits)
    with st False show ?thesis by (cases found) auto
  qed
qed

subsection \<open>Stopping a window\<close>

text \<open>A store in which one slice came to rest and the rest of the window is as before.\<close>

lemma quiesce_inv:
  assumes inv: "win_inv wi w" and si: "valid_slice wi si w" and sh: "shape w' = shape w"
    and other: "\<And>sj. valid_slice wi sj w \<Longrightarrow> sj \<noteq> si \<Longrightarrow> the_slice wi sj w' = the_slice wi sj w"
    and idle: "running_process (the_slice wi si w') = None" "\<not> tfd_active (sl_timer (the_slice wi si w'))"
    and ok: "\<And>pj. pj < length (partitions w) \<Longrightarrow> part_ok (partitions w' ! pj)"
    and th: "\<And>pj. pj < length (partitions w) \<Longrightarrow> thawed (partitions w' ! pj) =
      (if running_partition (the_slice wi si w) = Some pj then {} else thawed (partitions w ! pj))"
    and rp: "running_partition (the_slice wi si w') = running_partition (the_slice wi si w)"
    and cb: "\<And>pj. pj < length (partitions w) \<Longrightarrow> part_completed_cb (partitions w' ! pj) =
      (if pj \<in> parts_of (the_slice wi si w) then Cb_disconnected else part_completed_cb (partitions w ! pj))"
  shows "win_inv wi w'"
proof -
  note v = valid_slice_shape[OF sh] and po = parts_of_shape[OF sh]
  have sub: "parts_of (the_slice wi sj w) \<subseteq> {..<length (partitions w)}" if "valid_slice wi sj w" for sj
    using inv that by (simp add: win_inv_def window_wf_def)
  have old: "slice_inv (partitions w) (the_slice wi sj w)" if "valid_slice wi sj w" for sj
    using inv that by (simp add: win_inv_def)
  have "thawed (partitions w' ! pj) = {}" if "pj \<in> parts_of (the_slice wi si w)" for pj
  proof -
    have "pj < length (partitions w)" using sub[OF si] that by auto
    from th[OF this] old[OF si] that show ?thesis by (simp add: slice_inv_def)
  qed
  then have me: "slice_inv (partitions w') (the_slice wi si w')"
    using idle po[OF si] rp old[OF si] by (simp add: slice_inv_def)
  have "slice_inv (partitions w') (the_slice wi sj w')" if sj: "valid_slice wi sj w" for sj
  proof (cases "sj = si")
    case False
    have disj: "parts_of (the_slice wi si w) \<inter> parts_of (the_slice wi sj w) = {}"
      using inv si sj False by (auto simp: win_inv_def window_wf_def)
    have "thawed (partitions w' ! pj) = thawed (partitions w ! pj)" if "pj \<in> parts_of (the_slice wi sj w)" for pj
    proof -
      have "pj < length (partitions w)" using sub[OF sj] that by auto
      moreover have "running_partition (the_slice wi si w) \<noteq> Some pj" using disj that old[OF si] by (auto simp: slice_inv_def)
      ultimately show ?thesis using th by simp
    qed
    then show ?thesis using slice_inv_cong[of "the_slice wi sj w" "partitions w'" "partitions w"] old[OF sj] other[OF sj False]
      by simp
  qed (use me in simp)
  moreover have "\<forall>p \<in> set (partitions w'). part_ok p"
    using ok shape_lengths(1)[OF sh] by (auto simp: in_set_conv_nth)
  moreover have "thawed (partitions w' ! pj) = {}" if "pj < length (partitions w)"
      "\<forall>sj. valid_slice wi sj w \<longrightarrow> pj \<notin> parts_of (the_slice wi sj w)" for pj
    using that th inv by (simp add: win_inv_def)
  moreover have ninit: "part_completed_cb (partitions w' ! pj) \<noteq> Cb_init" if "pj < length (partitions w)" for pj
    using cb[OF that] inv that by (simp add: win_inv_def cb_inv_def)
  have "cb_inv wi w'"
    unfolding cb_inv_def shape_lengths(1)[OF sh]
  proof (rule conjI; intro allI impI ninit)
    fix pj wj sj assume "pj < length (partitions w)" "part_completed_cb (partitions w' ! pj) = Cb_slice wj sj"
    then have "pj < length (partitions w)" "part_completed_cb (partitions w ! pj) = Cb_slice wj sj"
      using cb by (auto split: if_splits)
    then have "wj = wi \<and> valid_slice wi sj w \<and> pj \<in> parts_of (the_slice wi sj w)"
      using inv unfolding win_inv_def cb_inv_def by blast
    then show "wj = wi \<and> valid_slice wi sj w' \<and> pj \<in> parts_of (the_slice wi sj w')" using v po by blast
  qed
  ultimately show ?thesis
    using inv window_wf_shape[OF sh, of wi] shape_lengths(1)[OF sh]
    by (simp add: win_inv_def v po)
qed

lemma sc_done_stopping:
  assumes "stopping (windows w ! wi)" and "wi < length (windows w)"
  shows "sc_done wi t w = Inr (count_finished wi w)"
  using assms count_finished_simps(2)[OF assms(2)] by (simp add: numeral_2_eq_2 slice_sc_end_cb_Suc Let_def)

lemma disconnect_part_Inr:
  assumes "disconnect_part r w = Inr w'"
  shows "windows w' = windows w" "st_os w' = st_os w" "st_policy w' = st_policy w" "shape w' = shape w"
    "store.more w' = store.more w" "start_time w' = start_time w"
    "pj < length (partitions w) \<Longrightarrow> thawed (partitions w' ! pj) = thawed (partitions w ! pj) \<and>
       part_ok (partitions w' ! pj) = part_ok (partitions w ! pj) \<and>
       processes (partitions w' ! pj) = processes (partitions w ! pj) \<and>
       part_completed_cb (partitions w' ! pj) = (if r = Some pj then Cb_disconnected else part_completed_cb (partitions w ! pj))"
    "length (partitions w') = length (partitions w)"
  using assms
  by (auto simp: disconnect_part_def shape_def upd_part_def disconnect_def nth_list_update
      split: option.splits if_splits intro!: map_list_update_same)

lemma slice_stop_inv:
  assumes run: "slice_stop (sc_done wi) wi si t w = Inr w'" and inv: "win_inv wi w"
    and si: "valid_slice wi si w" and stop: "stopping (windows w ! wi)"
  shows "win_inv wi w' \<and> evolves wi w w' \<and> running_process (the_slice wi si w') = None \<and>
    (\<forall>sj. valid_slice wi sj w \<longrightarrow> sj \<noteq> si \<longrightarrow> the_slice wi sj w' = the_slice wi sj w) \<and>
    (\<forall>pj < length (partitions w). part_completed_cb (partitions w' ! pj) =
      (if pj \<in> parts_of (the_slice wi si w) then Cb_disconnected else part_completed_cb (partitions w ! pj)))"
proof -
  let ?sl = "the_slice wi si w"
  let ?w1 = "upd_slice wi si (\<lambda>sl. sl\<lparr>sl_timer := timer_stop (sl_timer sl)\<rparr>) w"
  have wi: "wi < length (windows w)" and si': "si < length (slices (windows w ! wi))" using si by (simp_all add: valid_slice_def)
  have sl1: "the_slice wi sj ?w1 = (if sj = si then ?sl\<lparr>sl_timer := timer_stop (sl_timer ?sl)\<rparr> else the_slice wi sj w)"
    if "valid_slice wi sj w" for sj using that by (auto simp: the_slice_upd_slice)
  from run obtain w2 w3 where d: "disconnect_part (sl_sc (the_slice wi si ?w1)) ?w1 = Inr w2"
    "disconnect_part (sl_be (the_slice wi si ?w1)) w2 = Inr w3" by (auto simp: slice_stop_def Let_def bindE_Inr_iff)
  note d2 = disconnect_part_Inr[OF d(1)] and d3 = disconnect_part_Inr[OF d(2)]
  have win3: "windows w3 = windows ?w1" using d2(1) d3(1) by simp
  have sl3: "the_slice wi sj w3 = the_slice wi sj ?w1" for sj using win3 by (simp add: the_slice_def)
  have len3: "length (partitions w3) = length (partitions w)" using d2(8) d3(8) by simp
  have th3: "thawed (partitions w3 ! pj) = thawed (partitions w ! pj)" "part_ok (partitions w3 ! pj)"
      "length (processes (partitions w3 ! pj)) = length (processes (partitions w ! pj))"
    if "pj < length (partitions w)" for pj
    using that d2(7,8) d3(7) inv by (auto simp: win_inv_def)
  have cb3: "part_completed_cb (partitions w3 ! pj) =
      (if pj \<in> parts_of ?sl then Cb_disconnected else part_completed_cb (partitions w ! pj))"
    if "pj < length (partitions w)" for pj
    using that d2(7,8) d3(7) sl1[OF si] by (auto simp: parts_of_def)
  have shape1: "shape ?w1 = shape w"
    by (auto simp: shape_def upd_slice_def upd_window_def slice_conf_def intro!: map_list_update_same)
  then have shape3: "shape w3 = shape w" using d2(4) d3(4) by simp
  have ev3: "evolves wi w w3"
    using shape3 d2(2,5) d3(2,5) win3 wi by (auto simp: evolves_def upd_slice_def upd_window_def)
  have sinv: "slice_inv (partitions w) ?sl" using inv si by (simp add: win_inv_def)
  show ?thesis
  proof (cases "running_process ?sl")
    case None
    have "w' = w3" using run d None sl1[OF si] by (auto simp: slice_stop_def Let_def)
    moreover have "win_inv wi w3"
      by (rule quiesce_inv[OF inv si shape3]) (use sl3 sl1 si None th3 sinv cb3 in \<open>auto simp: slice_inv_def\<close>)
    ultimately show ?thesis using ev3 sl3 sl1 si None cb3 by auto
  next
    case (Some i)
    then obtain pi where pi: "running_partition ?sl = Some pi" and pip: "pi \<in> parts_of ?sl"
      using sinv by (auto simp: slice_inv_def)
    have pil: "pi < length (partitions w)" using inv si pip by (auto simp: win_inv_def window_wf_def)
    let ?sl1 = "?sl\<lparr>sl_timer := timer_stop (sl_timer ?sl)\<rparr>"
    from run d Some pi sl1[OF si] obtain found w4 w5 where
      on: "on_slice wi si pi (stop_running pi t) w3 = Inr (found, w4)" and
      cb: "(if \<not> found \<and> Some pi = sl_sc ?sl then sc_done wi t w4 else Inr w4) = Inr w5" and
      w': "w' = upd_slice wi si (\<lambda>sl. sl\<lparr>running_process := None\<rparr>) w5"
      by (auto simp: slice_stop_def Let_def bindE_Inr_iff split: prod.splits)
    from on obtain sl p pp s where si3: "valid_slice wi si w3" and
      ru: "stop_running pi t (get_ctx wi si pi w3) = Inr (found, sl, p, pp, s)" and
      w4: "w4 = put_ctx wi si pi (sl, p, pp, s) w3" by (rule on_slice_Inr)
    have ru': "stop_running pi t (?sl1, partitions w3 ! pi, st_policy w3, st_os w3) = Inr (found, sl, p, pp, s)"
      using ru sl3 sl1[OF si] by (simp add: get_ctx_def)
    have "part_ok (partitions w3 ! pi)" "thawed (partitions w3 ! pi) = set_option (running_process ?sl1)"
      using th3[OF pil] sinv pi pip by (auto simp: slice_inv_def)
    from stop_running_ok[OF ru' this] Some have
      p: "part_ok p" "thawed p = {}" "\<not> tfd_active (sl_timer sl)" and
      fr: "slice_conf sl = slice_conf ?sl" "running_partition sl = Some pi"
        "length (processes p) = length (processes (partitions w3 ! pi))"
        "part_conf p = part_conf (partitions w3 ! pi)" "os_extends (st_os w3) s"
        "part_completed_cb p = part_completed_cb (partitions w3 ! pi)"
      using pi by (auto simp: ctx_frame_def slice_conf_def)
    have pil3: "pi < length (partitions w3)" using pil len3 by simp
    have ev4: "evolves wi w3 w4" unfolding w4
      by (rule evolves_put_ctx[OF si3 pil3]) (use fr sl3 sl1[OF si] in \<open>simp_all add: slice_conf_def\<close>)
    note n4 = put_ctx_nth[OF si3 pil3, where sl = sl and p = p and pp = pp and s = s, folded w4]
    have wi4: "wi < length (windows w4)"
      using ev3 ev4 wi shape_lengths(2) by (metis evolves_def)
    have stop4: "stopping (windows w4 ! wi)" using ev3 ev4 stop by (simp add: evolves_def)
    note c = count_finished_simps[OF wi4]
    have w5: "evolves wi w4 w5 \<and> (\<forall>sj. the_slice wi sj w5 = the_slice wi sj w4) \<and> partitions w5 = partitions w4"
      using cb sc_done_stopping[OF stop4 wi4] c(4,8) by (auto simp: count_finished_def split: if_splits)
    have ev5: "evolves wi w w5" using ev3 ev4 w5 by (blast intro: evolves_trans)
    have v5: "valid_slice wi sj w5 = valid_slice wi sj w" for sj
      using ev5 by (intro valid_slice_shape) (simp add: evolves_def)
    have v3: "valid_slice wi sj w3 = valid_slice wi sj w" for sj by (rule valid_slice_shape[OF shape3])
    have sl': "the_slice wi sj w' = (if sj = si then sl\<lparr>running_process := None\<rparr> else the_slice wi sj w)"
      if "valid_slice wi sj w" for sj
      using that v5 v3 w5 n4(2) sl3 sl1 by (auto simp: w' the_slice_upd_slice)
    have shape': "shape w' = shape w5"
      by (auto simp: w' shape_def upd_slice_def upd_window_def slice_conf_def intro!: map_list_update_same)
    have wi5: "wi < length (windows w5)" using v5[of si] si by (simp add: valid_slice_def)
    have ev': "evolves wi w w'"
      using ev5 shape' wi5 by (auto simp: evolves_def w' upd_slice_def upd_window_def)
    have parts': "partitions w' = (partitions w3)[pi := p]" using w5 n4(3) by (simp add: w')
    have pn: "partitions w' ! pj = (if pj = pi then p else partitions w3 ! pj)" if "pj < length (partitions w)" for pj
      using that len3 by (simp add: parts' nth_list_update)
    have sh: "shape w' = shape w" using ev' by (simp add: evolves_def)
    have "win_inv wi w'"
      by (rule quiesce_inv[OF inv si sh]) (use sl' si p th3 pi fr(2,6) pn cb3 in simp_all)
    with ev' sl' si pn fr(6) cb3 show ?thesis by simp
  qed
qed

lemma stop_loop_inv:
  assumes "foldE (\<lambda>si. slice_stop (sc_done wi) wi si t) [k..<length (slices (windows w ! wi))] w = Inr w'"
    and "win_inv wi w" and "stopping (windows w ! wi)"
    and "\<forall>si < k. valid_slice wi si w \<longrightarrow> running_process (the_slice wi si w) = None \<and>
      (\<forall>pi \<in> parts_of (the_slice wi si w). part_completed_cb (partitions w ! pi) = Cb_disconnected)"
  shows "win_inv wi w' \<and> evolves wi w w' \<and> all_idle wi w' \<and>
    (\<forall>si. valid_slice wi si w' \<longrightarrow>
      (\<forall>pi \<in> parts_of (the_slice wi si w'). part_completed_cb (partitions w' ! pi) = Cb_disconnected))"
  using assms
proof (induction "length (slices (windows w ! wi)) - k" arbitrary: k w)
  case 0
  then have w': "w' = w" and "length (slices (windows w ! wi)) \<le> k" by simp_all
  then have le: "si < k" if "valid_slice wi si w" for si using that by (simp add: valid_slice_def)
  have "wi < length (windows w)" using 0(3) by (simp add: win_inv_def window_wf_def)
  then have "all_idle wi w" using 0(5) le by (simp add: all_idle_def valid_slice_def)
  moreover have "\<forall>si. valid_slice wi si w \<longrightarrow>
      (\<forall>pi \<in> parts_of (the_slice wi si w). part_completed_cb (partitions w ! pi) = Cb_disconnected)"
    using 0(5) le by blast
  ultimately show ?case using 0(3) unfolding w' by simp
next
  case (Suc m)
  let ?n = "length (slices (windows w ! wi))"
  from Suc.hyps(2) have k: "k < ?n" by simp
  have wi: "wi < length (windows w)" using Suc.prems(2) by (simp add: win_inv_def window_wf_def)
  from Suc.prems(1) k obtain w1 where w1: "slice_stop (sc_done wi) wi k t w = Inr w1"
    and rest: "foldE (\<lambda>si. slice_stop (sc_done wi) wi si t) [Suc k..<?n] w1 = Inr w'"
    by (auto simp: upt_conv_Cons bindE_Inr_iff)
  have "valid_slice wi k w" using k wi by (simp add: valid_slice_def)
  note st = slice_stop_inv[OF w1 Suc.prems(2) this Suc.prems(3)]
  have sh: "shape w1 = shape w" using st by (simp add: evolves_def)
  have len: "length (slices (windows w1 ! wi)) = ?n" by (rule shape_lengths(4)[OF sh wi])
  have sub: "parts_of (the_slice wi si w) \<subseteq> {..<length (partitions w)}" if "valid_slice wi si w" for si
    using Suc.prems(2) that by (simp add: win_inv_def window_wf_def)
  have "running_process (the_slice wi si w1) = None \<and>
      (\<forall>pi \<in> parts_of (the_slice wi si w1). part_completed_cb (partitions w1 ! pi) = Cb_disconnected)"
    if "si < Suc k" "valid_slice wi si w1" for si
  proof -
    have si: "valid_slice wi si w" using that(2) valid_slice_shape[OF sh] by simp
    have "part_completed_cb (partitions w1 ! pi) = Cb_disconnected" if pi: "pi \<in> parts_of (the_slice wi si w)" for pi
    proof -
      have "pi < length (partitions w)" using sub[OF si] pi by auto
      moreover have "part_completed_cb (partitions w ! pi) = Cb_disconnected" if "si \<noteq> k"
        using Suc.prems(4)[rule_format, of si] si pi \<open>si < Suc k\<close> that by simp
      ultimately show ?thesis using st pi by (cases "si = k") simp_all
    qed
    moreover have "running_process (the_slice wi si w1) = None"
      using st Suc.prems(4) si \<open>si < Suc k\<close> by (cases "si = k") auto
    ultimately show ?thesis using parts_of_shape[OF sh si] by simp
  qed
  moreover have "stopping (windows w1 ! wi)" using st Suc.prems(3) by (simp add: evolves_def)
  ultimately have "win_inv wi w' \<and> evolves wi w1 w' \<and> all_idle wi w' \<and>
    (\<forall>si. valid_slice wi si w' \<longrightarrow>
      (\<forall>pi \<in> parts_of (the_slice wi si w'). part_completed_cb (partitions w' ! pi) = Cb_disconnected))"
    using Suc.hyps(1)[of w1 "Suc k"] Suc.hyps(2) rest len st by simp
  with st show ?case by (blast intro: evolves_trans)
qed

lemma window_stop_inv:
  assumes run: "window_stop wi t w = Inr w'" and inv: "win_inv wi w"
  shows "win_inv wi w' \<and> shape w' = shape w \<and> all_idle wi w' \<and> os_extends (st_os w) (st_os w') \<and>
    store.more w' = store.more w \<and> (\<forall>wj. wj \<noteq> wi \<longrightarrow> windows w' ! wj = windows w ! wj) \<and>
    \<not> stopping (windows w' ! wi) \<and> (\<forall>pi < length (partitions w'). thawed (partitions w' ! pi) = {}) \<and>
    (\<forall>pi < length (partitions w'). \<forall>wj sj. part_completed_cb (partitions w' ! pi) \<noteq> Cb_slice wj sj)"
proof -
  let ?w = "upd_window wi (\<lambda>win. win\<lparr>stopping := True\<rparr>) w"
  have wi: "wi < length (windows w)" using inv by (simp add: win_inv_def window_wf_def)
  from run obtain w1 where
    loop: "foldE (\<lambda>si. slice_stop (sc_done wi) wi si t) [0..<length (slices (windows ?w ! wi))] ?w = Inr w1" and
    w': "w' = upd_window wi (\<lambda>win. win\<lparr>stopping := False\<rparr>) w1"
    by (auto simp: window_stop_def on_policy_def on_window_end_def Let_def for_slices_def bindE_Inr_iff)
  have inv0: "win_inv wi ?w" by (rule win_inv_upd_window[OF _ inv]) simp
  have l: "win_inv wi w1 \<and> evolves wi ?w w1 \<and> all_idle wi w1 \<and>
      (\<forall>si. valid_slice wi si w1 \<longrightarrow>
        (\<forall>pi \<in> parts_of (the_slice wi si w1). part_completed_cb (partitions w1 ! pi) = Cb_disconnected))"
    by (rule stop_loop_inv[OF loop inv0]) (use wi in \<open>auto simp: windows_upd_window\<close>)
  have inv': "win_inv wi w'" unfolding w' by (rule win_inv_upd_window) (use l in simp_all)
  have wi1: "wi < length (windows w1)" using l by (simp add: win_inv_def window_wf_def)
  have sh: "shape w' = shape w1" "shape ?w = shape w"
    by (auto simp: w' shape_def upd_window_def intro!: map_list_update_same)
  have idle: "all_idle wi w'" using l wi1 by (simp add: w' all_idle_def valid_slice_def the_slice_def windows_upd_window)
  have "thawed (partitions w' ! pi) = {}" if pi: "pi < length (partitions w')" for pi
  proof (cases "\<exists>si. valid_slice wi si w' \<and> pi \<in> parts_of (the_slice wi si w')")
    case True
    then obtain si where si: "valid_slice wi si w'" "pi \<in> parts_of (the_slice wi si w')" by blast
    then have "slice_inv (partitions w') (the_slice wi si w')" using inv' by (simp add: win_inv_def)
    with si idle show ?thesis by (auto simp: slice_inv_def all_idle_def)
  next
    case False
    with inv' pi show ?thesis by (auto simp: win_inv_def)
  qed
  moreover have "part_completed_cb (partitions w' ! pi) \<noteq> Cb_slice wj sj" if pi: "pi < length (partitions w')" for pi wj sj
  proof
    assume eq: "part_completed_cb (partitions w' ! pi) = Cb_slice wj sj"
    have parts: "partitions w' = partitions w1" by (simp add: w')
    have "valid_slice wi sj w1 \<and> pi \<in> parts_of (the_slice wi sj w1)"
      using l eq pi unfolding parts win_inv_def cb_inv_def by blast
    then have "part_completed_cb (partitions w1 ! pi) = Cb_disconnected" using l by blast
    with eq show False by (simp add: parts)
  qed
  ultimately show ?thesis using inv' idle l sh wi1
    by (auto simp: w' evolves_def windows_upd_window) (auto simp: upd_window_def)
qed

subsection \<open>Two levels of the callback are enough\<close>

definition late :: "nat \<Rightarrow> 'a store_scheme \<Rightarrow> bool" where
  "late wi w \<longleftrightarrow> wi < length (windows w) \<and>
     length (slices (windows w ! wi)) \<le> finished_sc_partitions (windows w ! wi)"

lemma late_cb: "late wi w \<Longrightarrow> slice_sc_end_cb (Suc f) wi t w = Inr (count_finished wi w) \<and> late wi (count_finished wi w)"
  using count_finished_simps(1-3)[of wi w]
  by (auto simp: late_def slice_sc_end_cb_Suc Let_def) (simp_all add: count_finished_def)

lemma late_put_ctx:
  assumes "valid_slice wi si w" and "pi < length (partitions w)"
  shows "late wi (put_ctx wi si pi c w) = late wi w"
  using assms by (cases c)
    (simp add: late_def put_ctx_def upd_slice_def upd_part_def upd_window_def valid_slice_def)

lemma late_start_be:
  assumes "late wi w"
  shows "start_be (slice_sc_end_cb (Suc f) wi) wi si t w = start_be (slice_sc_end_cb (Suc g) wi) wi si t w"
    "start_be (slice_sc_end_cb (Suc f) wi) wi si t w = Inr w' \<Longrightarrow> late wi w'"
proof -
  have late1: "late wi w1" if "on_slice wi si pi h w = Inr (r, w1)" for pi h r w1
    using that assms by (auto elim!: on_slice_Inr simp: late_put_ctx)
  show "start_be (slice_sc_end_cb (Suc f) wi) wi si t w = start_be (slice_sc_end_cb (Suc g) wi) wi si t w"
  proof (cases "sl_be (the_slice wi si w)")
    case (Some pi)
    have "slice_sc_end_cb (Suc f) wi t b = slice_sc_end_cb (Suc g) wi t b"
      if "on_slice wi si pi h w = Inr (r, b)" for h r b
      using late_cb[OF late1[OF that]] by simp
    with Some show ?thesis by (auto simp: start_be_def intro!: bindE_cong)
  qed (simp add: start_be_def)
  show "start_be (slice_sc_end_cb (Suc f) wi) wi si t w = Inr w' \<Longrightarrow> late wi w'"
    using assms by (auto simp: start_be_def bindE_Inr_iff late_cb[OF late1] split: option.splits if_splits
        dest: late1)
qed

lemma late_loop:
  "late wi w \<Longrightarrow> foldE (\<lambda>si. start_be (slice_sc_end_cb (Suc f) wi) wi si t) xs w =
     foldE (\<lambda>si. start_be (slice_sc_end_cb (Suc g) wi) wi si t) xs w"
proof (induction xs arbitrary: w)
  case (Cons x xs)
  have eq: "start_be (slice_sc_end_cb (Suc f) wi) wi x t w = start_be (slice_sc_end_cb (Suc g) wi) wi x t w"
    by (rule late_start_be(1)[OF Cons.prems])
  show ?case
    unfolding foldE.simps eq
    by (rule bindE_cong[OF refl], rule Cons.IH) (rule late_start_be(2)[OF Cons.prems])
qed simp

text \<open>
  \<open>returns m\<close>: the computation does not run out of fuel. All other errors are results of the code.
\<close>

definition returns :: "'a result \<Rightarrow> bool" where
  "returns m \<longleftrightarrow> m \<noteq> Inl Out_of_fuel"

named_theorems returning \<open>operations that return\<close>

lemma returns_simps [simp]: "returns (Inr x)" "returns (Inl e) \<longleftrightarrow> e \<noteq> Out_of_fuel"
  by (simp_all add: returns_def)

lemma returns_bindE: "returns m \<Longrightarrow> (\<And>x. m = Inr x \<Longrightarrow> returns (f x)) \<Longrightarrow> returns (bindE m f)"
  by (cases m) simp_all

lemma returns_bind [returning]: "returns m \<Longrightarrow> (\<And>x. returns (f x)) \<Longrightarrow> returns (bindE m f)"
  by (cases m) simp_all

lemma returns_if [returning]: "(c \<Longrightarrow> returns m) \<Longrightarrow> (\<not> c \<Longrightarrow> returns n) \<Longrightarrow> returns (if c then m else n)"
  by simp

lemma returns_split [returning]: "(\<And>x y. p = (x, y) \<Longrightarrow> returns (f x y)) \<Longrightarrow> returns (case p of (x, y) \<Rightarrow> f x y)"
  by (cases p) simp

lemma returns_option [returning]:
  "(r = None \<Longrightarrow> returns m) \<Longrightarrow> (\<And>x. r = Some x \<Longrightarrow> returns (f x)) \<Longrightarrow> returns (case r of None \<Rightarrow> m | Some x \<Rightarrow> f x)"
  by (cases r) simp_all

lemma returns_Let [returning]: "(\<And>x. returns (f x)) \<Longrightarrow> returns (let x = a in f x)"
  by (simp add: Let_def)

lemma returns_foldE [returning]: "(\<And>x s. returns (f x s)) \<Longrightarrow> returns (foldE f xs s)"
  by (induction xs arbitrary: s) (auto intro: returning)

lemma returns_mapE [returning]: "(\<And>x s. returns (f x s)) \<Longrightarrow> returns (mapE f xs s)"
  by (induction xs arbitrary: s) (auto intro!: returning)

lemma returns_system [returning]: "returns (CHECK ev s)" "returns (ASSERT c msg s)"
  by (simp_all add: CHECK_def ASSERT_def split: prod.splits option.splits)

lemma returns_cgroup [returning]: "returns (freeze g s)" "returns (unfreeze g s)" "returns (set_cpus cpus gc s)"
  unfolding freeze_def unfreeze_def set_cpus_def by (auto intro!: returning)

lemma returns_timer [returning]: "returns (timer_start t tm s)"
  unfolding timer_start_def by (auto intro!: returning)

lemma returns_process [returning]: "returns (suspend q s)" "returns (resume q s)" "returns (get_actual_budget q s)"
  unfolding suspend_def resume_def get_actual_budget_def by (auto intro!: returning)

lemma returns_seek [returning]: "returns (seek_loop k p)" "returns (seek_pending_process p)"
proof -
  show *: "returns (seek_loop k p)" for k p
    by (induction k arbitrary: p) (auto simp: move_to_next_proc_def intro!: returning)
  then show "returns (seek_pending_process p)" by (simp add: seek_pending_process_def)
qed

lemma returns_partition [returning]:
  "returns (reset first cpus cb p s)" "(\<And>q s. returns (f q s)) \<Longrightarrow> returns (on_proc i f p s)"
  unfolding reset_def on_proc_def by (auto intro!: returning)

lemma returns_frequency [returning]: "returns (validate_frequency c f)" "returns (write_frequency f c s)"
proof -
  show *: "returns (validate_frequency c f)" for c f by (auto simp: validate_frequency_def split: option.splits)
  show "returns (write_frequency f c s)" unfolding write_frequency_def by (auto intro!: returning *)
qed

lemma returns_policy [returning]: "returns (on_process_start r req cpus pp s)" "returns (on_be_start pp s)"
  by (cases pp; auto simp: cluster_process_start_def write_all_def intro!: returning)+

lemma returns_start_next_process [returning]: "returns (start_next_process t0 t pi c)"
proof (induction t0 t pi c rule: start_next_process.induct)
  case (1 t0 t pi sl p pp s)
  have load: "returns (load_next_process c)" and launch: "returns (launch_process t0 t pi i b c)" for c i b
    unfolding load_next_process_def launch_process_def by (auto intro!: returning)
  show ?case
  proof (subst start_next_process.simps, rule returns_bindE[OF load])
    fix r assume r: "load_next_process (sl, p, pp, s) = Inr r"
    obtain found sl' p' pp' s' where eq: "r = (found, sl', p', pp', s')" by (cases r) auto
    have skip: "returns (start_next_process t0 t pi (sl'\<lparr>running_process := None\<rparr>, upd_proc i mark_completed p', pp', s''))"
      if "running_process sl' = Some i" "get_actual_budget (processes p' ! i) s' = Inr (0, s'')" for i s''
      using 1[OF r] that by (simp add: eq)
    show "returns (case r of (found, sl, p, pp, s) \<Rightarrow> case running_process sl of None \<Rightarrow> Inr (False, sl, p, pp, s)
       | Some i \<Rightarrow> bindE (get_actual_budget (processes p ! i) s) (\<lambda>(b, s). if b = 0
         then start_next_process t0 t pi (sl\<lparr>running_process := None\<rparr>, upd_proc i mark_completed p, pp, s)
         else bindE (launch_process t0 t pi i b (sl, p, pp, s)) (\<lambda>c. Inr (True, c))))"
      by (auto simp: eq intro!: returns_option returns_bindE skip launch returns_process split: option.split)
  qed
qed

lemma returns_start_partition [returning]: "returns (start_partition t0 pi cb t first c)"
  unfolding start_partition_def by (auto intro!: returning)

lemma returns_on_slice [returning]: "(\<And>c. returns (f c)) \<Longrightarrow> returns (on_slice wi si pi f w)"
  unfolding on_slice_def by (simp add: returns_bind case_prod_beta)

text \<open>Once all slices are counted, a nested call returns at once, and with it the loop that starts the partitions.\<close>

lemma late_start_be_returns:
  assumes "late wi w"
  shows "returns (start_be (slice_sc_end_cb (Suc f) wi) wi si t w)"
proof -
  have "returns (slice_sc_end_cb (Suc f) wi t w1)" if "on_slice wi si pi h w = Inr (r, w1)" for pi h r w1
    using that assms late_cb[of wi w1 f t] by (auto elim!: on_slice_Inr simp: late_put_ctx)
  then show ?thesis unfolding start_be_def by (auto intro!: returns_option returns_bindE returns_on_slice returns_start_partition)
qed

lemma late_loop_returns:
  "late wi w \<Longrightarrow> returns (foldE (\<lambda>si. start_be (slice_sc_end_cb (Suc f) wi) wi si t) xs w)"
proof (induction xs arbitrary: w)
  case (Cons x xs)
  then show ?case by (auto intro!: returns_bindE late_start_be_returns dest: late_start_be(2))
qed simp

text \<open>
  C23. The recursion of \<open>slice_sc_end_cb\<close> through \<open>start_be\<close> ends: with two levels of fuel or more the callback
  never runs out of it, whatever the window and the state of its slices are, and every such fuel gives the same
  result. So the model's callback is the unbounded recursion of the code, which always comes back.
\<close>

theorem slice_sc_end_cb_fuel:
  assumes "wi < length (windows w)"
  shows "slice_sc_end_cb (Suc (Suc f)) wi t w \<noteq> Inl Out_of_fuel \<and>
    slice_sc_end_cb (Suc (Suc f)) wi t w = slice_sc_end_cb 2 wi t w"
proof -
  let ?w = "count_finished wi w"
  have late: "late wi ?w" if "finished_sc_partitions (windows ?w ! wi) = length (slices (windows ?w ! wi))"
    using that assms by (simp add: late_def count_finished_def)
  have "returns (slice_sc_end_cb (Suc (Suc f)) wi t w)"
    unfolding slice_sc_end_cb_Suc[of "Suc _"] Let_def for_slices_def
    by (auto intro!: returns_if returns_bindE late_loop_returns late simp: on_policy_def has_sc_finished_def intro: returning)
  moreover have "slice_sc_end_cb (Suc (Suc f)) wi t w = slice_sc_end_cb 2 wi t w"
    using late
    by (auto simp: numeral_2_eq_2 slice_sc_end_cb_Suc[of "Suc _"] Let_def for_slices_def
        intro!: arg_cong2[of _ _ _ _ bindE] late_loop)
  ultimately show ?thesis by (simp add: returns_def)
qed

subsection \<open>Runs of a window\<close>

text \<open>Timers and completion messages reach the slices of the active window in any order.\<close>

definition window_event :: "nat \<Rightarrow> nat \<times> time_point \<Rightarrow> 'a store_scheme \<Rightarrow> 'a store_scheme result" where
  "window_event wi ev w = slice_schedule_next (sc_done wi) wi (fst ev) (snd ev) w"

definition window_running :: "nat \<Rightarrow> 'a store_scheme \<Rightarrow> bool" where
  "window_running wi w \<longleftrightarrow> sched_inv wi (length (slices (windows w ! wi))) 0 w"

lemma window_running_event:
  "window_running wi w \<Longrightarrow> window_event wi ev w = Inr w' \<Longrightarrow> window_running wi w'"
proof -
  assume inv: "window_running wi w" and run: "window_event wi ev w = Inr w'"
  from schedule_next_inv[OF run[unfolded window_event_def]] inv
  have "sched_inv wi (length (slices (windows w ! wi))) 0 w'" "shape w' = shape w"
    by (auto simp: window_running_def evolves_def)
  with shape_lengths(4)[of w' w wi] inv show ?thesis
    by (simp add: window_running_def sched_inv_window[of wi _ 0 w])
qed

interpretation window_run: event_machine "window_event wi" "window_running wi" for wi
  by unfold_locales (rule window_running_event)

text \<open>
  C11. While a window runs, in whatever order its slices are served: a slice executes at most the one
  process it holds, every other process of the partitions is frozen; best-effort partitions run
  only after the safety critical partitions of all slices are finished, and then no safety
  critical partition runs.
\<close>

theorem window_executes_sc_before_be:
  assumes "win_inv wi w" and "all_idle wi w" and "\<not> stopping (windows w ! wi)"
    and "window_start wi t w = Inr w0" and "foldE (window_event wi) evs w0 = Inr w'"
  shows "(\<forall>pi < length (partitions w'). \<forall>i. i \<in> thawed (partitions w' ! pi) \<longrightarrow>
      (\<exists>!si. valid_slice wi si w' \<and> running_partition (the_slice wi si w') = Some pi \<and>
        running_process (the_slice wi si w') = Some i)) \<and>
    (\<forall>si. valid_slice wi si w' \<longrightarrow> running_process (the_slice wi si w') \<noteq> None \<longrightarrow>
      running_partition (the_slice wi si w') \<noteq> sl_sc (the_slice wi si w') \<longrightarrow>
      length (slices (windows w' ! wi)) \<le> finished_sc_partitions (windows w' ! wi) \<and>
      (\<forall>sj. valid_slice wi sj w' \<longrightarrow> running_process (the_slice wi sj w') \<noteq> None \<longrightarrow>
        running_partition (the_slice wi sj w') = sl_be (the_slice wi sj w')))"
proof -
  have "window_running wi w0"
    using window_start_inv[OF assms(4,1,2,3)] by (simp add: window_running_def)
  from window_run.run_inv[OF this assms(5)] have run: "window_running wi w'" .
  then have inv: "win_inv wi w'" by (simp add: window_running_def sched_inv_def)
  have "\<exists>!si. valid_slice wi si w' \<and> running_partition (the_slice wi si w') = Some pi \<and>
        running_process (the_slice wi si w') = Some i"
    if pi: "pi < length (partitions w')" and i: "i \<in> thawed (partitions w' ! pi)" for pi i
  proof -
    have "\<exists>si. valid_slice wi si w' \<and> pi \<in> parts_of (the_slice wi si w')"
      using inv pi i unfolding win_inv_def by blast
    then obtain si where si: "valid_slice wi si w'" "pi \<in> parts_of (the_slice wi si w')" by blast
    have sinv: "slice_inv (partitions w') (the_slice wi sj w')" if "valid_slice wi sj w'" for sj
      using inv that by (simp add: win_inv_def)
    have "running_partition (the_slice wi si w') = Some pi \<and> running_process (the_slice wi si w') = Some i"
      using sinv[OF si(1)] si(2) i by (auto simp: slice_inv_def split: if_splits)
    moreover have "sj = si" if "valid_slice wi sj w'" "running_partition (the_slice wi sj w') = Some pi" for sj
    proof -
      have "pi \<in> parts_of (the_slice wi sj w')" using sinv[OF that(1)] that(2) by (simp add: slice_inv_def)
      then show ?thesis using inv si that(1) unfolding win_inv_def window_wf_def by blast
    qed
    ultimately show ?thesis using si(1) by blast
  qed
  moreover have "length (slices (windows w' ! wi)) \<le> finished_sc_partitions (windows w' ! wi) \<and>
      (\<forall>sj. valid_slice wi sj w' \<longrightarrow> running_process (the_slice wi sj w') \<noteq> None \<longrightarrow>
        running_partition (the_slice wi sj w') = sl_be (the_slice wi sj w'))"
    if "valid_slice wi si w'" "running_process (the_slice wi si w') \<noteq> None"
      "running_partition (the_slice wi si w') \<noteq> sl_sc (the_slice wi si w')" for si
    using run that by (auto simp: window_running_def sched_inv_def Let_def valid_slice_def split: if_splits)
  ultimately show ?thesis by blast
qed

text \<open>
  C12. Stopping a window leaves no process of any partition running, no process assigned to a slice
  and no slice timer active, and returns the window to the state in which it can be started.
\<close>

theorem window_stop_freezes_everything:
  assumes "win_inv wi w" and "window_stop wi t w = Inr w'"
  shows "(\<forall>pi < length (partitions w'). thawed (partitions w' ! pi) = {}) \<and>
    (\<forall>si. valid_slice wi si w' \<longrightarrow> running_process (the_slice wi si w') = None \<and>
       \<not> tfd_active (sl_timer (the_slice wi si w'))) \<and>
    win_inv wi w' \<and> all_idle wi w' \<and> \<not> stopping (windows w' ! wi)"
proof -
  note st = window_stop_inv[OF assms(2,1)]
  have "\<not> tfd_active (sl_timer (the_slice wi si w'))" if "valid_slice wi si w'" for si
  proof -
    have "slice_inv (partitions w') (the_slice wi si w')" using st that by (simp add: win_inv_def)
    with st that show ?thesis by (simp add: slice_inv_def all_idle_def)
  qed
  with st show ?thesis by (simp add: all_idle_def)
qed

subsection \<open>A window that cannot fail\<close>

text \<open>
  What the environment has to grant: no system call fails, the power policy has no handlers, stored
  budgets are sound and no slice has an empty CPU set.
\<close>

definition live :: "nat \<Rightarrow> 'a store_scheme \<Rightarrow> bool" where
  "live wi w \<longleftrightarrow> io_ok (st_os w) \<and> pp_silent (st_policy w) \<and> (\<forall>p \<in> set (partitions w). budgets_ok p) \<and>
     (\<forall>si. valid_slice wi si w \<longrightarrow> sl_cpus (the_slice wi si w) \<noteq> 0)"

lemma live_count [simp]: "wi < length (windows w) \<Longrightarrow> live wi (count_finished wi w) = live wi w"
  using count_finished_simps(4,5)[of wi w] by (simp add: live_def) (simp add: count_finished_def)

lemma reset_total:
  assumes "io_ok s" and "cpus \<noteq> 0" and "cb \<noteq> Cb_null" and "budgets_ok p"
  shows "\<exists>q t. reset first cpus cb p s = Inr (q, t) \<and> io_ok t \<and> budgets_ok q"
proof -
  obtain g t where g: "set_cpus cpus (part_cgc (clear_completed_flag p)) s = Inr (g, t)" "os_extends s t"
    using io_ok_set_cpus[OF assms(1,2)] by blast
  have "budgets_ok (clear_completed_flag p)"
    using assms(4) by (simp add: budgets_ok_def clear_completed_flag_def mark_uncompleted_def)
  with g assms(1,3) show ?thesis
    by (simp add: reset_def Let_def os_extends_io_ok) (simp add: budgets_ok_def)
qed

lemma start_partition_total:
  assumes "io_ok s" and "pp_silent pp" and "part_ok p" and "budgets_ok p" and "running_process sl = None"
    and "sl_cpus sl \<noteq> 0" and "cb \<noteq> Cb_null"
  shows "\<exists>found sl' p' s'. start_partition t0 pi cb t first (sl, p, pp, s) = Inr (found, sl', p', pp, s') \<and> budgets_ok p'"
proof -
  obtain q u where q: "reset first (sl_cpus sl) cb p s = Inr (q, u)" "io_ok u" "budgets_ok q"
    using reset_total[OF assms(1,6,7,4)] by blast
  have "part_ok q" using reset_ok[OF q(1) assms(3)] by simp
  from start_next_process_total[OF q(2) assms(2) this q(3), of "sl\<lparr>running_partition := Some pi\<rparr>" t0 t pi] assms(5) q(1)
  show ?thesis by (simp add: start_partition_def)
qed

lemma live_put_ctx:
  assumes "live wi w" and "valid_slice wi si w" and "pi < length (partitions w)"
    and "slice_conf sl = slice_conf (the_slice wi si w)" and "budgets_ok p" and "os_extends (st_os w) s"
  shows "live wi (put_ctx wi si pi (sl, p, st_policy w, s) w)"
proof -
  have "sl_cpus sl = sl_cpus (the_slice wi si w)" using assms(4) by (simp add: slice_conf_def)
  moreover have "st_os (put_ctx wi si pi (sl, p, st_policy w, s) w) = s"
    "st_policy (put_ctx wi si pi (sl, p, st_policy w, s) w) = st_policy w" by (simp_all add: put_ctx_def)
  moreover have "\<forall>q \<in> set ((partitions w)[pi := p]). budgets_ok q"
    using assms(1,5) set_update_subset_insert[of "partitions w" pi p] by (auto simp: live_def)
  ultimately show ?thesis
    using assms(1,2,6) put_ctx_nth[OF assms(2,3)] by (auto simp: live_def os_extends_io_ok)
qed

lemma on_slice_start_total:
  assumes inv: "win_inv wi w" and lv: "live wi w" and si: "valid_slice wi si w"
    and pi: "pi \<in> parts_of (the_slice wi si w)" and idle: "running_process (the_slice wi si w) = None"
  shows "\<exists>found w'. on_slice wi si pi (start_partition t0 pi (Cb_slice wi si) t first) w = Inr (found, w') \<and> live wi w'"
proof -
  have ok: "part_ok (partitions w ! pi)" "pi < length (partitions w)"
    using get_ctx_ok[OF inv si pi] idle by (auto simp: ctx_ok_def get_ctx_def)
  have bo: "budgets_ok (partitions w ! pi)" using lv ok(2) by (simp add: live_def)
  have "io_ok (st_os w)" "pp_silent (st_policy w)" "sl_cpus (the_slice wi si w) \<noteq> 0" using lv si by (auto simp: live_def)
  from start_partition_total[OF this(1,2) ok(1) bo idle this(3)] obtain found sl p s where
    run: "start_partition t0 pi (Cb_slice wi si) t first (get_ctx wi si pi w) = Inr (found, sl, p, st_policy w, s)" "budgets_ok p"
    unfolding get_ctx_def by (metis completion_cb.distinct(3))
  then have on: "on_slice wi si pi (start_partition t0 pi (Cb_slice wi si) t first) w = Inr (found, put_ctx wi si pi (sl, p, st_policy w, s) w)"
    using si ok(2) by (simp add: on_slice_def)
  from on_slice_start[OF on inv pi idle] have ev: "evolves wi w (put_ctx wi si pi (sl, p, st_policy w, s) w)"
    by (simp add: slice_step_def)
  have "shape (put_ctx wi si pi (sl, p, st_policy w, s) w) = shape w" using ev by (simp add: evolves_def)
  from shape_lengths(5)[OF this, of wi si] si have "slice_conf sl = slice_conf (the_slice wi si w)"
    using put_ctx_nth(2)[OF si ok(2) si, where sl = sl and p = p and pp = "st_policy w" and s = s]
    by (simp add: valid_slice_def)
  moreover have "os_extends (st_os w) s" using ev by (simp add: evolves_def) (simp add: put_ctx_def)
  ultimately show ?thesis using on live_put_ctx[OF lv si ok(2) _ run(2)] by blast
qed

lemma start_be_total:
  assumes inv: "sched_inv wi k 0 w" and fin: "length (slices (windows w ! wi)) \<le> finished_sc_partitions (windows w ! wi)"
    and lv: "live wi w" and si: "valid_slice wi si w" and idle: "running_process (the_slice wi si w) = None"
  shows "\<exists>w'. start_be (slice_sc_end_cb (Suc f) wi) wi si t w = Inr w' \<and> live wi w'"
proof (cases "sl_be (the_slice wi si w)")
  case None
  with lv show ?thesis by (simp add: start_be_def)
next
  case (Some pi)
  have wini: "win_inv wi w" using inv by (simp add: sched_inv_def)
  have pi: "pi \<in> parts_of (the_slice wi si w)" using Some by (simp add: parts_of_def)
  obtain found w1 where
    on: "on_slice wi si pi (start_partition (start_time w) pi (Cb_slice wi si) t False) w = Inr (found, w1)" and lv1: "live wi w1"
    using on_slice_start_total[OF wini lv si pi idle] by blast
  have "late wi w" using fin sched_inv_window[OF inv] by (simp add: late_def)
  then have late: "late wi w1" using on by (auto elim!: on_slice_Inr simp: late_put_ctx)
  then have "wi < length (windows w1)" by (simp add: late_def)
  with Some on lv1 late_cb[OF late] show ?thesis by (auto simp: start_be_def)
qed

lemma be_loop_total:
  assumes "sched_inv wi k 0 w" and "length (slices (windows w ! wi)) \<le> finished_sc_partitions (windows w ! wi)"
    and "live wi w" and "\<forall>si \<in> set xs. valid_slice wi si w \<and> running_process (the_slice wi si w) = None" and "distinct xs"
  shows "\<exists>w'. foldE (\<lambda>si. start_be (slice_sc_end_cb (Suc f) wi) wi si t) xs w = Inr w' \<and> live wi w'"
  using assms
proof (induction xs arbitrary: w)
  case (Cons x xs)
  have x: "valid_slice wi x w" "running_process (the_slice wi x w) = None" using Cons.prems(4) by auto
  obtain w1 where w1: "start_be (slice_sc_end_cb (Suc f) wi) wi x t w = Inr w1" "live wi w1"
    using start_be_total[OF Cons.prems(1-3) x] by blast
  note st = start_be_inv[OF w1(1) Cons.prems(1,2) x]
  have "valid_slice wi si w1 = valid_slice wi si w" for si
    using st by (intro valid_slice_shape) (simp add: evolves_def)
  then have "\<forall>si \<in> set xs. valid_slice wi si w1 \<and> running_process (the_slice wi si w1) = None"
    using Cons.prems(4,5) st by auto
  from Cons.IH[OF _ _ w1(2) this] st w1(1) Cons.prems(5) show ?case by simp
qed simp

lemma sc_end_total:
  assumes inv: "sched_inv wi k 1 w" and lv: "live wi w"
  shows "\<exists>w'. slice_sc_end_cb (Suc (Suc f)) wi t w = Inr w' \<and> live wi w'"
proof (cases "finished_sc_partitions (windows w ! wi) < length (slices (windows w ! wi))")
  case False
  with be_phase_cb(1)[OF inv] lv sched_inv_window[OF inv] show ?thesis by simp
next
  case True
  let ?n = "length (slices (windows w ! wi))" and ?w = "count_finished wi w"
  have wi: "wi < length (windows w)" by (rule sched_inv_window[OF inv])
  note c = count_finished_simps[OF wi]
  have card: "Suc (finished_sc_partitions (windows w ! wi)) = card (idle_slices wi k w)"
    using inv True by (simp add: sched_inv_def Let_def)
  show ?thesis
  proof (cases "Suc (finished_sc_partitions (windows w ! wi)) = ?n")
    case False
    then show ?thesis using lv wi c(1-3) by (simp add: slice_sc_end_cb_Suc Let_def)
  next
    case all: True
    with inv card card_idle_full[of wi k w] have k: "k = ?n" "\<forall>si < ?n. running_process (the_slice wi si w) = None"
      by (auto simp: sched_inv_def Let_def)
    have inv1: "sched_inv wi k 0 ?w" using inv c k all by (simp add: sched_inv_def Let_def)
    have "\<forall>si \<in> set [0..<?n]. valid_slice wi si ?w \<and> running_process (the_slice wi si ?w) = None"
      using c(4,5) k(2) wi by (simp add: valid_slice_def[of wi _ w])
    from be_loop_total[OF inv1 _ _ this] c(1,3) all lv wi obtain w1 where
      "foldE (\<lambda>si. start_be (slice_sc_end_cb (Suc f) wi) wi si t) [0..<?n] ?w = Inr w1" "live wi w1" by fastforce
    moreover then have "on_policy on_be_start w1 = Inr w1" by (simp add: on_policy_def live_def)
    ultimately show ?thesis
      using inv c(1-3) all by (auto simp: slice_sc_end_cb_Suc Let_def for_slices_def sched_inv_def)
  qed
qed

lemma start_sc_total:
  assumes inv: "sched_inv wi k 0 w" and lv: "live wi w" and k: "k < length (slices (windows w ! wi))"
  shows "\<exists>w'. start_sc (sc_done wi) wi k t w = Inr w' \<and> live wi w'"
proof -
  let ?n = "length (slices (windows w ! wi))"
  have wi: "wi < length (windows w)" by (rule sched_inv_window[OF inv])
  have wini: "win_inv wi w" using inv by (simp add: sched_inv_def)
  have si: "valid_slice wi k w" using wi k by (simp add: valid_slice_def)
  have idle: "running_process (the_slice wi k w) = None" using inv k by (simp add: sched_inv_def Let_def)
  have cbt: "\<exists>w'. sc_done wi t u = Inr w' \<and> live wi w'"
    if "sched_inv wi (Suc k) 1 u" "live wi u" for u :: "'a store_scheme"
    using sc_end_total[OF that, of 0 t] by (simp add: numeral_2_eq_2)
  show ?thesis
  proof (cases "sl_sc (the_slice wi k w)")
    case None
    have "sched_inv wi (Suc k) 1 w" by (rule start_sc_none[OF inv k])
    with None lv cbt show ?thesis by (simp add: start_sc_def)
  next
    case (Some pi)
    then have pi: "pi \<in> parts_of (the_slice wi k w)" by (simp add: parts_of_def)
    obtain found w1 where
      on: "on_slice wi k pi (start_partition (start_time w) pi (Cb_slice wi k) t True) w = Inr (found, w1)" and lv1: "live wi w1"
      using on_slice_start_total[OF wini lv si pi idle] by blast
    have "sched_inv wi (Suc k) (if found then 0 else 1) w1" by (rule start_sc_some[OF inv k Some on])
    with Some on lv1 cbt show ?thesis by (cases found) (auto simp: start_sc_def)
  qed
qed

lemma start_loop_total:
  assumes "sched_inv wi k 0 w" and "live wi w" and "k \<le> length (slices (windows w ! wi))"
  shows "\<exists>w'. foldE (\<lambda>si. start_sc (sc_done wi) wi si t) [k..<length (slices (windows w ! wi))] w = Inr w' \<and> live wi w'"
  using assms
proof (induction "length (slices (windows w ! wi)) - k" arbitrary: k w)
  case (Suc m)
  let ?n = "length (slices (windows w ! wi))"
  from Suc.hyps(2) have k: "k < ?n" by simp
  obtain w1 where w1: "start_sc (sc_done wi) wi k t w = Inr w1" "live wi w1"
    using start_sc_total[OF Suc.prems(1,2) k] by blast
  note st = start_sc_inv[OF w1(1) Suc.prems(1) k]
  have "shape w1 = shape w" using st by (simp add: evolves_def)
  from shape_lengths(4)[OF this sched_inv_window[OF Suc.prems(1)]]
  have len: "length (slices (windows w1 ! wi)) = ?n" .
  have "\<exists>w'. foldE (\<lambda>si. start_sc (sc_done wi) wi si t) [Suc k..<length (slices (windows w1 ! wi))] w1 = Inr w' \<and> live wi w'"
    by (rule Suc.hyps(1)) (use Suc.hyps(2) len st k w1 in auto)
  with w1 len k show ?case by (simp add: upt_conv_Cons)
qed simp

lemma window_start_total:
  assumes "win_inv wi w" and "all_idle wi w" and "\<not> stopping (windows w ! wi)" and "live wi w"
  shows "\<exists>w'. window_start wi t w = Inr w' \<and> live wi w'"
proof -
  let ?w = "upd_window wi (\<lambda>win. win\<lparr>finished_sc_partitions := 0\<rparr>) w"
  have wi: "wi < length (windows w)" using assms(1) by (simp add: win_inv_def window_wf_def)
  have inv0: "sched_inv wi 0 0 ?w"
    using win_inv_upd_window[OF _ assms(1), of "\<lambda>win. win\<lparr>finished_sc_partitions := 0\<rparr>"] assms(2,3) wi
    by (auto simp: sched_inv_def Let_def windows_upd_window idle_slices_def the_slice_def all_idle_def valid_slice_def)
  have lv: "live wi ?w" using assms(4) wi by (simp add: live_def valid_slice_def the_slice_def windows_upd_window)
  obtain w1 where w1: "foldE (\<lambda>si. start_sc (sc_done wi) wi si t) [0..<length (slices (windows ?w ! wi))] ?w = Inr w1" "live wi w1"
    using start_loop_total[OF inv0 lv] by auto
  then have "pp_silent (st_policy w1)" by (simp add: live_def)
  with w1 show ?thesis by (auto simp: window_start_def for_slices_def Let_def on_policy_def)
qed

lemma window_event_total:
  assumes run: "window_running wi w" and lv: "live wi w" and si: "valid_slice wi (fst ev) w"
    and rp: "running_process (the_slice wi (fst ev) w) \<noteq> None"
  shows "\<exists>w'. window_event wi ev w = Inr w' \<and> live wi w'"
proof -
  let ?n = "length (slices (windows w ! wi))"
  have inv: "sched_inv wi ?n 0 w" using run by (simp add: window_running_def)
  have wini: "win_inv wi w" using inv by (simp add: sched_inv_def)
  obtain i where i: "running_process (the_slice wi (fst ev) w) = Some i" using rp by blast
  have sinv: "slice_inv (partitions w) (the_slice wi (fst ev) w)" using wini si by (simp add: win_inv_def)
  with rp obtain pi where pi: "running_partition (the_slice wi (fst ev) w) = Some pi"
    and pp: "pi \<in> parts_of (the_slice wi (fst ev) w)" by (auto simp: slice_inv_def)
  have ctx: "ctx_ok (get_ctx wi (fst ev) pi w)" and lt: "pi < length (partitions w)"
    using get_ctx_ok[OF wini si pp] pi by blast+
  have th: "part_ok (partitions w ! pi)" "i < length (processes (partitions w ! pi))"
    using ctx i by (auto simp: ctx_ok_def get_ctx_def thawed_def split: if_splits)
  have env: "io_ok (st_os w)" "pp_silent (st_policy w)" "budgets_ok (partitions w ! pi)"
    using lv lt by (auto simp: live_def)
  obtain sl1 p1 pp1 s1 where st: "stop_current_process True pi (get_ctx wi (fst ev) pi w) = Inr (sl1, p1, pp1, s1)" "budgets_ok p1"
    using stop_current_process_total[OF env(1) i th(2) env(3)] unfolding get_ctx_def by blast
  have th': "thawed (partitions w ! pi) = set_option (running_process (the_slice wi (fst ev) w))"
    using ctx by (simp add: ctx_ok_def get_ctx_def)
  note st' = stop_current_process_ok[OF st(1)[unfolded get_ctx_def] th(1) th']
  have pp1: "pp1 = st_policy w" using st(1) env(2) by (auto simp: get_ctx_def elim!: stop_current_process_Inr)
  have "io_ok s1" "part_ok p1" using st' env(1) by (auto simp: ctx_frame_def ctx_ok_def os_extends_io_ok)
  from start_next_process_total[OF this(1) env(2) this(2) st(2), of sl1 "start_time w" "snd ev" pi] st' obtain found sl p s where
    run: "schedule_next (start_time w) pi (snd ev) (get_ctx wi (fst ev) pi w) = Inr (found, sl, p, st_policy w, s)"
    and bo: "budgets_ok p" using st(1) pp1 by (auto simp: schedule_next_def)
  then have on: "on_slice wi (fst ev) pi (schedule_next (start_time w) pi (snd ev)) w =
      Inr (found, put_ctx wi (fst ev) pi (sl, p, st_policy w, s) w)" using si lt by (simp add: on_slice_def)
  let ?w1 = "put_ctx wi (fst ev) pi (sl, p, st_policy w, s) w"
  have fr: "ctx_frame (get_ctx wi (fst ev) pi w) (sl, p, st_policy w, s)"
    using schedule_next_ok[OF run[unfolded get_ctx_def] ctx[unfolded get_ctx_def]] by (simp add: get_ctx_def)
  have lv1: "live wi ?w1" by (rule live_put_ctx[OF lv si lt ctx_frame_get(1)[OF fr] bo ctx_frame_get(5)[OF fr]])
  have "sched_inv wi ?n 1 ?w1" if "\<not> found" using schedule_next_step[OF on inv pi] that by simp
  with sc_end_total[OF _ lv1, of ?n 0 "snd ev"] on pi lv1 show ?thesis
    by (auto simp: window_event_def slice_schedule_next_def numeral_2_eq_2)
qed

text \<open>
  The events that reach a slice are its timer and the completion messages of its process; both are
  served while the slice runs a process. Restricted to these events, no handler throws.
\<close>

definition served :: "nat \<Rightarrow> nat \<times> time_point \<Rightarrow> 'a store_scheme \<Rightarrow> bool" where
  "served wi ev w \<longleftrightarrow> valid_slice wi (fst ev) w \<and> running_process (the_slice wi (fst ev) w) \<noteq> None"

definition window_served :: "nat \<Rightarrow> nat \<times> time_point \<Rightarrow> 'a store_scheme \<Rightarrow> 'a store_scheme result" where
  "window_served wi ev w =
     (if served wi ev w then window_event wi ev w else Inl (Runtime_error ''event not delivered''))"

lemma window_served_Inr:
  "window_served wi ev w = Inr w' \<longleftrightarrow> served wi ev w \<and> window_event wi ev w = Inr w'"
  by (simp add: window_served_def)

lemma window_served_total:
  assumes "window_running wi w" and "live wi w" and "served wi ev w"
  shows "\<exists>w'. window_event wi ev w = Inr w' \<and> live wi w'"
  using window_event_total[OF assms(1,2), of ev] assms(3) by (auto simp: served_def)

interpretation window_live: live_machine "window_served wi" "\<lambda>w. window_running wi w \<and> live wi w" "served wi" for wi
proof
  fix s :: "'a store_scheme" and t ev
  assume inv: "window_running wi s \<and> live wi s" and run: "window_served wi ev s = Inr t"
  from run have "served wi ev s" "window_event wi ev s = Inr t" by (simp_all add: window_served_Inr)
  with inv show "window_running wi t \<and> live wi t"
    using window_served_total[of wi s ev] window_running_event[of wi s ev t] by auto
next
  fix s :: "'a store_scheme" and ev
  assume "window_running wi s \<and> live wi s" and "served wi ev s"
  then show "\<exists>t. window_served wi ev s = Inr t"
    using window_served_total[of wi s ev] by (auto simp: window_served_Inr)
qed

text \<open>
  C14. A window does not fail on a system whose calls succeed, where the power policy has no handlers, the stored
  budgets are sound and the CPU sets of its slices are not empty (\<open>live\<close>). From rest the window can be started, and
  after every sequence of served events the next timer or completion message of a slice with a running process
  is handled: no assertion fails, no pointer dangles. These conditions are kept.
\<close>

theorem window_never_fails:
  assumes "win_inv wi w" and "live wi w" and "all_idle wi w" and "\<not> stopping (windows w ! wi)"
  shows "\<exists>w0. window_start wi t w = Inr w0 \<and> window_running wi w0 \<and> live wi w0 \<and>
    (\<forall>evs w'. foldE (window_served wi) evs w0 = Inr w' \<longrightarrow>
       window_running wi w' \<and> (\<forall>ev. served wi ev w' \<longrightarrow> (\<exists>w''. window_event wi ev w' = Inr w'' \<and> live wi w'')))"
proof -
  obtain w0 where w0: "window_start wi t w = Inr w0" "live wi w0"
    using window_start_total[OF assms(1,3,4,2)] by blast
  have run: "window_running wi w0"
    using window_start_inv[OF w0(1) assms(1,3,4)] by (simp add: window_running_def)
  have "window_running wi w' \<and> live wi w'" if "foldE (window_served wi) evs w0 = Inr w'" for evs w'
    using window_live.run_inv[OF _ that] w0(2) run by blast
  with w0 run show ?thesis by (blast intro: window_served_total)
qed

subsection \<open>A concrete window\<close>

text \<open>One slice with a safety critical process of 5 ms and a best-effort process of 3 ms.\<close>

definition demo_store :: store where
  "demo_store = \<lparr>partitions = [demo_partition [demo_process ''sc'' 5], demo_partition [demo_process ''be'' 3]],
     windows = [\<lparr>win_length = 10, finished_sc_partitions = 0, stopping = False,
       slices = [demo_slice (Some 0) (Some 1)]\<rparr>],
     st_policy = PowerPolicy_None, st_os = quiet_os True, start_time = 0\<rparr>"

lemmas slice_eval = start_partition_def start_next_process.simps load_next_process_def launch_process_def
  schedule_log_def stop_current_process_def stop_running_def schedule_next_def reset_def
  clear_completed_flag_def seek_pending_process_def move_to_next_proc_def advance_proc_def next_index_def
  on_proc_def upd_proc_def get_actual_budget_def uniform_int_def resume_def suspend_def reset_budget_def
  mark_completed_def mark_uncompleted_def is_pending_def is_spawned_def set_remaining_budget_def
  set_cpus_def freeze_def unfreeze_def timer_start_def timer_stop_def timepointToTimespec_def ns_per_sec_def
  ns_of_ms_def emit_def ASSERT_def CHECK_def syscall_def Let_def quiet_os_def cpu_count_pos_iff

lemmas window_eval = window_start_def window_stop_def window_event_def slice_schedule_next_def slice_stop_def
  for_slices_def start_sc_def start_be_def disconnect_part_def disconnect_def on_window_end_def
  on_slice_def get_ctx_def put_ctx_def valid_slice_def the_slice_def upd_slice_def upd_window_def upd_part_def
  on_policy_def numeral_2_eq_2 slice_sc_end_cb.simps has_sc_finished_def duration_cast_ms_nonneg

lemma demo_store_ok: "win_inv 0 demo_store" "live 0 demo_store" "all_idle 0 demo_store"
    "\<not> stopping (windows demo_store ! 0)" "0 < length (windows demo_store)"
  by (auto simp: win_inv_def cb_inv_def window_wf_def slice_inv_def parts_of_def valid_slice_def the_slice_def demo_store_def
      demo_simps part_ok_def proc_ok_def is_spawned_def thawed_def live_def budgets_ok_def all_idle_def nth_Cons'
      less_Suc_eq)

lemma demo_store_run:
  "\<exists>w0 w'. window_start 0 0 demo_store = Inr w0 \<and> foldE (window_event 0) [(0, 5000000)] w0 = Inr w' \<and>
     length (slices (windows w' ! 0)) = 1 \<and> windows w' \<noteq> [] \<and>
     running_process (the_slice 0 0 w') = Some 0 \<and> running_partition (the_slice 0 0 w') = Some 1 \<and>
     sl_sc (the_slice 0 0 w') = Some 0 \<and> (\<exists>w''. window_stop 0 6000000 w' = Inr w'')"
  by (simp add: slice_eval window_eval demo_store_def demo_simps)

theorem slice_sc_end_cb_fuel_witness:
  "slice_sc_end_cb 5 0 0 demo_store \<noteq> Inl Out_of_fuel \<and> slice_sc_end_cb 5 0 0 demo_store = slice_sc_end_cb 2 0 0 demo_store"
proof -
  have five: "(5::nat) = Suc (Suc 3)" by simp
  show ?thesis unfolding five by (rule slice_sc_end_cb_fuel[OF demo_store_ok(5)])
qed

theorem window_executes_sc_before_be_witness:
  "\<exists>w0 w'. window_start 0 0 demo_store = Inr w0 \<and> foldE (window_event 0) [(0, 5000000)] w0 = Inr w' \<and>
     running_partition (the_slice 0 0 w') = Some 1 \<and> 1 \<le> finished_sc_partitions (windows w' ! 0)"
proof -
  obtain w0 w' where run: "window_start 0 0 demo_store = Inr w0" "foldE (window_event 0) [(0, 5000000)] w0 = Inr w'"
    and w': "length (slices (windows w' ! 0)) = 1" "windows w' \<noteq> []" "running_process (the_slice 0 0 w') = Some 0"
      "running_partition (the_slice 0 0 w') = Some 1" "sl_sc (the_slice 0 0 w') = Some 0"
    using demo_store_run by blast
  have "valid_slice 0 0 w'" using w'(1,2) by (simp add: valid_slice_def)
  with window_executes_sc_before_be[OF demo_store_ok(1,3,4) run] w' have "1 \<le> finished_sc_partitions (windows w' ! 0)"
    by fastforce
  with run w' show ?thesis by blast
qed

theorem window_stop_freezes_everything_witness:
  "\<exists>w0 w' w''. window_start 0 0 demo_store = Inr w0 \<and> foldE (window_event 0) [(0, 5000000)] w0 = Inr w' \<and>
     window_stop 0 6000000 w' = Inr w'' \<and> (\<forall>pi < length (partitions w''). thawed (partitions w'' ! pi) = {})"
proof -
  obtain w0 w' w'' where run: "window_start 0 0 demo_store = Inr w0" "foldE (window_event 0) [(0, 5000000)] w0 = Inr w'"
    and st: "window_stop 0 6000000 w' = Inr w''" using demo_store_run by blast
  have "window_running 0 w0" using window_start_inv[OF run(1) demo_store_ok(1,3,4)] by (simp add: window_running_def)
  from window_run.run_inv[OF this run(2)] have "win_inv 0 w'" by (simp add: window_running_def sched_inv_def)
  from window_stop_freezes_everything[OF this st] run st show ?thesis by blast
qed

theorem window_never_fails_witness: "\<exists>w0. window_start 0 0 demo_store = Inr w0 \<and> window_running 0 w0"
  using window_never_fails[OF demo_store_ok(1-4), of 0] by blast

end
