(* ===== verification/Major_Frame.thy ===== *)
theory Major_Frame
  imports Window
begin

text \<open>
  The major frame (\<open>src/src/majorframe.cpp\<close>, \<open>src/src/majorframe.hpp\<close>): the cyclic list of windows
  with its timer. The record \<open>frame\<close> extends the store with the members of the class; an index
  \<open>current_win\<close> at the end of the list is the end iterator.
\<close>

record frame = store +
  current_win :: nat
  mf_timer :: timerfd
  mf_timeout :: time_point
  window_sync_message :: string
  mf_sync_message :: string

definition newline :: string where
  "newline = [char_of (10 :: nat)]"

definition print_line :: "string \<Rightarrow> 'a frame_scheme \<Rightarrow> 'a frame_scheme" where
  "print_line msg w = w\<lparr>st_os := emit (Stdout (msg @ newline)) (st_os w)\<rparr>"

definition advance_window :: "'a frame_scheme \<Rightarrow> 'a frame_scheme" where
  "advance_window w = w\<lparr>current_win := next_index (current_win w) (length (windows w))\<rparr>"

definition move_to_next_window :: "'a frame_scheme \<Rightarrow> 'a frame_scheme result" where
  "move_to_next_window w =
     (if current_win w < length (windows w) then Inr (advance_window w)
      else Inl (Undefined_behaviour ''increment of an end iterator''))"

text \<open>\<open>start\<close>: the sync messages, the window, then the timer for exactly the window's length.\<close>

definition mf_messages :: "'a frame_scheme \<Rightarrow> 'a frame_scheme" where
  "mf_messages w =
     (let w = (if mf_sync_message w \<noteq> [] \<and> current_win w = 0 then print_line (mf_sync_message w) w else w)
      in if window_sync_message w \<noteq> [] then print_line (window_sync_message w) w else w)"

definition mf_start :: "time_point \<Rightarrow> 'a frame_scheme \<Rightarrow> 'a frame_scheme result" where
  "mf_start current_time w =
     (let w = mf_messages w in
      if current_win w \<ge> length (windows w) then Inl (Undefined_behaviour ''dereference of an end iterator'')
      else bindE (window_start (current_win w) current_time w) (\<lambda>w.
        let w = w\<lparr>mf_timeout := current_time + ns_of_ms (win_length (windows w ! current_win w))\<rparr> in
        bindE (timer_start (mf_timeout w) (mf_timer w) (st_os w)) (\<lambda>(tm, s).
        Inr (w\<lparr>mf_timer := tm, st_os := s\<rparr>))))"

definition mf_stop :: "time_point \<Rightarrow> 'a frame_scheme \<Rightarrow> 'a frame_scheme result" where
  "mf_stop current_time w =
     (let w = w\<lparr>mf_timer := timer_stop (mf_timer w)\<rparr> in
      if current_win w \<ge> length (windows w) then Inl (Undefined_behaviour ''dereference of an end iterator'')
      else window_stop (current_win w) current_time w)"

definition mf_timeout_cb :: "'a frame_scheme \<Rightarrow> 'a frame_scheme result" where
  "mf_timeout_cb w =
     (if current_win w \<ge> length (windows w) then Inl (Undefined_behaviour ''dereference of an end iterator'')
      else bindE (window_stop (current_win w) (mf_timeout w) w) (\<lambda>w.
           bindE (move_to_next_window w) (\<lambda>w. mf_start (mf_timeout w) w)))"

text \<open>\<open>find_widest_cpu_set\<close>: the loop over the slices of all windows; a later set wins only if larger.\<close>

definition widest_step :: "nat \<Rightarrow> slice \<Rightarrow> cpu_set option \<Rightarrow> cpu_set option" where
  "widest_step pi sl best =
     (if sl_sc sl \<noteq> Some pi \<and> sl_be sl \<noteq> Some pi then best
      else case best of None \<Rightarrow> Some (sl_cpus sl)
           | Some b \<Rightarrow> if cpu_count (sl_cpus sl) > cpu_count b then Some (sl_cpus sl) else best)"

definition find_widest_cpu_set :: "nat \<Rightarrow> 'a store_scheme \<Rightarrow> cpu_set option" where
  "find_widest_cpu_set pi w = fold (\<lambda>win best. fold (widest_step pi) (slices win) best) (windows w) None"

subsection \<open>The cycle of windows\<close>

interpretation window_cycle: cyclic_iterator current_win "\<lambda>w. length (windows w)" advance_window
  by unfold_locales (simp_all add: advance_window_def)

lemma more_frame:
  assumes "store.more w' = store.more (w :: 'a frame_scheme)"
  shows "current_win w' = current_win w" "mf_timer w' = mf_timer w" "mf_timeout w' = mf_timeout w"
    "window_sync_message w' = window_sync_message w" "mf_sync_message w' = mf_sync_message w"
    "frame.more w' = frame.more w"
  using assms by (cases w; cases w'; simp)+

lemma mf_messages_simps [simp]:
  "partitions (mf_messages w) = partitions w" "windows (mf_messages w) = windows w"
  "st_policy (mf_messages w) = st_policy w" "start_time (mf_messages w) = start_time w"
  "store.more (mf_messages w) = store.more w" "os_extends (st_os w) (st_os (mf_messages w))"
  "io_ok (st_os (mf_messages w)) = io_ok (st_os w)" "shape (mf_messages w) = shape w"
  "current_win (mf_messages w) = current_win w"
  by (auto simp: mf_messages_def print_line_def Let_def shape_def
      intro: os_extends_trans[OF emit_extends emit_extends])

text \<open>A window that is not executed: nothing runs, no timer is set, and it can be entered.\<close>

definition resting :: "nat \<Rightarrow> 'a store_scheme \<Rightarrow> bool" where
  "resting wi w \<longleftrightarrow> \<not> stopping (windows w ! wi) \<and>
     (\<forall>si. valid_slice wi si w \<longrightarrow> running_process (the_slice wi si w) = None \<and>
        \<not> tfd_active (sl_timer (the_slice wi si w)) \<and>
        set_option (running_partition (the_slice wi si w)) \<subseteq> parts_of (the_slice wi si w))"

definition frame_wf :: "'a frame_scheme \<Rightarrow> bool" where
  "frame_wf w \<longleftrightarrow> current_win w < length (windows w) \<and> (\<forall>wi < length (windows w). window_wf wi w) \<and>
     (\<forall>p \<in> set (partitions w). part_ok p)"

text \<open>
  The frame at rest, with every process frozen (\<open>frame_stopped\<close>) or not (\<open>frame_quiet\<close>), and the
  frame while it executes its current window, with its timer set (\<open>frame_running\<close>) or not
  (\<open>frame_active\<close>).
\<close>

definition frame_quiet :: "'a frame_scheme \<Rightarrow> bool" where
  "frame_quiet w \<longleftrightarrow> frame_wf w \<and> (\<forall>wi < length (windows w). resting wi w) \<and>
     (\<forall>pi < length (partitions w). part_completed_cb (partitions w ! pi) \<noteq> Cb_init \<and>
        (\<forall>wj sj. part_completed_cb (partitions w ! pi) \<noteq> Cb_slice wj sj))"

definition frame_stopped :: "'a frame_scheme \<Rightarrow> bool" where
  "frame_stopped w \<longleftrightarrow> frame_quiet w \<and> (\<forall>pi < length (partitions w). thawed (partitions w ! pi) = {})"

definition frame_active :: "'a frame_scheme \<Rightarrow> bool" where
  "frame_active w \<longleftrightarrow> frame_wf w \<and> window_running (current_win w) w \<and>
     (\<forall>wi < length (windows w). wi \<noteq> current_win w \<longrightarrow> resting wi w)"

definition frame_running :: "'a frame_scheme \<Rightarrow> bool" where
  "frame_running w \<longleftrightarrow> frame_active w \<and>
     tfd_active (mf_timer w) \<and> tfd_value (mf_timer w) = timepointToTimespec (mf_timeout w)"

lemma resting_win_inv:
  assumes "frame_stopped w" and "wi < length (windows w)"
  shows "win_inv wi w" "all_idle wi w" "\<not> stopping (windows w ! wi)"
proof -
  have wf: "window_wf wi w" and r: "resting wi w" using assms by (auto simp: frame_stopped_def frame_quiet_def frame_wf_def)
  have "slice_inv (partitions w) (the_slice wi si w)" if si: "valid_slice wi si w" for si
  proof -
    have "parts_of (the_slice wi si w) \<subseteq> {..<length (partitions w)}" using wf si by (simp add: window_wf_def)
    then show ?thesis using assms(1) r si by (auto simp: slice_inv_def resting_def frame_stopped_def frame_quiet_def)
  qed
  then show "win_inv wi w" using assms(1) wf by (simp add: win_inv_def cb_inv_def frame_stopped_def frame_quiet_def frame_wf_def)
  show "all_idle wi w" "\<not> stopping (windows w ! wi)" using r by (auto simp: resting_def all_idle_def)
qed

lemma resting_cong:
  "windows w' ! wi = windows w ! wi \<Longrightarrow> length (windows w') = length (windows w) \<Longrightarrow> resting wi w' = resting wi w"
  by (simp add: resting_def valid_slice_def the_slice_def)

lemma frame_wf_shape:
  assumes "shape w' = shape w" and "current_win w' < length (windows w')" and "\<forall>p \<in> set (partitions w'). part_ok p"
    and "frame_wf w"
  shows "frame_wf w'"
  using assms window_wf_shape[OF assms(1)] shape_lengths(2)[OF assms(1)] by (simp add: frame_wf_def)

lemma win_inv_messages: "win_inv wi (mf_messages w) = win_inv wi w"
  by (rule inv_cong) simp_all

lemma mf_start_inv:
  assumes run: "mf_start t w = Inr w'" and st: "frame_stopped w"
  shows "frame_running w' \<and> shape w' = shape w \<and> current_win w' = current_win w \<and>
    mf_timeout w' = t + ns_of_ms (win_length (windows w ! current_win w)) \<and> os_extends (st_os w) (st_os w') \<and>
    frame.more w' = frame.more w"
proof -
  let ?m = "mf_messages w" and ?c = "current_win w"
  have c: "?c < length (windows w)" using st by (simp add: frame_stopped_def frame_quiet_def frame_wf_def)
  from run c obtain w1 tm s where w1: "window_start ?c t ?m = Inr w1" and
    tm: "timer_start (t + ns_of_ms (win_length (windows w1 ! current_win w1))) (mf_timer w1) (st_os w1) = Inr (tm, s)" and
    w': "w' = w1\<lparr>mf_timeout := t + ns_of_ms (win_length (windows w1 ! current_win w1)), mf_timer := tm, st_os := s\<rparr>"
    by (auto simp: mf_start_def Let_def bindE_Inr_iff split: prod.splits)
  have "win_inv ?c ?m" "all_idle ?c ?m" "\<not> stopping (windows ?m ! ?c)"
    using resting_win_inv[OF st c] by (auto simp: win_inv_messages all_idle_def valid_slice_def the_slice_def)
  from window_start_inv[OF w1 this] have
    inv: "sched_inv ?c (length (slices (windows w1 ! ?c))) 0 w1" and ev: "evolves ?c ?m w1" by auto
  have sh: "shape w1 = shape w" and more: "store.more w1 = store.more w" using ev by (auto simp: evolves_def)
  note f = more_frame[OF more] and l = shape_lengths[OF sh]
  have run': "window_running ?c w'"
    using inv inv_cong(2)[of w' w1] by (simp add: w' window_running_def)
  have wf: "frame_wf w'"
    by (rule frame_wf_shape[of _ w])
      (use st sh l f c inv in \<open>auto simp: w' shape_def frame_stopped_def frame_quiet_def sched_inv_def win_inv_def\<close>)
  have "resting wi w'" if "wi < length (windows w')" "wi \<noteq> ?c" for wi
  proof -
    have "windows w' ! wi = windows w ! wi" using ev that(2) by (simp add: w' evolves_def)
    then show ?thesis using resting_cong[of w' wi w] st that(1) l(2) by (simp add: w' frame_stopped_def frame_quiet_def)
  qed
  moreover have "shape w' = shape w" using sh by (simp add: w' shape_def)
  moreover have "mf_timeout w' = t + ns_of_ms (win_length (windows w ! ?c))" using l(6)[OF c] f by (simp add: w')
  moreover have "os_extends (st_os ?m) (st_os w1)" using ev by (simp add: evolves_def)
  then have "os_extends (st_os w) s"
    by (rule os_extends_trans[OF os_extends_trans[OF mf_messages_simps(6)]]) (rule timer_start_extends[OF tm])
  ultimately show ?thesis
    using run' wf f tm by (simp add: frame_running_def frame_active_def w' timer_start_Inr)
qed

lemma frame_stop_inv:
  assumes run: "window_stop (current_win w) t w = Inr w'" and fr: "frame_active w"
  shows "frame_stopped w' \<and> shape w' = shape w \<and> store.more w' = store.more w \<and> os_extends (st_os w) (st_os w')"
proof -
  let ?c = "current_win w"
  have inv: "win_inv ?c w" using fr by (simp add: frame_running_def frame_active_def window_running_def sched_inv_def)
  note st = window_stop_inv[OF run inv]
  have sh: "shape w' = shape w" and more: "store.more w' = store.more w" using st by auto
  note l = shape_lengths[OF sh]
  have c: "?c < length (windows w)" using fr by (simp add: frame_running_def frame_active_def frame_wf_def)
  have wf: "frame_wf w'"
    by (rule frame_wf_shape[OF sh]) (use fr st l c more_frame(1)[OF more] in \<open>auto simp: frame_running_def frame_active_def win_inv_def\<close>)
  have "slice_inv (partitions w') (the_slice ?c si w')" if "valid_slice ?c si w'" for si
    using st that by (simp add: win_inv_def)
  then have "resting ?c w'" using st by (auto simp: resting_def slice_inv_def all_idle_def)
  moreover have "resting wi w'" if "wi < length (windows w')" "wi \<noteq> ?c" for wi
    using resting_cong[of w' wi w] st that fr l(2) by (simp add: frame_running_def frame_active_def)
  ultimately show ?thesis using wf st by (auto simp: frame_stopped_def frame_quiet_def win_inv_def cb_inv_def)
qed

lemma advance_stopped: "frame_stopped w \<Longrightarrow> frame_stopped (advance_window w)"
  by (auto simp: frame_stopped_def frame_quiet_def frame_wf_def advance_window_def resting_def window_wf_def valid_slice_def the_slice_def)

lemma mf_timeout_cb_inv:
  assumes run: "mf_timeout_cb w = Inr w'" and act: "frame_active w"
  shows "frame_running w' \<and> shape w' = shape w \<and> os_extends (st_os w) (st_os w') \<and>
    current_win w' = Suc (current_win w) mod length (windows w) \<and>
    mf_timeout w' = mf_timeout w + ns_of_ms (win_length (windows w ! (Suc (current_win w) mod length (windows w)))) \<and>
    frame.more w' = frame.more w"
proof -
  let ?c = "current_win w" and ?n = "length (windows w)"
  have c: "?c < ?n" using act by (simp add: frame_active_def frame_wf_def)
  from run obtain w1 where w1: "window_stop ?c (mf_timeout w) w = Inr w1"
    and go: "bindE (move_to_next_window w1) (\<lambda>w. mf_start (mf_timeout w) w) = Inr w'"
    by (auto simp: mf_timeout_cb_def bindE_Inr_iff split: if_splits)
  note st = frame_stop_inv[OF w1 act]
  have sh: "shape w1 = shape w" and more: "store.more w1 = store.more w" using st by auto
  note l = shape_lengths[OF sh] and f = more_frame[OF more]
  let ?w2 = "advance_window w1"
  have st2: "mf_start (mf_timeout w1) ?w2 = Inr w'"
    using go by (auto simp: move_to_next_window_def advance_window_def split: if_splits)
  have nx: "current_win ?w2 = Suc ?c mod ?n" using f l(2) c by (simp add: advance_window_def next_index_mod)
  have nxl: "Suc ?c mod ?n < ?n" using c by (intro mod_less_divisor) linarith
  have frs: "frame_stopped ?w2" using st advance_stopped by blast
  note go' = mf_start_inv[OF st2 frs]
  have "windows ?w2 = windows w1" "shape ?w2 = shape w1" "st_os ?w2 = st_os w1" "frame.more ?w2 = frame.more w1"
    by (simp_all add: advance_window_def shape_def)
  then show ?thesis using go' nx l(6)[OF nxl] f sh st by (auto elim: os_extends_trans)
qed

subsection \<open>Stopping a frame that is at rest\<close>

definition disconnect_parts :: "nat set \<Rightarrow> 'a store_scheme \<Rightarrow> 'a store_scheme" where
  "disconnect_parts S w = w\<lparr>partitions :=
     map (\<lambda>pi. if pi \<in> S then disconnect (partitions w ! pi) else partitions w ! pi) [0..<length (partitions w)]\<rparr>"

lemma disconnect_idem [simp]: "disconnect (disconnect p) = disconnect p"
  by (simp add: disconnect_def)

lemma disconnect_parts_simps [simp]:
  "windows (disconnect_parts S w) = windows w" "st_os (disconnect_parts S w) = st_os w"
  "length (partitions (disconnect_parts S w)) = length (partitions w)"
  "store.more (disconnect_parts S w) = store.more w" "start_time (disconnect_parts S w) = start_time w"
  "st_policy (disconnect_parts S w) = st_policy w"
  "pi < length (partitions w) \<Longrightarrow> partitions (disconnect_parts S w) ! pi =
     (if pi \<in> S then disconnect (partitions w ! pi) else partitions w ! pi)"
  by (simp_all add: disconnect_parts_def)

lemma disconnect_parts_empty [simp]: "disconnect_parts {} w = w"
  by (simp add: disconnect_parts_def map_nth)

lemma disconnect_parts_union: "disconnect_parts T (disconnect_parts S w) = disconnect_parts (S \<union> T) w"
  by (auto simp: disconnect_parts_def intro!: nth_equalityI)

lemma disconnect_part_eq:
  "set_option r \<subseteq> {..<length (partitions w)} \<Longrightarrow> disconnect_part r w = Inr (disconnect_parts (set_option r) w)"
proof (cases r)
  case (Some pi)
  assume "set_option r \<subseteq> {..<length (partitions w)}"
  moreover have "upd_part pi disconnect w = disconnect_parts {pi} w"
    unfolding disconnect_parts_def upd_part_def
    by (intro arg_cong[where f = "\<lambda>ps. w\<lparr>partitions := ps\<rparr>"] nth_equalityI) (auto simp: nth_list_update)
  ultimately show ?thesis using Some by (simp add: disconnect_part_def)
qed (simp add: disconnect_part_def)

lemma upd_slice_same:
  assumes "f (the_slice wi si w) = the_slice wi si w"
  shows "upd_slice wi si f w = w"
  using assms by (simp add: upd_slice_def upd_window_def the_slice_def)

lemma slice_stop_idle:
  assumes "the_slice wi si w = sl" and "running_process sl = None" and "\<not> tfd_active (sl_timer sl)"
    and "parts_of sl \<subseteq> {..<length (partitions w)}"
  shows "slice_stop cb wi si t w = Inr (disconnect_parts (parts_of sl) w)"
proof -
  have "timer_stop (sl_timer sl) = sl_timer sl" using assms(3) by (simp add: timer_stop_def)
  then have "upd_slice wi si (\<lambda>sl. sl\<lparr>sl_timer := timer_stop (sl_timer sl)\<rparr>) w = w"
    using assms(1) by (intro upd_slice_same) simp
  then show ?thesis
    using assms by (simp add: slice_stop_def Let_def disconnect_part_eq disconnect_parts_union parts_of_def)
qed

definition window_parts :: "nat \<Rightarrow> 'a store_scheme \<Rightarrow> nat set" where
  "window_parts wi w = (\<Union>si < length (slices (windows w ! wi)). parts_of (the_slice wi si w))"

lemma window_stop_resting:
  assumes "resting wi w" and "window_wf wi w"
  shows "window_stop wi t w = Inr (disconnect_parts (window_parts wi w) w)"
proof -
  let ?n = "length (slices (windows w ! wi))" and ?st = "\<lambda>b win. win\<lparr>stopping := b\<rparr>"
  let ?w = "upd_window wi (?st True) w"
  have wi: "wi < length (windows w)" using assms(2) by (simp add: window_wf_def)
  have sl: "the_slice wi si ?w = the_slice wi si w" for si using wi by (simp add: the_slice_def windows_upd_window)
  have loop: "foldE (\<lambda>si. slice_stop (sc_done wi) wi si t) [0..<k] ?w =
      Inr (disconnect_parts (\<Union>si < k. parts_of (the_slice wi si w)) ?w)" if "k \<le> ?n" for k
    using that
  proof (induction k)
    case (Suc k)
    let ?u = "disconnect_parts (\<Union>si < k. parts_of (the_slice wi si w)) ?w"
    have sl': "the_slice wi si ?u = the_slice wi si w" for si using sl by (simp add: the_slice_def)
    have v: "valid_slice wi k w" using Suc.prems wi by (simp add: valid_slice_def)
    have "parts_of (the_slice wi k w) \<subseteq> {..<length (partitions ?u)}" using assms(2) v by (simp add: window_wf_def)
    with assms(1) v have "slice_stop (sc_done wi) wi k t ?u = Inr (disconnect_parts (parts_of (the_slice wi k w)) ?u)"
      by (intro slice_stop_idle[OF sl']) (auto simp: resting_def)
    then show ?case using Suc by (simp add: foldE_append disconnect_parts_union lessThan_Suc Un_commute)
  qed simp
  have "(windows w)[wi := ?st False (windows w ! wi)] = windows w"
    using assms(1) by (simp add: resting_def list_update_same_conv wi)
  then have "upd_window wi (?st False) (disconnect_parts S ?w) = disconnect_parts S w" for S
    using wi by (simp add: upd_window_def disconnect_parts_def)
  then show ?thesis
    using loop[of ?n] wi by (simp add: window_stop_def on_policy_def on_window_end_def Let_def for_slices_def
        windows_upd_window window_parts_def)
qed

lemma disconnect_quiet:
  assumes "frame_quiet w"
  shows "frame_quiet (disconnect_parts S w)"
proof -
  have "part_ok p" if p: "p \<in> set (partitions (disconnect_parts S w))" for p
  proof -
    from p obtain pi where "pi < length (partitions w)" "p = partitions (disconnect_parts S w) ! pi"
      by (auto simp: in_set_conv_nth)
    then show ?thesis using assms by (simp add: frame_quiet_def frame_wf_def disconnect_def)
  qed
  moreover have "current_win (disconnect_parts S w) = current_win w" by (simp add: disconnect_parts_def)
  ultimately show ?thesis
    using assms by (auto simp: frame_quiet_def frame_wf_def window_wf_def resting_def valid_slice_def the_slice_def disconnect_def)
qed

lemma disconnect_thawed: "pi < length (partitions w) \<Longrightarrow>
    thawed (partitions (disconnect_parts S w) ! pi) = thawed (partitions w ! pi)"
  by (simp add: disconnect_def)

lemma mf_stop_quiet:
  assumes "frame_quiet w"
  shows "mf_stop t w = Inr (disconnect_parts (window_parts (current_win w) w) (w\<lparr>mf_timer := timer_stop (mf_timer w)\<rparr>))"
proof -
  let ?w = "w\<lparr>mf_timer := timer_stop (mf_timer w)\<rparr>"
  have c: "current_win w < length (windows w)" and r: "resting (current_win w) w" and wf: "window_wf (current_win w) w"
    using assms by (auto simp: frame_quiet_def frame_wf_def)
  have "resting (current_win w) ?w" "window_wf (current_win w) ?w"
    using r wf by (simp_all add: resting_def window_wf_def valid_slice_def the_slice_def)
  from window_stop_resting[OF this, of t] c show ?thesis
    by (simp add: mf_stop_def Let_def window_parts_def the_slice_def)
qed

lemma mf_stop_active:
  assumes "mf_stop t w = Inr w'" and "frame_active w"
  shows "frame_stopped w' \<and> shape w' = shape w \<and> \<not> tfd_active (mf_timer w') \<and>
    os_extends (st_os w) (st_os w') \<and> frame.more w' = frame.more w"
proof -
  let ?w = "w\<lparr>mf_timer := timer_stop (mf_timer w)\<rparr>"
  have eq: "sched_inv wi k d ?w = sched_inv wi k d w" for wi k d by (rule inv_cong(2)) simp_all
  have act: "frame_active ?w" using assms(2)
    by (simp add: frame_active_def frame_wf_def window_running_def eq resting_def window_wf_def valid_slice_def the_slice_def)
  have "current_win w < length (windows w)" using assms(2) by (simp add: frame_active_def frame_wf_def)
  with assms(1) have "window_stop (current_win ?w) t ?w = Inr w'" by (simp add: mf_stop_def)
  from frame_stop_inv[OF this act] show ?thesis using more_frame[of w' ?w] by (simp add: shape_def)
qed

text \<open>The frame does not look at the parts of a partition that its processes' callbacks change.\<close>

lemma parts_cong:
  assumes "windows w' = windows w" and "length (partitions w') = length (partitions w)"
    and "\<And>pi. pi < length (partitions w) \<Longrightarrow> part_ok (partitions w' ! pi) \<and>
      thawed (partitions w' ! pi) = thawed (partitions w ! pi) \<and>
      part_completed_cb (partitions w' ! pi) = part_completed_cb (partitions w ! pi)"
  shows "sched_inv wi k d w \<Longrightarrow> sched_inv wi k d w'" "resting wi w' = resting wi w" "window_wf wi w' = window_wf wi w"
    "\<forall>p \<in> set (partitions w'). part_ok p"
proof -
  have v: "valid_slice wi si w' = valid_slice wi si w" and sl: "the_slice wi si w' = the_slice wi si w" for wi si
    using assms(1) by (simp_all add: valid_slice_def the_slice_def)
  show wf: "window_wf wi w' = window_wf wi w" for wi using assms(1,2) by (simp add: window_wf_def v sl)
  show ok: "\<forall>p \<in> set (partitions w'). part_ok p" using assms(2,3) by (auto simp: in_set_conv_nth)
  show "resting wi w' = resting wi w" using assms(1) by (simp add: resting_def v sl)
  have "win_inv wi w'" if "win_inv wi w" for wi
  proof -
    have "slice_inv (partitions w') (the_slice wi si w)" if si: "valid_slice wi si w" for si
    proof -
      have "parts_of (the_slice wi si w) \<subseteq> {..<length (partitions w)}" "slice_inv (partitions w) (the_slice wi si w)"
        using \<open>win_inv wi w\<close> si by (auto simp: win_inv_def window_wf_def)
      then show ?thesis using assms(3) slice_inv_cong[of "the_slice wi si w" "partitions w'" "partitions w"] by blast
    qed
    moreover have "cb_inv wi w'" using that assms(2,3) unfolding win_inv_def cb_inv_def v sl by metis
    ultimately show ?thesis using that ok assms(2,3) by (simp add: win_inv_def v sl wf)
  qed
  then show "sched_inv wi k d w \<Longrightarrow> sched_inv wi k d w'"
    unfolding sched_inv_def idle_slices_def sl assms(1) by blast
qed

lemma frame_cong:
  assumes "windows w' = windows w" and "length (partitions w') = length (partitions w)"
    and "\<And>pi. pi < length (partitions w) \<Longrightarrow> part_ok (partitions w' ! pi) \<and>
      thawed (partitions w' ! pi) = thawed (partitions w ! pi) \<and>
      part_completed_cb (partitions w' ! pi) = part_completed_cb (partitions w ! pi)"
    and "current_win w' = current_win w"
  shows "frame_quiet w \<Longrightarrow> frame_quiet w'" "frame_stopped w \<Longrightarrow> frame_stopped w'" "frame_active w \<Longrightarrow> frame_active w'"
    "frame_running w \<Longrightarrow> mf_timer w' = mf_timer w \<Longrightarrow> mf_timeout w' = mf_timeout w \<Longrightarrow> frame_running w'"
proof -
  note c = parts_cong[OF assms(1-3)]
  have wf: "frame_wf w \<Longrightarrow> frame_wf w'" using c(3,4) assms(1,4) by (simp add: frame_wf_def)
  show q: "frame_quiet w \<Longrightarrow> frame_quiet w'" using wf c(2) assms(1-3) by (simp add: frame_quiet_def)
  show "frame_stopped w \<Longrightarrow> frame_stopped w'" using q assms(2,3) by (simp add: frame_stopped_def)
  show a: "frame_active w \<Longrightarrow> frame_active w'"
    using wf c(1,2) assms(1,4) by (simp add: frame_active_def window_running_def)
  show "frame_running w \<Longrightarrow> mf_timer w' = mf_timer w \<Longrightarrow> mf_timeout w' = mf_timeout w \<Longrightarrow> frame_running w'"
    using a by (simp add: frame_running_def)
qed

text \<open>The events of a running frame: its timer, and a slice of the current window being served.\<close>

datatype frame_event = Window_timeout | Slice_served nat time_point

fun frame_step :: "frame_event \<Rightarrow> 'a frame_scheme \<Rightarrow> 'a frame_scheme result" where
  "frame_step Window_timeout w = mf_timeout_cb w"
| "frame_step (Slice_served si t) w = slice_schedule_next (sc_done (current_win w)) (current_win w) si t w"

lemma slice_served_inv:
  assumes run: "slice_schedule_next (sc_done (current_win w)) (current_win w) si t w = Inr w'" and fr: "frame_running w"
  shows "frame_running w' \<and> shape w' = shape w \<and> store.more w' = store.more w \<and> os_extends (st_os w) (st_os w')"
proof -
  let ?c = "current_win w"
  have inv: "sched_inv ?c (length (slices (windows w ! ?c))) 0 w"
    using fr by (simp add: frame_running_def frame_active_def window_running_def)
  note st = schedule_next_inv[OF run inv]
  have sh: "shape w' = shape w" and more: "store.more w' = store.more w" using st by (auto simp: evolves_def)
  note l = shape_lengths[OF sh] and f = more_frame[OF more]
  have c: "?c < length (windows w)" using fr by (simp add: frame_running_def frame_active_def frame_wf_def)
  have wf: "frame_wf w'"
    by (rule frame_wf_shape[OF sh]) (use fr st l c f in \<open>auto simp: frame_running_def frame_active_def sched_inv_def win_inv_def\<close>)
  have "resting wi w'" if "wi < length (windows w')" "wi \<noteq> ?c" for wi
    using resting_cong[of w' wi w] st that fr l(2) by (simp add: frame_running_def frame_active_def evolves_def)
  then show ?thesis using wf st sh more f fr l(4)[OF c] by (simp add: frame_running_def frame_active_def window_running_def evolves_def)
qed

lemma frame_running_step: "frame_running w \<Longrightarrow> frame_step ev w = Inr w' \<Longrightarrow> frame_running w'"
  by (cases ev) (auto simp: frame_running_def[of w] dest: mf_timeout_cb_inv slice_served_inv[unfolded frame_running_def[of w]])

interpretation frame_run: event_machine frame_step frame_running
  by unfold_locales (rule frame_running_step)

definition timeouts :: "frame_event list \<Rightarrow> nat" where
  "timeouts evs = length (filter (\<lambda>ev. ev = Window_timeout) evs)"

text \<open>The nominal length of the next \<open>k\<close> windows after the current one.\<close>

definition nominal :: "'a frame_scheme \<Rightarrow> nat \<Rightarrow> milliseconds" where
  "nominal w k =
     sum_list (map (\<lambda>j. win_length (windows w ! ((current_win w + Suc j) mod length (windows w)))) [0..<k])"

lemma timeouts_simps [simp]:
  "timeouts [] = 0" "timeouts (Window_timeout # evs) = Suc (timeouts evs)"
  "timeouts (Slice_served si t # evs) = timeouts evs"
  by (simp_all add: timeouts_def)

lemma nominal_Suc:
  assumes "shape w' = shape w" and "current_win w' = Suc (current_win w) mod length (windows w)"
    and "current_win w < length (windows w)"
  shows "nominal w (Suc k) = win_length (windows w ! (Suc (current_win w) mod length (windows w))) + nominal w' k"
proof -
  let ?n = "length (windows w)" and ?c = "current_win w"
  have pos: "0 < ?n" using assms(3) by linarith
  have "win_length (windows w ! ((?c + Suc (Suc j)) mod ?n)) = win_length (windows w' ! ((Suc ?c mod ?n + Suc j) mod ?n))" for j
  proof -
    have "(Suc ?c mod ?n + Suc j) mod ?n = (?c + Suc (Suc j)) mod ?n"
      by (metis add_Suc_shift mod_add_left_eq)
    moreover have "(?c + Suc (Suc j)) mod ?n < ?n" using pos by (rule mod_less_divisor)
    ultimately show ?thesis using shape_lengths(6)[OF assms(1)] by simp
  qed
  moreover have "[0..<Suc k] = 0 # map Suc [0..<k]" by (simp add: upt_conv_Cons map_Suc_upt del: upt_Suc)
  ultimately show ?thesis
    using assms(2) shape_lengths(2)[OF assms(1)] by (simp add: nominal_def comp_def del: upt_Suc)
qed

lemma frame_timeline:
  assumes "frame_running w" and "foldE frame_step evs w = Inr w'"
  shows "frame_running w' \<and> shape w' = shape w \<and>
    current_win w' = (current_win w + timeouts evs) mod length (windows w) \<and>
    mf_timeout w' = mf_timeout w + ns_of_ms (nominal w (timeouts evs))"
  using assms
proof (induction evs arbitrary: w)
  case Nil
  then show ?case by (simp add: nominal_def ns_of_ms_def frame_running_def frame_active_def frame_wf_def)
next
  case (Cons ev evs)
  from Cons.prems(2) obtain w1 where w1: "frame_step ev w = Inr w1" and rest: "foldE frame_step evs w1 = Inr w'"
    by (auto simp: bindE_Inr_iff)
  have c: "current_win w < length (windows w)" using Cons.prems(1) by (simp add: frame_running_def frame_active_def frame_wf_def)
  show ?case
  proof (cases ev)
    case Window_timeout
    with w1 have "mf_timeout_cb w = Inr w1" by simp
    have "frame_active w" using Cons.prems(1) by (simp add: frame_running_def)
    note st = mf_timeout_cb_inv[OF \<open>mf_timeout_cb w = Inr w1\<close> this]
    have fr1: "frame_running w1" and sh: "shape w1 = shape w" using st by auto
    note IH = Cons.IH[OF fr1 rest] and l = shape_lengths(2)[OF sh]
    have "(Suc (current_win w) mod length (windows w) + timeouts evs) mod length (windows w) =
        (current_win w + Suc (timeouts evs)) mod length (windows w)" by (simp add: mod_add_left_eq)
    moreover have "nominal w (Suc (timeouts evs)) =
        win_length (windows w ! (Suc (current_win w) mod length (windows w))) + nominal w1 (timeouts evs)"
      by (rule nominal_Suc) (use st c in auto)
    ultimately show ?thesis using IH st l Window_timeout by (simp add: ns_of_ms_def algebra_simps)
  next
    case (Slice_served si t)
    with w1 have "slice_schedule_next (sc_done (current_win w)) (current_win w) si t w = Inr w1" by simp
    note st = slice_served_inv[OF this Cons.prems(1)]
    have fr1: "frame_running w1" and sh: "shape w1 = shape w" and f: "current_win w1 = current_win w" "mf_timeout w1 = mf_timeout w"
      using st more_frame by auto
    note l = shape_lengths[OF sh]
    have "0 < length (windows w)" using c by linarith
    then have "(current_win w + Suc j) mod length (windows w) < length (windows w)" for j by (rule mod_less_divisor)
    then have "nominal w1 k = nominal w k" for k
      unfolding nominal_def f l(2) by (simp add: l(6))
    with Cons.IH[OF fr1 rest] sh f l(2) Slice_served show ?thesis by simp
  qed
qed

subsection \<open>Properties\<close>

text \<open>
  C10. The windows follow each other in cyclic order and without drift: whatever the slices do in
  between, after \<open>k\<close> window timeouts the current window is the \<open>k\<close>-th successor of the first one and
  its end is exactly the start time plus the lengths of the windows passed, for which the timer is
  set. A late timer does not move the later windows.
\<close>

theorem windows_cycle_without_drift:
  assumes "frame_stopped w" and "mf_start t w = Inr w0" and "foldE frame_step evs w0 = Inr w'"
  shows "current_win w' = (current_win w + timeouts evs) mod length (windows w) \<and>
    mf_timeout w' = t + ns_of_ms (sum_list
      (map (\<lambda>j. win_length (windows w ! ((current_win w + j) mod length (windows w)))) [0..<Suc (timeouts evs)])) \<and>
    tfd_active (mf_timer w') \<and> tfd_value (mf_timer w') = timepointToTimespec (mf_timeout w')"
proof -
  note st = mf_start_inv[OF assms(2,1)]
  have sh: "shape w0 = shape w" and c0: "current_win w0 = current_win w" and fr: "frame_running w0" using st by auto
  note l = shape_lengths[OF sh]
  have c: "current_win w < length (windows w)" using assms(1) by (simp add: frame_stopped_def frame_quiet_def frame_wf_def)
  have "0 < length (windows w)" using c by linarith
  then have "(current_win w + Suc j) mod length (windows w) < length (windows w)" for j by (rule mod_less_divisor)
  then have nom: "nominal w0 k = nominal w k" for k unfolding nominal_def c0 l(2) by (simp add: l(6))
  have up: "[0..<Suc k] = 0 # map Suc [0..<k]" for k by (simp add: upt_conv_Cons map_Suc_upt del: upt_Suc)
  note tl = frame_timeline[OF fr assms(3)]
  have "mf_timeout w' = t + ns_of_ms (win_length (windows w ! current_win w) + nominal w (timeouts evs))"
    using tl st nom by (simp add: ns_of_ms_def algebra_simps)
  then have "mf_timeout w' = t + ns_of_ms (sum_list
      (map (\<lambda>j. win_length (windows w ! ((current_win w + j) mod length (windows w)))) [0..<Suc (timeouts evs)]))"
    using c by (simp add: up nominal_def comp_def del: upt_Suc)
  with tl c0 l(2) show ?thesis by (simp add: frame_running_def frame_active_def)
qed

lemma frame_running_isolates:
  assumes fr: "frame_running w"
  shows "\<forall>pi < length (partitions w). \<forall>i \<in> thawed (partitions w ! pi). thawed (partitions w ! pi) = {i} \<and>
      (\<exists>!si. valid_slice (current_win w) si w \<and> pi \<in> parts_of (the_slice (current_win w) si w) \<and>
        running_partition (the_slice (current_win w) si w) = Some pi \<and>
        running_process (the_slice (current_win w) si w) = Some i)"
    and "\<forall>wi si. wi \<noteq> current_win w \<longrightarrow> valid_slice wi si w \<longrightarrow>
      running_process (the_slice wi si w) = None \<and> \<not> tfd_active (sl_timer (the_slice wi si w))"
proof -
  let ?c = "current_win w"
  have inv: "win_inv ?c w" using fr by (simp add: frame_running_def frame_active_def window_running_def sched_inv_def)
  have "thawed (partitions w ! pi) = {i} \<and>
      (\<exists>!si. valid_slice ?c si w \<and> pi \<in> parts_of (the_slice ?c si w) \<and>
        running_partition (the_slice ?c si w) = Some pi \<and> running_process (the_slice ?c si w) = Some i)"
    if pi: "pi < length (partitions w)" and i: "i \<in> thawed (partitions w ! pi)" for pi i
  proof -
    from inv pi i obtain si where si: "valid_slice ?c si w" "pi \<in> parts_of (the_slice ?c si w)"
      unfolding win_inv_def by blast
    have "slice_inv (partitions w) (the_slice ?c si w)" using inv si(1) by (simp add: win_inv_def)
    with si(2) i have "running_partition (the_slice ?c si w) = Some pi \<and> running_process (the_slice ?c si w) = Some i \<and>
        thawed (partitions w ! pi) = {i}" by (auto simp: slice_inv_def split: if_splits)
    moreover have "sj = si" if "valid_slice ?c sj w" "pi \<in> parts_of (the_slice ?c sj w)" for sj
      using inv si that unfolding win_inv_def window_wf_def by blast
    ultimately show ?thesis using si by blast
  qed
  then show "\<forall>pi < length (partitions w). \<forall>i \<in> thawed (partitions w ! pi). thawed (partitions w ! pi) = {i} \<and>
      (\<exists>!si. valid_slice ?c si w \<and> pi \<in> parts_of (the_slice ?c si w) \<and>
        running_partition (the_slice ?c si w) = Some pi \<and> running_process (the_slice ?c si w) = Some i)" by blast
  show "\<forall>wi si. wi \<noteq> ?c \<longrightarrow> valid_slice wi si w \<longrightarrow>
      running_process (the_slice wi si w) = None \<and> \<not> tfd_active (sl_timer (the_slice wi si w))"
    using fr by (auto simp: frame_running_def frame_active_def resting_def valid_slice_def)
qed

text \<open>
  At every moment of the major frame, a process that the freezer lets run is the process held by
  exactly one slice of the current window, the partition it belongs to is one of that slice's
  partitions and no second process of the partition runs; the slices of all other windows hold
  nothing and their timers are stopped.
\<close>

lemma frame_isolates_processes:
  assumes "frame_stopped w" and "mf_start t w = Inr w0" and "foldE frame_step evs w0 = Inr w'"
  shows "(\<forall>pi < length (partitions w'). \<forall>i \<in> thawed (partitions w' ! pi).
      thawed (partitions w' ! pi) = {i} \<and>
      (\<exists>!si. valid_slice (current_win w') si w' \<and> pi \<in> parts_of (the_slice (current_win w') si w') \<and>
        running_partition (the_slice (current_win w') si w') = Some pi \<and>
        running_process (the_slice (current_win w') si w') = Some i)) \<and>
    (\<forall>wi si. wi \<noteq> current_win w' \<longrightarrow> valid_slice wi si w' \<longrightarrow>
      running_process (the_slice wi si w') = None \<and> \<not> tfd_active (sl_timer (the_slice wi si w')))"
proof -
  have "frame_running w0" using mf_start_inv[OF assms(2,1)] by blast
  from frame_run.run_inv[OF this assms(3)] have "frame_running w'" .
  from frame_running_isolates[OF this] show ?thesis by blast
qed

definition widest_ok :: "nat \<Rightarrow> slice list \<Rightarrow> cpu_set option \<Rightarrow> bool" where
  "widest_ok pi sls best = (case best of
     None \<Rightarrow> \<forall>sl \<in> set sls. pi \<notin> parts_of sl
   | Some b \<Rightarrow> (\<exists>sl \<in> set sls. pi \<in> parts_of sl \<and> b = sl_cpus sl) \<and>
       (\<forall>sl \<in> set sls. pi \<in> parts_of sl \<longrightarrow> cpu_count (sl_cpus sl) \<le> cpu_count b))"

lemma widest_step_ok: "widest_ok pi sls best \<Longrightarrow> widest_ok pi (sls @ [sl]) (widest_step pi sl best)"
  by (auto simp: widest_ok_def widest_step_def parts_of_def split: option.splits if_splits)

lemma widest_fold_ok: "widest_ok pi sls best \<Longrightarrow> widest_ok pi (sls @ sls') (fold (widest_step pi) sls' best)"
proof (induction sls' arbitrary: sls best)
  case (Cons sl sls')
  from Cons.IH[OF widest_step_ok[OF Cons.prems]] show ?case by simp
qed simp

text \<open>
  C24. \<open>find_widest_cpu_set\<close> returns the CPU set of a slice that contains the partition, with the
  largest number of CPUs among all such slices, and none exactly when no slice contains it.
\<close>

theorem find_widest_cpu_set_spec:
  "case find_widest_cpu_set pi w of
     None \<Rightarrow> \<forall>win \<in> set (windows w). \<forall>sl \<in> set (slices win). sl_sc sl \<noteq> Some pi \<and> sl_be sl \<noteq> Some pi
   | Some b \<Rightarrow> (\<exists>win \<in> set (windows w). \<exists>sl \<in> set (slices win).
         (sl_sc sl = Some pi \<or> sl_be sl = Some pi) \<and> b = sl_cpus sl) \<and>
       (\<forall>win \<in> set (windows w). \<forall>sl \<in> set (slices win).
         sl_sc sl = Some pi \<or> sl_be sl = Some pi \<longrightarrow> cpu_count (sl_cpus sl) \<le> cpu_count b)"
proof -
  have "widest_ok pi (sls @ concat (map slices wins))
      (fold (\<lambda>win best. fold (widest_step pi) (slices win) best) wins best)" if "widest_ok pi sls best" for wins sls best
    using that
  proof (induction wins arbitrary: sls best)
    case (Cons win wins)
    from Cons.IH[OF widest_fold_ok[OF Cons.prems]] show ?case by simp
  qed simp
  from this[of "[]" None "windows w"] have "widest_ok pi (concat (map slices (windows w))) (find_widest_cpu_set pi w)"
    by (simp add: find_widest_cpu_set_def widest_ok_def)
  then show ?thesis
    by (cases "find_widest_cpu_set pi w") (fastforce simp: widest_ok_def parts_of_def)+
qed

subsection \<open>A concrete frame\<close>

definition demo_frame :: frame where
  "demo_frame = store.extend demo_store (frame.fields 0 \<lparr>tfd_value = (0, 0), tfd_active = False\<rparr> 0 [] [])"

lemma demo_frame_simps [simp]:
  "partitions demo_frame = partitions demo_store" "windows demo_frame = windows demo_store"
  "st_policy demo_frame = PowerPolicy_None" "st_os demo_frame = quiet_os True" "start_time demo_frame = 0"
  "current_win demo_frame = 0"
  by (simp_all add: demo_frame_def store.defs frame.defs demo_store_def)

lemma demo_frame_stopped: "frame_stopped demo_frame"
  by (auto simp: frame_stopped_def frame_quiet_def frame_wf_def window_wf_def resting_def valid_slice_def the_slice_def demo_store_def
      demo_simps part_ok_def proc_ok_def is_spawned_def thawed_def parts_of_def less_Suc_eq nth_Cons')

lemmas frame_eval = mf_start_def mf_messages_def mf_timeout_cb_def move_to_next_window_def advance_window_def
  demo_frame_def store.defs frame.defs

lemma demo_frame_run:
  "\<exists>w0 w'. mf_start 0 demo_frame = Inr w0 \<and> foldE frame_step [Slice_served 0 5000000, Slice_served 0 8000000, Window_timeout] w0 = Inr w'"
  by (simp add: slice_eval window_eval frame_eval demo_store_def demo_simps)

theorem windows_cycle_without_drift_witness:
  "\<exists>w0 w'. mf_start 0 demo_frame = Inr w0 \<and> foldE frame_step [Slice_served 0 5000000, Slice_served 0 8000000, Window_timeout] w0 = Inr w' \<and>
     mf_timeout w' = 20000000"
proof -
  obtain w0 w' where run: "mf_start 0 demo_frame = Inr w0"
    "foldE frame_step [Slice_served 0 5000000, Slice_served 0 8000000, Window_timeout] w0 = Inr w'" using demo_frame_run by blast
  from windows_cycle_without_drift[OF demo_frame_stopped run] have "mf_timeout w' = 20000000"
    by (simp add: ns_of_ms_def demo_store_def)
  with run show ?thesis by blast
qed

lemma frame_isolates_processes_witness:
  "\<exists>w0 w'. mf_start 0 demo_frame = Inr w0 \<and> foldE frame_step [Slice_served 0 5000000, Slice_served 0 8000000, Window_timeout] w0 = Inr w' \<and>
     (\<forall>pi < length (partitions w'). \<forall>i \<in> thawed (partitions w' ! pi). thawed (partitions w' ! pi) = {i})"
proof -
  obtain w0 w' where run: "mf_start 0 demo_frame = Inr w0"
    "foldE frame_step [Slice_served 0 5000000, Slice_served 0 8000000, Window_timeout] w0 = Inr w'" using demo_frame_run by blast
  have "thawed (partitions w' ! pi) = {i}" if "pi < length (partitions w')" "i \<in> thawed (partitions w' ! pi)" for pi i
    using conjunct1[OF frame_isolates_processes[OF demo_frame_stopped run], rule_format, OF that] by (rule conjunct1)
  with run show ?thesis by blast
qed

theorem find_widest_cpu_set_spec_witness:
  "find_widest_cpu_set 1 demo_frame = Some 1 \<and> cpu_count (sl_cpus (slices (windows demo_frame ! 0) ! 0)) \<le> cpu_count 1"
proof -
  have "find_widest_cpu_set 1 demo_frame = Some 1"
    by (simp add: find_widest_cpu_set_def widest_step_def demo_store_def demo_simps)
  with find_widest_cpu_set_spec[of demo_frame 1] show ?thesis
    by (simp add: demo_store_def demo_simps)
qed

end
