(* ===== verification/Partition_Manager.thy ===== *)
theory Partition_Manager
  imports Major_Frame
begin

text \<open>
  The partition manager (\<open>src/src/partition_manager.hpp\<close>): it spawns and kills the processes of all
  partitions, runs the initialisation of the processes that ask for it and reports when every
  partition is empty. The two \<open>std::function\<close> members are arguments of the operations that call
  them; \<open>Demos_Scheduler\<close> passes the scheduler's own methods, as the code does.
\<close>

record manager = frame +
  remaining_process_inits :: int

type_synonym 'a mgr_cb = "'a manager_scheme \<Rightarrow> 'a manager_scheme result"

text \<open>An operation of a partition of the store, and the loop over all partitions.\<close>

definition on_part ::
  "nat \<Rightarrow> (partition \<Rightarrow> os \<Rightarrow> (partition \<times> os) result) \<Rightarrow> 'a store_scheme \<Rightarrow> 'a store_scheme result" where
  "on_part pi f w =
     (if pi < length (partitions w)
      then bindE (f (partitions w ! pi) (st_os w)) (\<lambda>(p, s).
           Inr (w\<lparr>partitions := (partitions w)[pi := p], st_os := s\<rparr>))
      else Inl (Undefined_behaviour ''dangling pointer''))"

definition for_parts ::
  "(nat \<Rightarrow> 'a store_scheme \<Rightarrow> 'a store_scheme result) \<Rightarrow> 'a store_scheme \<Rightarrow> 'a store_scheme result" where
  "for_parts f w = foldE f [0..<length (partitions w)] w"

definition set_exit_cb :: "exit_cb \<Rightarrow> 'a store_scheme \<Rightarrow> 'a store_scheme" where
  "set_exit_cb cb w = w\<lparr>partitions := map (set_process_exit_cb cb) (partitions w)\<rparr>"

definition finish_process_init :: "'a mgr_cb \<Rightarrow> 'a mgr_cb" where
  "finish_process_init init_cb w =
     (let w = set_exit_cb Exit_process w in
      init_cb (w\<lparr>partitions := map disconnect (partitions w)\<rparr>))"

definition init_process :: "nat \<Rightarrow> nat \<Rightarrow> 'a mgr_cb" where
  "init_process pi qi w =
     (if \<not> needs_initialization (processes (partitions w ! pi) ! qi) then Inr w
      else on_part pi (on_proc qi resume) (w\<lparr>remaining_process_inits := remaining_process_inits w + 1\<rparr>))"

definition run_process_init :: "'a mgr_cb \<Rightarrow> 'a mgr_cb" where
  "run_process_init init_cb w =
     bindE (for_parts (\<lambda>pi w. on_part pi
              (reset True (case find_widest_cpu_set pi w of Some cpus \<Rightarrow> cpus | None \<Rightarrow> 0) Cb_init) w) w) (\<lambda>w.
     bindE (for_parts (\<lambda>pi w. foldE (init_process pi) [0..<length (processes (partitions w ! pi))] w)
              (set_exit_cb Exit_process_init w)) (\<lambda>w.
     if remaining_process_inits w = 0 then finish_process_init init_cb w else Inr w))"

definition pm_create_processes :: "'a store_scheme \<Rightarrow> 'a store_scheme result" where
  "pm_create_processes w = for_parts (\<lambda>pi. on_part pi create_processes) w"

definition pm_kill_all :: "'a store_scheme \<Rightarrow> 'a store_scheme result" where
  "pm_kill_all w = for_parts (\<lambda>pi. on_part pi part_kill_all) w"

definition process_exit_cb :: "'a mgr_cb \<Rightarrow> bool \<Rightarrow> 'a mgr_cb" where
  "process_exit_cb completion_cb partition_empty w =
     (if \<not> partition_empty then Inr w
      else if \<exists>p \<in> set (partitions w). \<not> part_empty p then Inr w
      else completion_cb w)"

definition process_init_completion_cb :: "'a mgr_cb \<Rightarrow> nat \<Rightarrow> nat \<Rightarrow> 'a mgr_cb" where
  "process_init_completion_cb init_cb pi qi w =
     bindE (on_part pi (on_proc qi suspend) w) (\<lambda>w.
     let w = w\<lparr>remaining_process_inits := remaining_process_inits w - 1\<rparr> in
     if remaining_process_inits w = 0 then finish_process_init init_cb w else Inr w)"

definition process_init_exit_cb :: "'a mgr_cb \<Rightarrow> 'a mgr_cb \<Rightarrow> nat \<Rightarrow> nat \<Rightarrow> bool \<Rightarrow> 'a mgr_cb" where
  "process_init_exit_cb init_cb completion_cb pi qi partition_empty w =
     bindE (if needs_initialization (processes (partitions w ! pi) ! qi)
            then process_init_completion_cb init_cb pi qi w else Inr w)
       (process_exit_cb completion_cb partition_empty)"

text \<open>\<open>Partition::proc_exit_cb\<close>: the partition is updated, then its exit callback is called.\<close>

definition call_exit_cb :: "'a mgr_cb \<Rightarrow> 'a mgr_cb \<Rightarrow> nat \<Rightarrow> nat \<Rightarrow> 'a mgr_cb" where
  "call_exit_cb init_cb completion_cb pi qi w =
     (let e = part_empty (partitions w ! pi) in
      case part_exit_cb (partitions w ! pi) of
        Exit_null \<Rightarrow> Inl (Runtime_error ''bad_function_call'')
      | Exit_process \<Rightarrow> process_exit_cb completion_cb e w
      | Exit_process_init \<Rightarrow> process_init_exit_cb init_cb completion_cb pi qi e w)"

definition proc_exit :: "'a mgr_cb \<Rightarrow> 'a mgr_cb \<Rightarrow> nat \<Rightarrow> nat \<Rightarrow> 'a mgr_cb" where
  "proc_exit init_cb completion_cb pi qi w =
     call_exit_cb init_cb completion_cb pi qi (upd_part pi part_proc_exit w)"

subsection \<open>Loops over the partitions\<close>

lemma on_part_Inr:
  assumes "on_part pi f w = Inr w'"
  obtains p s where "pi < length (partitions w)" and "f (partitions w ! pi) (st_os w) = Inr (p, s)"
    and "w' = w\<lparr>partitions := (partitions w)[pi := p], st_os := s\<rparr>"
  using assms by (auto simp: on_part_def bindE_Inr_iff split: if_splits prod.splits)

text \<open>
  A loop whose body works on one partition after the other: every partition is the result of the
  body on the old one, and nothing else changes but the system.
\<close>

lemma foldE_on_part:
  assumes "foldE (\<lambda>pi w. on_part pi (f pi (windows w)) w) [k..<length (partitions w)] w = Inr w'"
    and "\<And>pi p s q t. f pi (windows w) p s = Inr (q, t) \<Longrightarrow> os_extends s t"
  shows "\<exists>ps s. w' = w\<lparr>partitions := ps, st_os := s\<rparr> \<and> os_extends (st_os w) s \<and> length ps = length (partitions w) \<and>
    (\<forall>pi < length (partitions w). if pi < k then ps ! pi = partitions w ! pi
       else \<exists>s1 s2. os_extends (st_os w) s1 \<and> f pi (windows w) (partitions w ! pi) s1 = Inr (ps ! pi, s2))"
  using assms
proof (induction "length (partitions w) - k" arbitrary: k w)
  case 0
  then show ?case by (intro exI[of _ "partitions w"] exI[of _ "st_os w"]) simp
next
  case (Suc m)
  let ?n = "length (partitions w)"
  from Suc.hyps(2) have k: "k < ?n" by simp
  with Suc.prems(1) obtain w1 where w1: "on_part k (f k (windows w)) w = Inr w1"
    and rest: "foldE (\<lambda>pi w. on_part pi (f pi (windows w)) w) [Suc k..<?n] w1 = Inr w'"
    by (auto simp: upt_conv_Cons bindE_Inr_iff)
  from w1 obtain p s where p: "f k (windows w) (partitions w ! k) (st_os w) = Inr (p, s)"
    and eq: "w1 = w\<lparr>partitions := (partitions w)[k := p], st_os := s\<rparr>" by (rule on_part_Inr)
  have ext: "os_extends (st_os w) s" by (rule Suc.prems(2)[OF p])
  have len: "length (partitions w1) = ?n" and wins: "windows w1 = windows w" by (simp_all add: eq)
  have "m = length (partitions w1) - Suc k" using Suc.hyps(2) len by simp
  then have "\<exists>ps t. w' = w1\<lparr>partitions := ps, st_os := t\<rparr> \<and> os_extends (st_os w1) t \<and> length ps = length (partitions w1) \<and>
    (\<forall>pi < length (partitions w1). if pi < Suc k then ps ! pi = partitions w1 ! pi
       else \<exists>s1 s2. os_extends (st_os w1) s1 \<and> f pi (windows w1) (partitions w1 ! pi) s1 = Inr (ps ! pi, s2))"
    by (rule Suc.hyps(1)) (use rest Suc.prems(2) in \<open>simp_all add: len wins\<close>)
  then obtain ps t where
    w': "w' = w1\<lparr>partitions := ps, st_os := t\<rparr>" and t: "os_extends s t" "length ps = ?n" and
    nth: "\<And>pi. pi < ?n \<Longrightarrow> if pi < Suc k then ps ! pi = (partitions w)[k := p] ! pi
       else \<exists>s1 s2. os_extends s s1 \<and> f pi (windows w) ((partitions w)[k := p] ! pi) s1 = Inr (ps ! pi, s2)"
    by (auto simp: eq cong: if_cong)
  have "if pi < k then ps ! pi = partitions w ! pi
       else \<exists>s1 s2. os_extends (st_os w) s1 \<and> f pi (windows w) (partitions w ! pi) s1 = Inr (ps ! pi, s2)" if "pi < ?n" for pi
  proof (cases "pi = k")
    case True
    with nth[OF that] p k have "f pi (windows w) (partitions w ! pi) (st_os w) = Inr (ps ! pi, s)" by simp
    with True show ?thesis by simp (metis os_extends_refl)
  next
    case False
    with nth[OF that] os_extends_trans[OF ext] show ?thesis by (cases "pi < k") auto
  qed
  moreover have "w' = w\<lparr>partitions := ps, st_os := t\<rparr>" using w' by (simp add: eq)
  ultimately show ?case using t os_extends_trans[OF ext t(1)] by blast
qed

lemma for_parts_Inr:
  assumes "for_parts (\<lambda>pi w. on_part pi (f pi (windows w)) w) w = Inr w'"
    and "\<And>pi p s q t. f pi (windows w) p s = Inr (q, t) \<Longrightarrow> os_extends s t"
  obtains ps s where "w' = w\<lparr>partitions := ps, st_os := s\<rparr>" and "os_extends (st_os w) s"
    and "length ps = length (partitions w)"
    and "\<And>pi. pi < length (partitions w) \<Longrightarrow> \<exists>s1 s2. f pi (windows w) (partitions w ! pi) s1 = Inr (ps ! pi, s2)"
proof -
  from foldE_on_part[of f 0 w w'] assms have "\<exists>ps s. w' = w\<lparr>partitions := ps, st_os := s\<rparr> \<and> os_extends (st_os w) s \<and>
      length ps = length (partitions w) \<and>
      (\<forall>pi < length (partitions w). \<exists>s1 s2. os_extends (st_os w) s1 \<and> f pi (windows w) (partitions w ! pi) s1 = Inr (ps ! pi, s2))"
    by (simp add: for_parts_def)
  with that show ?thesis by blast
qed

text \<open>The effect of killing: every spawned process is marked and thawed.\<close>

definition killed_process :: "process \<Rightarrow> process" where
  "killed_process q =
     (if is_spawned q then q\<lparr>proc_cgf := (proc_cgf q)\<lparr>frozen := False\<rparr>, killed := True\<rparr> else q)"

definition killed_part :: "partition \<Rightarrow> partition" where
  "killed_part p = p\<lparr>processes := map killed_process (processes p)\<rparr>"

lemma part_kill_all_Inr:
  assumes "part_kill_all p s = Inr (p', t)"
  shows "p' = killed_part p \<and> os_extends s t"
proof -
  from assms obtain qs where qs: "mapE kill (processes p) s = Inr (qs, t)" and p': "p' = p\<lparr>processes := qs\<rparr>"
    by (auto simp: part_kill_all_def bindE_Inr_iff)
  have "os_extends s t \<and> list_all2 (\<lambda>x y. y = killed_process x) (processes p) qs"
    by (rule mapE_list_all2[where P = "os_extends s", OF qs os_extends_refl])
      (auto simp: killed_process_def dest!: kill_Inr elim: os_extends_trans)
  then have "os_extends s t" "qs = map killed_process (processes p)"
    by (auto simp: list_all2_conv_all_nth intro!: nth_equalityI)
  with p' show ?thesis by (simp add: killed_part_def)
qed

lemma pm_kill_all_Inr:
  assumes "pm_kill_all w = Inr w'"
  shows "\<exists>s. w' = w\<lparr>partitions := map killed_part (partitions w), st_os := s\<rparr> \<and> os_extends (st_os w) s"
  using assms[unfolded pm_kill_all_def]
proof (rule for_parts_Inr[where f = "\<lambda>_ _. part_kill_all"])
  fix ps s assume w': "w' = w\<lparr>partitions := ps, st_os := s\<rparr>" "os_extends (st_os w) s" "length ps = length (partitions w)"
    and nth: "\<And>pi. pi < length (partitions w) \<Longrightarrow> \<exists>s1 s2. part_kill_all (partitions w ! pi) s1 = Inr (ps ! pi, s2)"
  have "ps ! pi = killed_part (partitions w ! pi)" if "pi < length (partitions w)" for pi
    using nth[OF that] part_kill_all_Inr by blast
  then have "ps = map killed_part (partitions w)" using w'(3) by (intro nth_equalityI) auto
  with w'(1,2) show ?thesis by blast
qed (use part_kill_all_Inr in blast)

lemma proc_ok_killed [simp]: "proc_ok (killed_process q) = proc_ok q" "is_spawned (killed_process q) = is_spawned q"
  "proc_conf (killed_process q) = proc_conf q"
  by (auto simp: killed_process_def proc_ok_def is_spawned_def proc_conf_def)

lemma killed_part_simps [simp]:
  "part_ok (killed_part p) = part_ok p" "part_conf (killed_part p) = part_conf p"
  "part_completed_cb (killed_part p) = part_completed_cb p" "part_exit_cb (killed_part p) = part_exit_cb p"
  "part_empty (killed_part p) = part_empty p" "length (processes (killed_part p)) = length (processes p)"
  by (simp_all add: killed_part_def part_ok_def part_conf_def comp_def)

subsection \<open>Initialisation\<close>

text \<open>
  The processes that ask for initialisation, those that the freezer lets run, and the part of the
  store that initialisation may change.
\<close>

definition proc_at :: "'a store_scheme \<Rightarrow> nat \<times> nat \<Rightarrow> process" where
  "proc_at w pq = processes (partitions w ! fst pq) ! snd pq"

definition procs :: "'a store_scheme \<Rightarrow> (nat \<times> nat) set" where
  "procs w = {(pi, qi). pi < length (partitions w) \<and> qi < length (processes (partitions w ! pi))}"

definition inits :: "'a store_scheme \<Rightarrow> (nat \<times> nat) set" where
  "inits w = {pq \<in> procs w. has_initialization (proc_at w pq)}"

definition running :: "'a store_scheme \<Rightarrow> (nat \<times> nat) set" where
  "running w = {(pi, qi). pi < length (partitions w) \<and> qi \<in> thawed (partitions w ! pi)}"

definition mgr_frame :: "'a manager_scheme \<Rightarrow> 'a manager_scheme \<Rightarrow> bool" where
  "mgr_frame w w' \<longleftrightarrow> (\<exists>ps s r. w' = w\<lparr>partitions := ps, st_os := s, remaining_process_inits := r\<rparr> \<and>
     os_extends (st_os w) s \<and> map part_conf ps = map part_conf (partitions w))"

lemma mgr_frame_refl [simp]: "mgr_frame w w"
  by (auto simp: mgr_frame_def intro!: exI[of _ "partitions w"] exI[of _ "st_os w"] exI[of _ "remaining_process_inits w"])

lemma mgr_frame_trans [trans]: "mgr_frame w w' \<Longrightarrow> mgr_frame w' w'' \<Longrightarrow> mgr_frame w w''"
  by (fastforce simp: mgr_frame_def elim: os_extends_trans)

lemma running_procs: "running w \<subseteq> procs w"
  by (auto simp: running_def procs_def thawed_def)

lemma finite_procs [simp]: "finite (procs w)"
proof -
  have "procs w = (SIGMA pi : {..<length (partitions w)}. {..<length (processes (partitions w ! pi))})"
    by (auto simp: procs_def)
  then show ?thesis by simp
qed

lemma finite_running [simp]: "finite (running w)"
  by (rule finite_subset[OF running_procs finite_procs])

lemma procs_conf:
  assumes "map part_conf (partitions w') = map part_conf (partitions w)"
  shows "length (partitions w') = length (partitions w)" "procs w' = procs w" "inits w' = inits w"
    "pq \<in> procs w \<Longrightarrow> proc_conf (proc_at w' pq) = proc_conf (proc_at w pq)"
    "pi < length (partitions w) \<Longrightarrow> part_conf (partitions w' ! pi) = part_conf (partitions w ! pi)"
proof -
  show len: "length (partitions w') = length (partitions w)" by (rule map_eq_imp_length_eq[OF assms])
  show conf: "part_conf (partitions w' ! pi) = part_conf (partitions w ! pi)" if "pi < length (partitions w)" for pi
    using arg_cong[OF assms, of "\<lambda>xs. xs ! pi"] that len by simp
  show pr: "procs w' = procs w" using part_conf_dest(1)[OF conf] len by (auto simp: procs_def)
  show pc: "proc_conf (proc_at w' pq) = proc_conf (proc_at w pq)" if "pq \<in> procs w" for pq
    using that part_conf_dest(4)[OF conf] by (auto simp: procs_def proc_at_def)
  have "has_initialization (proc_at w' pq) = has_initialization (proc_at w pq)" if "pq \<in> procs w" for pq
    using pc[OF that] by (simp add: proc_conf_def)
  then show "inits w' = inits w" by (auto simp: inits_def pr)
qed

lemma on_part_proc:
  assumes "on_part pi (on_proc qi f) w = Inr w'"
  obtains q s where "(pi, qi) \<in> procs w" and "f (proc_at w (pi, qi)) (st_os w) = Inr (q, s)"
    and "w' = (upd_part pi (upd_proc qi (\<lambda>_. q)) w)\<lparr>st_os := s\<rparr>"
  using assms by (elim on_part_Inr on_proc_Inr) (auto simp: procs_def proc_at_def upd_part_def)

lemma upd_at:
  assumes pq: "(pi, qi) \<in> procs w" and parts: "partitions w' = (partitions w)[pi := upd_proc qi (\<lambda>_. q) (partitions w ! pi)]"
  shows "running w' = (if frozen (proc_cgf q) then running w - {(pi, qi)} else insert (pi, qi) (running w))"
    "map part_completed_cb (partitions w') = map part_completed_cb (partitions w)"
    "proc_conf q = proc_conf (proc_at w (pi, qi)) \<Longrightarrow> map part_conf (partitions w') = map part_conf (partitions w)"
    "\<forall>p \<in> set (partitions w). part_ok p \<Longrightarrow> (proc_ok (proc_at w (pi, qi)) \<Longrightarrow> proc_ok q) \<Longrightarrow>
      (is_spawned q \<Longrightarrow> is_spawned (proc_at w (pi, qi))) \<Longrightarrow> \<forall>p \<in> set (partitions w'). part_ok p"
proof -
  have lt: "pi < length (partitions w)" "qi < length (processes (partitions w ! pi))" using pq by (auto simp: procs_def)
  have len: "length (partitions w') = length (partitions w)" by (simp add: parts)
  have th: "thawed (partitions w' ! pj) = (if pj = pi then (if frozen (proc_cgf q) then thawed (partitions w ! pi) - {qi}
      else insert qi (thawed (partitions w ! pi))) else thawed (partitions w ! pj))" if "pj < length (partitions w)" for pj
    using that lt by (simp add: parts nth_list_update thawed_upd_proc)
  show "running w' = (if frozen (proc_cgf q) then running w - {(pi, qi)} else insert (pi, qi) (running w))"
    using th lt(1) len by (auto simp: running_def split: if_splits)
  show "map part_completed_cb (partitions w') = map part_completed_cb (partitions w)"
    unfolding parts by (rule map_list_update_same) simp
  show "map part_conf (partitions w') = map part_conf (partitions w)" if "proc_conf q = proc_conf (proc_at w (pi, qi))"
    unfolding parts by (rule map_list_update_same) (use that in \<open>simp add: proc_at_def\<close>)
  assume ok: "\<forall>p \<in> set (partitions w). part_ok p" and q: "proc_ok (proc_at w (pi, qi)) \<Longrightarrow> proc_ok q"
    and sp: "is_spawned q \<Longrightarrow> is_spawned (proc_at w (pi, qi))"
  have "part_ok (upd_proc qi (\<lambda>_. q) (partitions w ! pi))"
    by (rule part_ok_upd_proc) (use ok lt q sp in \<open>simp_all add: proc_at_def\<close>)
  then show "\<forall>p \<in> set (partitions w'). part_ok p"
    using ok set_update_subset_insert[of "partitions w" pi] unfolding parts by blast
qed

text \<open>
  The invariant of the initialisation: the counter is the number of processes that the freezer lets
  run, all of which asked for initialisation.
\<close>

definition init_inv :: "'a manager_scheme \<Rightarrow> bool" where
  "init_inv w \<longleftrightarrow> (\<forall>p \<in> set (partitions w). part_ok p) \<and> running w \<subseteq> inits w \<and>
     remaining_process_inits w = int (card (running w))"

lemma init_process_inv:
  assumes run: "init_process pi qi w = Inr w'" and inv: "init_inv w" and pq: "(pi, qi) \<in> procs w" "(pi, qi) \<notin> running w"
  shows "init_inv w' \<and> mgr_frame w w' \<and> map part_completed_cb (partitions w') = map part_completed_cb (partitions w) \<and>
    running w' = running w \<union> ({(pi, qi)} \<inter> inits w)"
proof (cases "has_initialization (proc_at w (pi, qi))")
  case False
  then have "w' = w" using run by (simp add: init_process_def needs_initialization_def proc_at_def)
  with False inv show ?thesis by (simp add: inits_def)
next
  case True
  let ?w = "w\<lparr>remaining_process_inits := remaining_process_inits w + 1\<rparr>"
  from True run have "on_part pi (on_proc qi resume) ?w = Inr w'"
    by (simp add: init_process_def needs_initialization_def proc_at_def)
  then obtain q s where "(pi, qi) \<in> procs ?w" and q: "resume (proc_at w (pi, qi)) (st_os w) = Inr (q, s)"
    and w': "w' = (upd_part pi (upd_proc qi (\<lambda>_. q)) ?w)\<lparr>st_os := s\<rparr>"
    by (rule on_part_proc) (simp add: proc_at_def)
  note q' = resume_Inr[OF q]
  have parts: "partitions w' = (partitions w)[pi := upd_proc qi (\<lambda>_. q) (partitions w ! pi)]"
    by (simp add: w' upd_part_def)
  note u = upd_at[OF pq(1) parts]
  have conf: "map part_conf (partitions w') = map part_conf (partitions w)" by (rule u(3)) (use q' in simp)
  have "running w' = insert (pi, qi) (running w)" using u(1) q' by simp
  moreover have "(pi, qi) \<in> inits w" using True pq(1) by (simp add: inits_def)
  moreover have "\<forall>p \<in> set (partitions w'). part_ok p"
    by (rule u(4)) (use inv q' in \<open>auto simp: init_inv_def\<close>)
  moreover have "mgr_frame w w'" using conf q' unfolding mgr_frame_def w'
    by (intro exI[of _ "partitions w'"] exI[of _ s] exI[of _ "remaining_process_inits w + 1"])
      (auto simp: w' upd_part_def)
  moreover have "remaining_process_inits w' = remaining_process_inits w + 1" by (simp add: w' upd_part_def)
  ultimately show ?thesis using inv pq(2) u(2) procs_conf(3)[OF conf] by (simp add: init_inv_def)
qed

lemma mgr_frame_conf:
  assumes "mgr_frame w w'"
  shows "map part_conf (partitions w') = map part_conf (partitions w)" "windows w' = windows w"
    "start_time w' = start_time w" "current_win w' = current_win w" "mf_timer w' = mf_timer w"
    "mf_timeout w' = mf_timeout w" "manager.more w' = manager.more w" "os_extends (st_os w) (st_os w')"
    "st_policy w' = st_policy w"
  using assms by (auto simp: mgr_frame_def)

definition before :: "nat \<Rightarrow> nat \<Rightarrow> (nat \<times> nat) set" where
  "before pi qi = {(pj, qj). pj < pi \<or> pj = pi \<and> qj < qi}"

lemma init_part_loop:
  assumes "foldE (init_process pi) [k..<length (processes (partitions w ! pi))] w = Inr w'"
    and "pi < length (partitions w)" and "init_inv w" and "running w = inits w \<inter> before pi k"
    and "k \<le> length (processes (partitions w ! pi))"
  shows "init_inv w' \<and> mgr_frame w w' \<and> map part_completed_cb (partitions w') = map part_completed_cb (partitions w) \<and>
    running w' = inits w \<inter> before (Suc pi) 0"
  using assms
proof (induction "length (processes (partitions w ! pi)) - k" arbitrary: k w)
  case 0
  then have k: "k = length (processes (partitions w ! pi))" by simp
  have "inits w \<inter> before pi k = inits w \<inter> before (Suc pi) 0"
    by (auto simp: before_def inits_def procs_def k less_Suc_eq)
  with 0 k show ?case by simp
next
  case (Suc m)
  let ?n = "length (processes (partitions w ! pi))"
  from Suc.hyps(2) have k: "k < ?n" by simp
  with Suc.prems(1) obtain w1 where w1: "init_process pi k w = Inr w1"
    and rest: "foldE (init_process pi) [Suc k..<?n] w1 = Inr w'" by (auto simp: upt_conv_Cons bindE_Inr_iff)
  have "(pi, k) \<in> procs w" "(pi, k) \<notin> running w"
    using k Suc.prems(2,4) by (auto simp: procs_def before_def)
  note st = init_process_inv[OF w1 Suc.prems(3) this]
  have fr: "mgr_frame w w1" and inv1: "init_inv w1" using st by auto
  note c = procs_conf[OF mgr_frame_conf(1)[OF fr]]
  have len: "length (processes (partitions w1 ! pi)) = ?n" using part_conf_dest(1)[OF c(5)[OF Suc.prems(2)]] .
  have "before pi (Suc k) = insert (pi, k) (before pi k)" by (auto simp: before_def)
  then have "running w1 = inits w1 \<inter> before pi (Suc k)" using st Suc.prems(4) c(3) by auto
  moreover have "m = length (processes (partitions w1 ! pi)) - Suc k" using Suc.hyps(2) len by simp
  ultimately have "init_inv w' \<and> mgr_frame w1 w' \<and>
      map part_completed_cb (partitions w') = map part_completed_cb (partitions w1) \<and> running w' = inits w1 \<inter> before (Suc pi) 0"
    using Suc.hyps(1)[of w1 "Suc k"] rest len inv1 Suc.prems(2) c(1) k by simp
  then show ?case using st c(3) mgr_frame_trans[OF fr] by auto
qed

lemma init_loop:
  assumes "foldE (\<lambda>pi w. foldE (init_process pi) [0..<length (processes (partitions w ! pi))] w) [k..<length (partitions w)] w = Inr w'"
    and "init_inv w" and "running w = inits w \<inter> before k 0" and "k \<le> length (partitions w)"
  shows "init_inv w' \<and> mgr_frame w w' \<and> map part_completed_cb (partitions w') = map part_completed_cb (partitions w) \<and>
    running w' = inits w"
  using assms
proof (induction "length (partitions w) - k" arbitrary: k w)
  case 0
  then have k: "k = length (partitions w)" by simp
  have "inits w \<inter> before k 0 = inits w" by (auto simp: before_def inits_def procs_def k)
  with 0 k show ?case by simp
next
  case (Suc m)
  let ?n = "length (partitions w)" and ?b = "\<lambda>pi w. foldE (init_process pi) [0..<length (processes (partitions w ! pi))] w"
  from Suc.hyps(2) have k: "k < ?n" by simp
  with Suc.prems(1) obtain w1 where w1: "?b k w = Inr w1" and rest: "foldE ?b [Suc k..<?n] w1 = Inr w'"
    by (auto simp: upt_conv_Cons bindE_Inr_iff)
  note st = init_part_loop[OF w1 k Suc.prems(2,3)]
  have fr: "mgr_frame w w1" and inv1: "init_inv w1" using st by auto
  note c = procs_conf[OF mgr_frame_conf(1)[OF fr]]
  have "running w1 = inits w1 \<inter> before (Suc k) 0" using st c(3) by simp
  moreover have "m = length (partitions w1) - Suc k" using Suc.hyps(2) c(1) by simp
  ultimately have "init_inv w' \<and> mgr_frame w1 w' \<and>
      map part_completed_cb (partitions w') = map part_completed_cb (partitions w1) \<and> running w' = inits w1"
    using Suc.hyps(1)[of w1 "Suc k"] rest c(1) inv1 k by simp
  then show ?case using st c(3) mgr_frame_trans[OF fr] by auto
qed

text \<open>
  The phases of the manager. \<open>calm\<close>: no window is executed. \<open>phase_init\<close>: initialisation is under way;
  \<open>phase_ready\<close>: it is over, everything is frozen and the windows can be started. \<open>init_frame\<close>: what
  initialisation leaves alone, in particular the life of the processes.
\<close>

definition calm :: "'a frame_scheme \<Rightarrow> bool" where
  "calm w \<longleftrightarrow> current_win w < length (windows w) \<and>
     (\<forall>wi < length (windows w). window_wf wi w \<and> resting wi w) \<and> \<not> tfd_active (mf_timer w)"

definition cbs_are :: "completion_cb \<Rightarrow> exit_cb \<Rightarrow> 'a store_scheme \<Rightarrow> bool" where
  "cbs_are cb ex w \<longleftrightarrow> (\<forall>p \<in> set (partitions w). part_completed_cb p = cb \<and> part_exit_cb p = ex)"

definition phase_init :: "'a manager_scheme \<Rightarrow> bool" where
  "phase_init w \<longleftrightarrow> calm w \<and> init_inv w \<and> running w \<noteq> {} \<and> cbs_are Cb_init Exit_process_init w"

definition phase_ready :: "'a manager_scheme \<Rightarrow> bool" where
  "phase_ready w \<longleftrightarrow> calm w \<and> init_inv w \<and> running w = {} \<and> cbs_are Cb_disconnected Exit_process w"

definition life :: "'a store_scheme \<Rightarrow> (proc_config list \<times> bool) list" where
  "life w = map (\<lambda>p. (map proc_conf (processes p), part_empty p)) (partitions w)"

definition init_frame :: "'a manager_scheme \<Rightarrow> 'a manager_scheme \<Rightarrow> bool" where
  "init_frame w w' \<longleftrightarrow> life w' = life w \<and> windows w' = windows w \<and> start_time w' = start_time w \<and>
     current_win w' = current_win w \<and> mf_timer w' = mf_timer w \<and> mf_timeout w' = mf_timeout w \<and>
     manager.more w' = manager.more w \<and> os_extends (st_os w) (st_os w')"

lemma init_frame_refl [simp]: "init_frame w w"
  by (simp add: init_frame_def)

lemma init_frame_trans [trans]: "init_frame w w' \<Longrightarrow> init_frame w' w'' \<Longrightarrow> init_frame w w''"
  by (auto simp: init_frame_def elim: os_extends_trans)

lemma life_conf: "map part_conf (partitions w') = map part_conf (partitions w) \<Longrightarrow> life w' = life w"
proof -
  assume "map part_conf (partitions w') = map part_conf (partitions w)"
  from arg_cong[OF this, of "map (\<lambda>(qs, _, e). (qs, e))"] show ?thesis by (simp add: life_def comp_def part_conf_def)
qed

lemma mgr_frame_init: "mgr_frame w w' \<Longrightarrow> init_frame w w'"
  using life_conf[of w' w] mgr_frame_conf[of w w'] by (auto simp: init_frame_def)

lemma life_procs:
  assumes "life w' = life w"
  shows "length (partitions w') = length (partitions w)" "procs w' = procs w" "inits w' = inits w"
    "pq \<in> procs w \<Longrightarrow> proc_conf (proc_at w' pq) = proc_conf (proc_at w pq)"
proof -
  show len: "length (partitions w') = length (partitions w)" using arg_cong[OF assms, of length] by (simp add: life_def)
  have m: "map proc_conf (processes (partitions w' ! pi)) = map proc_conf (processes (partitions w ! pi))"
    if "pi < length (partitions w)" for pi using arg_cong[OF assms, of "\<lambda>xs. fst (xs ! pi)"] that len by (simp add: life_def)
  have l: "length (processes (partitions w' ! pi)) = length (processes (partitions w ! pi))" if "pi < length (partitions w)" for pi
    by (rule map_eq_imp_length_eq[OF m[OF that]])
  show pr: "procs w' = procs w" using l len by (auto simp: procs_def)
  show pc: "proc_conf (proc_at w' pq) = proc_conf (proc_at w pq)" if "pq \<in> procs w" for pq
    using that arg_cong[OF m, of "fst pq" "\<lambda>xs. xs ! snd pq"] l[of "fst pq"] by (auto simp: procs_def proc_at_def)
  have "has_initialization (proc_at w' pq) = has_initialization (proc_at w pq)" if "pq \<in> procs w" for pq
    using pc[OF that] by (simp add: proc_conf_def)
  then show "inits w' = inits w" by (auto simp: inits_def pr)
qed

lemma calm_frame:
  assumes "init_frame w w'" and "calm w"
  shows "calm w'"
proof -
  have eq: "valid_slice wi si w' = valid_slice wi si w" "the_slice wi si w' = the_slice wi si w" for wi si
    using assms(1) by (simp_all add: init_frame_def valid_slice_def the_slice_def)
  show ?thesis
    using assms life_procs(1)[of w' w] by (auto simp: calm_def init_frame_def window_wf_def resting_def eq)
qed

lemma phase_ready_stopped: "phase_ready w \<Longrightarrow> frame_stopped w"
  by (auto simp: phase_ready_def calm_def frame_stopped_def frame_quiet_def frame_wf_def init_inv_def cbs_are_def running_def)

text \<open>Changing the callbacks of all partitions.\<close>

lemma set_cbs_frame:
  fixes w :: "'a manager_scheme" and ex :: exit_cb
  defines "w1 \<equiv> set_exit_cb ex w" and "w2 \<equiv> w\<lparr>partitions := map disconnect (partitions w)\<rparr>"
  shows "init_frame w w1" "running w1 = running w" "init_inv w1 = init_inv w"
    "init_frame w w2" "running w2 = running w" "init_inv w2 = init_inv w"
proof -
  show f: "init_frame w w1" "init_frame w w2"
    by (simp_all add: w1_def w2_def set_exit_cb_def init_frame_def life_def set_process_exit_cb_def disconnect_def comp_def)
  show r: "running w1 = running w" "running w2 = running w"
    by (auto simp: w1_def w2_def set_exit_cb_def running_def set_process_exit_cb_def disconnect_def)
  have "life w1 = life w" "life w2 = life w" using f by (simp_all add: init_frame_def)
  note i = this[THEN life_procs(3)]
  show "init_inv w1 = init_inv w" "init_inv w2 = init_inv w"
    unfolding init_inv_def r i by (simp_all add: w1_def w2_def set_exit_cb_def set_process_exit_cb_def disconnect_def)
qed

lemma finish_process_init_eq:
  assumes "calm w" and "init_inv w" and "running w = {}"
  shows "\<exists>u. finish_process_init init_cb w = init_cb u \<and> phase_ready u \<and> init_frame w u"
proof -
  let ?w1 = "set_exit_cb Exit_process w"
  let ?u = "?w1\<lparr>partitions := map disconnect (partitions ?w1)\<rparr>"
  have fr: "init_frame w ?u" by (rule init_frame_trans[OF set_cbs_frame(1,4)])
  have "init_inv ?u" "running ?u = {}" using assms(2,3) set_cbs_frame(2,3)[where w = w] set_cbs_frame(5,6)[of ?w1] by simp_all
  moreover have "cbs_are Cb_disconnected Exit_process ?u"
    by (simp add: cbs_are_def set_exit_cb_def set_process_exit_cb_def disconnect_def)
  ultimately show ?thesis
    using calm_frame[OF fr assms(1)] fr by (auto simp: phase_ready_def finish_process_init_def Let_def)
qed

lemma reset_loop:
  assumes run: "for_parts (\<lambda>pi w. on_part pi (reset True (case find_widest_cpu_set pi w of Some cpus \<Rightarrow> cpus | None \<Rightarrow> 0) Cb_init) w) w
      = Inr w'" and inv: "init_inv w"
  shows "init_frame w w' \<and> init_inv w' \<and> running w' = running w \<and> (\<forall>p \<in> set (partitions w'). part_completed_cb p = Cb_init)"
proof -
  let ?cpus = "\<lambda>pi wins. case fold (\<lambda>win best. fold (widest_step pi) (slices win) best) wins None of Some cpus \<Rightarrow> cpus | None \<Rightarrow> 0"
  have ext: "\<And>pi wins p s q t. reset True (?cpus pi wins) Cb_init p s = Inr (q, t) \<Longrightarrow> os_extends s t"
    by (erule reset_Inr)
  from run[unfolded find_widest_cpu_set_def] obtain ps s where
    w': "w' = w\<lparr>partitions := ps, st_os := s\<rparr>" "os_extends (st_os w) s" "length ps = length (partitions w)" and
    nth: "\<And>pi. pi < length (partitions w) \<Longrightarrow>
      \<exists>s1 s2. reset True (?cpus pi (windows w)) Cb_init (partitions w ! pi) s1 = Inr (ps ! pi, s2)"
    by (rule for_parts_Inr[where f = "\<lambda>pi wins. reset True (?cpus pi wins) Cb_init"]) (erule ext, rule that)
  have p: "part_ok (ps ! pi) \<and> thawed (ps ! pi) = thawed (partitions w ! pi) \<and> part_conf (ps ! pi) = part_conf (partitions w ! pi) \<and>
      part_completed_cb (ps ! pi) = Cb_init" if pi: "pi < length (partitions w)" for pi
  proof -
    from nth[OF pi] obtain s1 s2 where r: "reset True (?cpus pi (windows w)) Cb_init (partitions w ! pi) s1 = Inr (ps ! pi, s2)"
      by blast
    have "part_ok (partitions w ! pi)" using inv pi by (simp add: init_inv_def)
    moreover have "part_completed_cb (ps ! pi) = Cb_init" by (rule reset_Inr[OF r]) simp
    ultimately show ?thesis using reset_ok[OF r] by simp
  qed
  have "map part_conf ps = map part_conf (partitions w)" using p w'(3) by (intro nth_equalityI) auto
  then have fr: "init_frame w w'" using life_conf[of w' w] w'(1,2) by (simp add: init_frame_def)
  moreover have run: "running w' = running w" using p w'(3) by (auto simp: running_def w'(1))
  moreover have "inits w' = inits w" using fr life_procs(3) by (auto simp: init_frame_def)
  moreover have "\<forall>q \<in> set ps. part_ok q \<and> part_completed_cb q = Cb_init" using p w'(3) by (auto simp: in_set_conv_nth)
  ultimately show ?thesis using inv by (auto simp: init_inv_def w'(1))
qed

lemma run_process_init_spec:
  assumes run: "run_process_init init_cb w = Inr w'" and calm: "calm w" and inv: "init_inv w" and idle: "running w = {}"
  shows "if inits w = {} then \<exists>u. init_cb u = Inr w' \<and> phase_ready u \<and> init_frame w u
    else phase_init w' \<and> running w' = inits w \<and> init_frame w w'"
proof -
  from run obtain w1 w2 where
    w1: "for_parts (\<lambda>pi w. on_part pi (reset True (case find_widest_cpu_set pi w of Some cpus \<Rightarrow> cpus | None \<Rightarrow> 0) Cb_init) w) w = Inr w1" and
    w2: "for_parts (\<lambda>pi w. foldE (init_process pi) [0..<length (processes (partitions w ! pi))] w) (set_exit_cb Exit_process_init w1) = Inr w2" and
    fin: "(if remaining_process_inits w2 = 0 then finish_process_init init_cb w2 else Inr w2) = Inr w'"
    by (auto simp: run_process_init_def bindE_Inr_iff)
  let ?x = "set_exit_cb Exit_process_init w1"
  note r = reset_loop[OF w1 inv]
  have fx: "init_frame w ?x" using r by (blast intro: init_frame_trans set_cbs_frame(1))
  have ix: "init_inv ?x" "running ?x = {}" using r idle set_cbs_frame(2,3)[where w = w1] by simp_all
  have "inits ?x = inits w" using fx life_procs(3) by (auto simp: init_frame_def)
  moreover have "init_inv w2 \<and> mgr_frame ?x w2 \<and> map part_completed_cb (partitions w2) = map part_completed_cb (partitions ?x) \<and>
      running w2 = inits ?x"
    by (rule init_loop[OF w2[unfolded for_parts_def] ix(1)]) (simp_all add: ix(2) before_def)
  ultimately have i2: "init_inv w2" "running w2 = inits w" and m2: "mgr_frame ?x w2"
    and cb2: "map part_completed_cb (partitions w2) = map part_completed_cb (partitions ?x)" by auto
  have f2: "init_frame w w2" by (rule init_frame_trans[OF fx mgr_frame_init[OF m2]])
  note c2 = calm_frame[OF f2 calm]
  have rem: "remaining_process_inits w2 = int (card (inits w))" and fi: "finite (inits w)"
    using i2 finite_running[of w2] by (simp_all add: init_inv_def)
  show ?thesis
  proof (cases "inits w = {}")
    case True
    with fin rem have "finish_process_init init_cb w2 = Inr w'" by simp
    with finish_process_init_eq[OF c2 i2(1), of init_cb] i2(2) True show ?thesis
      by (auto intro: init_frame_trans[OF f2])
  next
    case False
    with fin rem fi have "w' = w2" by simp
    moreover have "cbs_are Cb_init Exit_process_init w2"
    proof -
      note pc = procs_conf(1,5)[OF mgr_frame_conf(1)[OF m2]]
      have "part_completed_cb (partitions w2 ! pi) = Cb_init \<and> part_exit_cb (partitions w2 ! pi) = Exit_process_init"
        if "pi < length (partitions w2)" for pi
      proof -
        have pi: "pi < length (partitions ?x)" "pi < length (partitions w1)" using that pc(1) by (simp_all add: set_exit_cb_def)
        have "part_exit_cb (partitions w2 ! pi) = part_exit_cb (partitions ?x ! pi)" by (rule part_conf_dest(2)[OF pc(2)[OF pi(1)]])
        moreover have "part_completed_cb (partitions w2 ! pi) = part_completed_cb (partitions ?x ! pi)"
          using arg_cong[OF cb2, of "\<lambda>xs. xs ! pi"] that pi(1) by simp
        ultimately show ?thesis using r pi(2) by (simp add: set_exit_cb_def set_process_exit_cb_def)
      qed
      then show ?thesis by (auto simp: cbs_are_def in_set_conv_nth)
    qed
    ultimately show ?thesis using False c2 i2 f2 by (simp add: phase_init_def)
  qed
qed

text \<open>A process that ends its initialisation while the freezer lets it run.\<close>

lemma process_init_completion_spec:
  assumes run: "process_init_completion_cb init_cb pi qi w = Inr w'" and calm: "calm w" and inv: "init_inv w"
    and pq: "(pi, qi) \<in> running w"
  shows "if running w = {(pi, qi)} then \<exists>u. init_cb u = Inr w' \<and> phase_ready u \<and> init_frame w u
    else init_inv w' \<and> running w' = running w - {(pi, qi)} \<and> mgr_frame w w' \<and>
      map part_completed_cb (partitions w') = map part_completed_cb (partitions w)"
proof -
  from run obtain w1 where w1: "on_part pi (on_proc qi suspend) w = Inr w1" and
    fin: "(let u = w1\<lparr>remaining_process_inits := remaining_process_inits w1 - 1\<rparr> in
      if remaining_process_inits u = 0 then finish_process_init init_cb u else Inr u) = Inr w'"
    by (auto simp: process_init_completion_cb_def bindE_Inr_iff)
  from w1 obtain q s where p: "(pi, qi) \<in> procs w" and q: "suspend (proc_at w (pi, qi)) (st_os w) = Inr (q, s)"
    and eq: "w1 = (upd_part pi (upd_proc qi (\<lambda>_. q)) w)\<lparr>st_os := s\<rparr>" by (rule on_part_proc)
  have q': "q = (proc_at w (pi, qi))\<lparr>proc_cgf := (proc_cgf (proc_at w (pi, qi)))\<lparr>frozen := True\<rparr>\<rparr>" and ext: "os_extends (st_os w) s"
    using q by (auto simp: suspend_Inr dest: CHECK_extends)
  let ?u = "w1\<lparr>remaining_process_inits := remaining_process_inits w1 - 1\<rparr>"
  have parts: "partitions ?u = (partitions w)[pi := upd_proc qi (\<lambda>_. q) (partitions w ! pi)]" by (simp add: eq upd_part_def)
  note u = upd_at[OF p parts]
  have conf: "map part_conf (partitions ?u) = map part_conf (partitions w)" by (rule u(3)) (simp add: q')
  have fr: "mgr_frame w ?u" using conf ext unfolding mgr_frame_def
    by (intro exI[of _ "partitions ?u"] exI[of _ s] exI[of _ "remaining_process_inits w - 1"]) (auto simp: eq upd_part_def)
  have rn: "running ?u = running w - {(pi, qi)}" using u(1) by (simp add: q')
  have "\<forall>p \<in> set (partitions ?u). part_ok p" by (rule u(4)) (use inv in \<open>auto simp: init_inv_def q'\<close>)
  moreover have rem: "remaining_process_inits ?u = int (card (running w - {(pi, qi)}))"
  proof -
    have "0 < card (running w)" using pq by (auto simp: card_gt_0_iff)
    then show ?thesis using inv pq by (simp add: init_inv_def eq upd_part_def of_nat_diff)
  qed
  moreover have "inits ?u = inits w" by (rule procs_conf(3)[OF conf])
  ultimately have iu: "init_inv ?u" using inv rn by (auto simp: init_inv_def)
  show ?thesis
  proof (cases "running w = {(pi, qi)}")
    case True
    then have "remaining_process_inits ?u = 0" using rem by simp
    with fin have "finish_process_init init_cb ?u = Inr w'" by (simp add: Let_def)
    with finish_process_init_eq[OF calm_frame[OF mgr_frame_init[OF fr] calm] iu, of init_cb] rn True mgr_frame_init[OF fr]
    show ?thesis by (auto intro: init_frame_trans)
  next
    case False
    then have "running w - {(pi, qi)} \<noteq> {}" using pq by auto
    then have "card (running w - {(pi, qi)}) \<noteq> 0" using finite_running[of w] by (simp del: finite_running)
    then have "remaining_process_inits ?u \<noteq> 0" unfolding rem by simp
    with fin have "w' = ?u" by (simp add: Let_def)
    with False iu rn fr u(2) show ?thesis by simp
  qed
qed

end
