(* ===== verification/Demos_Scheduler.thy ===== *)
theory Demos_Scheduler
  imports Partition_Manager
begin

text \<open>
  The scheduler (\<open>src/src/demos_scheduler.hpp\<close>) and the event loop. The record \<open>scheduler\<close> adds the
  members of the class to the store; \<open>loop_stopped\<close> says that \<open>break_loop\<close> was called. An event is
  the callback of one libev watcher, and \<open>sched_step\<close> executes everything the program does in
  response to it, through the callbacks stored in timers, processes and partitions.
\<close>

record scheduler = manager +
  sched_timeout :: "milliseconds option"
  timeout_timer :: timerfd
  loop_stopped :: bool

text \<open>The constructors of \<open>MajorFrame\<close>, \<open>PartitionManager\<close> and \<open>DemosScheduler\<close>.\<close>

definition scheduler_new ::
  "partition list \<Rightarrow> window list \<Rightarrow> string \<Rightarrow> string \<Rightarrow> power_policy \<Rightarrow> os \<Rightarrow> scheduler result" where
  "scheduler_new parts wins window_msg mf_msg pp s =
     bindE (timerfd_new s) (\<lambda>(mf_tm, s).
     bindE (timerfd_new s) (\<lambda>(tm, s).
     Inr (set_exit_cb Exit_process
       \<lparr>partitions = parts, windows = wins, st_policy = pp, st_os = s, start_time = 0,
        current_win = 0, mf_timer = mf_tm, mf_timeout = time_point_min, window_sync_message = window_msg,
        mf_sync_message = mf_msg, remaining_process_inits = 0, sched_timeout = None,
        timeout_timer = tm, loop_stopped = False\<rparr>)))"

definition sched_setup :: "scheduler \<Rightarrow> scheduler result" where
  "sched_setup w = pm_create_processes w"

definition now :: "'a store_scheme \<Rightarrow> time_point \<times> 'a store_scheme" where
  "now w = (case steady_now (st_os w) of (t, s) \<Rightarrow> (t, w\<lparr>st_os := s\<rparr>))"

definition initiate_shutdown :: "scheduler \<Rightarrow> scheduler result" where
  "initiate_shutdown w =
     (case now w of (t, w) \<Rightarrow> bindE (mf_stop t w) pm_kill_all)"

definition start_scheduler :: "scheduler \<Rightarrow> scheduler result" where
  "start_scheduler w =
     (if sched_timeout w = Some 0 then initiate_shutdown w
      else case now w of (t, w) \<Rightarrow>
        bindE (mf_start t (w\<lparr>start_time := t\<rparr>)) (\<lambda>w.
        case sched_timeout w of
          None \<Rightarrow> Inr w
        | Some timeout \<Rightarrow>
            bindE (timer_start (t + ns_of_ms timeout) (timeout_timer w) (st_os w)) (\<lambda>(tm, s).
            Inr (w\<lparr>timeout_timer := tm, st_os := s, sched_timeout := None\<rparr>))))"

definition startup_fn :: "scheduler \<Rightarrow> scheduler result" where
  "startup_fn w = run_process_init start_scheduler w"

definition sched_completion_cb :: "scheduler \<Rightarrow> scheduler result" where
  "sched_completion_cb w =
     (case now w of (t, w) \<Rightarrow> bindE (mf_stop t w) (\<lambda>w. Inr (w\<lparr>loop_stopped := True\<rparr>)))"

definition signal_cb :: "scheduler \<Rightarrow> scheduler result" where
  "signal_cb w = initiate_shutdown w"

definition timeout_cb :: "scheduler \<Rightarrow> scheduler result" where
  "timeout_cb w = initiate_shutdown w"

text \<open>\<open>run(timeout)\<close> stores the timeout; \<open>run()\<close> schedules \<open>startup_fn\<close> as the first event.\<close>

definition set_timeout :: "milliseconds option \<Rightarrow> scheduler \<Rightarrow> scheduler" where
  "set_timeout t w = w\<lparr>sched_timeout := t\<rparr>"

subsection \<open>The event loop\<close>

datatype sched_event =
    Startup
  | Window_timer
  | Slice_timer nat nat
  | Completed nat nat
  | Child_terminated nat nat
  | Cgroup_event nat nat
  | Signal
  | Timeout_timer

text \<open>A slice has its \<open>schedule_next\<close> called with the current time when a process completes.\<close>

definition slice_completion_cb :: "nat \<Rightarrow> nat \<Rightarrow> scheduler \<Rightarrow> scheduler result" where
  "slice_completion_cb wi si w = (case now w of (t, w) \<Rightarrow> slice_schedule_next (sc_done wi) wi si t w)"

text \<open>\<open>Partition::completed_cb\<close>, and \<open>Process::completed_cb\<close> as the watcher of the descriptor calls it.\<close>

definition call_completed_cb :: "nat \<Rightarrow> nat \<Rightarrow> scheduler \<Rightarrow> scheduler result" where
  "call_completed_cb pi qi w =
     (case part_completed_cb (partitions w ! pi) of
        Cb_null \<Rightarrow> Inl (Runtime_error ''bad_function_call'')
      | Cb_disconnected \<Rightarrow> Inr w
      | Cb_slice wi si \<Rightarrow> slice_completion_cb wi si w
      | Cb_init \<Rightarrow> process_init_completion_cb start_scheduler pi qi w)"

definition completed_event :: "nat \<Rightarrow> nat \<Rightarrow> scheduler \<Rightarrow> scheduler result" where
  "completed_event pi qi w =
     bindE (on_part pi (on_proc qi (\<lambda>q s. bindE (evfd_ev_callback s) (\<lambda>s. Inr (proc_completed_cb q, s)))) w)
       (call_completed_cb pi qi)"

text \<open>A callback of a process that may report its end to the partition (\<open>Process::handle_end\<close>).\<close>

definition end_event ::
  "(process \<Rightarrow> os \<Rightarrow> (bool \<times> process \<times> os) result) \<Rightarrow> nat \<Rightarrow> nat \<Rightarrow> scheduler \<Rightarrow> scheduler result" where
  "end_event cb pi qi w =
     (if pi < length (partitions w) \<and> qi < length (processes (partitions w ! pi))
      then bindE (cb (processes (partitions w ! pi) ! qi) (st_os w)) (\<lambda>(ended, q, s).
        let w = (upd_part pi (upd_proc qi (\<lambda>_. q)) w)\<lparr>st_os := s\<rparr> in
        if ended then proc_exit start_scheduler sched_completion_cb pi qi w else Inr w)
      else Inl (Undefined_behaviour ''dangling pointer''))"

definition window_timer_event :: "scheduler \<Rightarrow> scheduler result" where
  "window_timer_event w =
     bindE (timer_ev_callback (mf_timer w) (st_os w)) (\<lambda>(tm, s).
     mf_timeout_cb (w\<lparr>mf_timer := tm, st_os := s\<rparr>))"

definition slice_timer_event :: "nat \<Rightarrow> nat \<Rightarrow> scheduler \<Rightarrow> scheduler result" where
  "slice_timer_event wi si w =
     (if valid_slice wi si w
      then bindE (timer_ev_callback (sl_timer (the_slice wi si w)) (st_os w)) (\<lambda>(tm, s).
        let w = (upd_slice wi si (\<lambda>sl. sl\<lparr>sl_timer := tm\<rparr>) w)\<lparr>st_os := s\<rparr> in
        slice_schedule_next (sc_done wi) wi si (sl_timeout (the_slice wi si w)) w)
      else Inl (Undefined_behaviour ''dangling pointer''))"

definition timeout_timer_event :: "scheduler \<Rightarrow> scheduler result" where
  "timeout_timer_event w =
     bindE (timer_ev_callback (timeout_timer w) (st_os w)) (\<lambda>(tm, s).
     timeout_cb (w\<lparr>timeout_timer := tm, st_os := s\<rparr>))"

fun sched_step :: "sched_event \<Rightarrow> scheduler \<Rightarrow> scheduler result" where
  "sched_step Startup w = startup_fn w"
| "sched_step Window_timer w = window_timer_event w"
| "sched_step (Slice_timer wi si) w = slice_timer_event wi si w"
| "sched_step (Completed pi qi) w = completed_event pi qi w"
| "sched_step (Child_terminated pi qi) w = end_event child_terminated_cb pi qi w"
| "sched_step (Cgroup_event pi qi) w = end_event cgroup_event_cb pi qi w"
| "sched_step Signal w = signal_cb w"
| "sched_step Timeout_timer w = timeout_timer_event w"

text \<open>
  The watcher of an event is started: a stopped timer does not fire, a process is waited for until
  it has terminated.
\<close>

fun watched :: "sched_event \<Rightarrow> scheduler \<Rightarrow> bool" where
  "watched Startup w = True"
| "watched Window_timer w = tfd_active (mf_timer w)"
| "watched (Slice_timer wi si) w = (valid_slice wi si w \<and> tfd_active (sl_timer (the_slice wi si w)))"
| "watched (Completed pi qi) w = (pi < length (partitions w) \<and> qi < length (processes (partitions w ! pi)))"
| "watched (Child_terminated pi qi) w = (pi < length (partitions w) \<and> qi < length (processes (partitions w ! pi)) \<and>
     child_active (processes (partitions w ! pi) ! qi))"
| "watched (Cgroup_event pi qi) w = (pi < length (partitions w) \<and> qi < length (processes (partitions w ! pi)))"
| "watched Signal w = True"
| "watched Timeout_timer w = tfd_active (timeout_timer w)"

subsection \<open>The phases of the scheduler\<close>

definition exits_are :: "exit_cb \<Rightarrow> 'a store_scheme \<Rightarrow> bool" where
  "exits_are ex w \<longleftrightarrow> (\<forall>p \<in> set (partitions w). part_exit_cb p = ex)"

definition phase_boot :: "scheduler \<Rightarrow> bool" where
  "phase_boot w \<longleftrightarrow> calm w \<and> init_inv w \<and> running w = {} \<and> \<not> tfd_active (timeout_timer w)"

definition phase_running :: "'a frame_scheme \<Rightarrow> bool" where
  "phase_running w \<longleftrightarrow> frame_running w \<and> exits_are Exit_process w"

definition phase_shutdown :: "'a frame_scheme \<Rightarrow> bool" where
  "phase_shutdown w \<longleftrightarrow> frame_quiet w \<and> \<not> tfd_active (mf_timer w) \<and> exits_are Exit_process w"

text \<open>What the scheduler keeps while it starts, stops and kills: the life of the processes.\<close>

definition sched_frame :: "scheduler \<Rightarrow> scheduler \<Rightarrow> bool" where
  "sched_frame w w' \<longleftrightarrow> life w' = life w \<and> loop_stopped w' = loop_stopped w \<and> os_extends (st_os w) (st_os w')"

lemma sched_frame_refl [simp]: "sched_frame w w"
  by (simp add: sched_frame_def)

lemma sched_frame_trans [trans]: "sched_frame w w' \<Longrightarrow> sched_frame w' w'' \<Longrightarrow> sched_frame w w''"
  by (auto simp: sched_frame_def elim: os_extends_trans)

lemma life_shape: "shape w' = shape w \<Longrightarrow> life w' = life w"
  by (rule life_conf) (simp add: shape_def)

lemma exits_shape: "shape w' = shape w \<Longrightarrow> exits_are ex w' = exits_are ex w"
proof -
  assume "shape w' = shape w"
  then have "map (\<lambda>x. fst (snd x)) (map part_conf (partitions w')) = map (\<lambda>x. fst (snd x)) (map part_conf (partitions w))"
    by (simp add: shape_def)
  then have "map part_exit_cb (partitions w') = map part_exit_cb (partitions w)" by (simp add: comp_def part_conf_def)
  then show ?thesis unfolding exits_are_def by (metis (mono_tags, lifting) image_iff set_map)
qed

lemma sched_more:
  assumes "frame.more w' = frame.more (w :: scheduler)"
  shows "remaining_process_inits w' = remaining_process_inits w" "sched_timeout w' = sched_timeout w"
    "timeout_timer w' = timeout_timer w" "loop_stopped w' = loop_stopped w"
  using assms by (cases w; cases w'; simp)+

lemma now_Inr: "now w = (t, w1) \<Longrightarrow> \<exists>s. w1 = w\<lparr>st_os := s\<rparr> \<and> os_extends (st_os w) s"
  by (auto simp: now_def dest: steady_now_extends split: prod.splits)

lemma st_os_frame:
  "frame_quiet (w\<lparr>st_os := s\<rparr>) = frame_quiet (w :: 'a frame_scheme)" "frame_active (w\<lparr>st_os := s\<rparr>) = frame_active w"
  "frame_stopped (w\<lparr>st_os := s\<rparr>) = frame_stopped w" "frame_running (w\<lparr>st_os := s\<rparr>) = frame_running w"
  "shape (w\<lparr>st_os := s\<rparr>) = shape w"
proof -
  have 1: "sched_inv wi k d (w\<lparr>st_os := s\<rparr>) = sched_inv wi k d w" for wi k d by (rule inv_cong(2)) simp_all
  have 2: "resting wi (w\<lparr>st_os := s\<rparr>) = resting wi w" "window_wf wi (w\<lparr>st_os := s\<rparr>) = window_wf wi w" for wi
    by (simp_all add: resting_def window_wf_def valid_slice_def the_slice_def)
  show "frame_quiet (w\<lparr>st_os := s\<rparr>) = frame_quiet w" "frame_active (w\<lparr>st_os := s\<rparr>) = frame_active w"
    "frame_stopped (w\<lparr>st_os := s\<rparr>) = frame_stopped w" "frame_running (w\<lparr>st_os := s\<rparr>) = frame_running w"
    "shape (w\<lparr>st_os := s\<rparr>) = shape w"
    by (simp_all add: frame_quiet_def frame_active_def frame_stopped_def frame_running_def frame_wf_def window_running_def 1 2 shape_def)
qed

text \<open>Stopping the frame, whether it runs or not.\<close>

lemma mf_stop_shutdown:
  assumes run: "mf_stop t w = Inr w'" and ph: "phase_running w \<or> phase_shutdown w"
  shows "phase_shutdown w' \<and> life w' = life w \<and> os_extends (st_os w) (st_os w') \<and> frame.more w' = frame.more w \<and>
    (phase_running w \<longrightarrow> running w' = {})"
proof (cases "phase_running w")
  case True
  then have "frame_active w" by (simp add: phase_running_def frame_running_def)
  note st = mf_stop_active[OF run this]
  have sh: "shape w' = shape w" using st by blast
  show ?thesis using st True life_shape[OF sh] exits_shape[OF sh]
    by (auto simp: phase_shutdown_def phase_running_def frame_stopped_def running_def)
next
  case False
  with ph have q: "frame_quiet w" and ex: "exits_are Exit_process w" by (auto simp: phase_shutdown_def)
  let ?S = "window_parts (current_win w) w" and ?w = "w\<lparr>mf_timer := timer_stop (mf_timer w)\<rparr>"
  from run mf_stop_quiet[OF q, of t] have w': "w' = disconnect_parts ?S ?w" by simp
  have "frame_quiet ?w" using q
    by (simp add: frame_quiet_def frame_wf_def resting_def window_wf_def valid_slice_def the_slice_def)
  then have "frame_quiet w'" unfolding w' by (rule disconnect_quiet)
  moreover have "life w' = life w"
    by (auto simp: w' life_def disconnect_parts_def disconnect_def intro!: nth_equalityI)
  moreover have "exits_are Exit_process w'" using ex
    by (auto simp: exits_are_def w' disconnect_parts_def disconnect_def)
  ultimately show ?thesis using False by (simp add: phase_shutdown_def w' disconnect_parts_def)
qed

lemma life_killed: "life (w\<lparr>partitions := map killed_part (partitions w), st_os := s\<rparr>) = life w"
proof -
  have "map proc_conf (processes (killed_part p)) = map proc_conf (processes p)" for p
    using killed_part_simps(2)[of p] by (simp add: part_conf_def)
  then show ?thesis by (simp add: life_def)
qed

lemma killed_quiet:
  assumes "frame_quiet w"
  shows "frame_quiet (w\<lparr>partitions := map killed_part (partitions w), st_os := s\<rparr>)"
  using assms by (simp add: frame_quiet_def frame_wf_def resting_def window_wf_def valid_slice_def the_slice_def)

text \<open>After a shutdown was initiated the windows are stopped and every process that is left was killed.\<close>

definition shutdown_done :: "'a store_scheme \<Rightarrow> bool" where
  "shutdown_done w \<longleftrightarrow> (\<forall>pq \<in> procs w. is_spawned (proc_at w pq) \<longrightarrow>
     killed (proc_at w pq) \<and> \<not> frozen (proc_cgf (proc_at w pq)))"

lemma initiate_shutdown_spec:
  assumes run: "initiate_shutdown w = Inr w'" and ph: "phase_running w \<or> phase_shutdown w"
  shows "phase_shutdown w' \<and> sched_frame w w' \<and> shutdown_done w' \<and>
    sched_timeout w' = sched_timeout w \<and> timeout_timer w' = timeout_timer w"
proof -
  obtain t w1 where now: "now w = (t, w1)" by (cases "now w")
  with run obtain w2 where w2: "mf_stop t w1 = Inr w2" and kill: "pm_kill_all w2 = Inr w'"
    by (auto simp: initiate_shutdown_def bindE_Inr_iff)
  from now_Inr[OF now] obtain s where w1: "w1 = w\<lparr>st_os := s\<rparr>" and s: "os_extends (st_os w) s" by blast
  have ph1: "phase_running w1 \<or> phase_shutdown w1"
    using ph by (auto simp: w1 phase_running_def phase_shutdown_def st_os_frame exits_are_def)
  note st = mf_stop_shutdown[OF w2 ph1]
  have more: "frame.more w2 = frame.more w" using st by (simp add: w1)
  from pm_kill_all_Inr[OF kill] obtain u where
    w': "w' = w2\<lparr>partitions := map killed_part (partitions w2), st_os := u\<rparr>" and u: "os_extends (st_os w2) u" by blast
  have "shutdown_done w'"
    by (auto simp: shutdown_done_def procs_def proc_at_def w' killed_part_def killed_process_def split: if_splits)
  moreover have "phase_shutdown w'" using st killed_quiet by (auto simp: phase_shutdown_def exits_are_def w')
  moreover have "life w' = life w" using st life_killed[of u w2] by (simp add: w' w1 life_def)
  moreover have "os_extends (st_os w) (st_os w')" using st s u by (auto simp: w' w1 elim: os_extends_trans)
  ultimately show ?thesis using sched_more[OF more] by (simp add: sched_frame_def w')
qed

lemma completion_cb_spec:
  assumes run: "sched_completion_cb w = Inr w'" and ph: "phase_running w \<or> phase_shutdown w"
  shows "phase_shutdown w' \<and> life w' = life w \<and> loop_stopped w' \<and> os_extends (st_os w) (st_os w') \<and>
    sched_timeout w' = sched_timeout w \<and> timeout_timer w' = timeout_timer w"
proof -
  obtain t w1 where now: "now w = (t, w1)" by (cases "now w")
  with run obtain w2 where w2: "mf_stop t w1 = Inr w2" and w': "w' = w2\<lparr>loop_stopped := True\<rparr>"
    by (auto simp: sched_completion_cb_def bindE_Inr_iff)
  from now_Inr[OF now] obtain s where w1: "w1 = w\<lparr>st_os := s\<rparr>" and s: "os_extends (st_os w) s" by blast
  have ph1: "phase_running w1 \<or> phase_shutdown w1"
    using ph by (auto simp: w1 phase_running_def phase_shutdown_def st_os_frame exits_are_def)
  note st = mf_stop_shutdown[OF w2 ph1]
  have more: "frame.more w2 = frame.more w" using st by (simp add: w1)
  have "phase_shutdown w'" using st
    by (simp add: w' phase_shutdown_def frame_quiet_def frame_wf_def exits_are_def resting_def window_wf_def valid_slice_def the_slice_def)
  moreover have "life w' = life w" using st by (simp add: w' w1 life_def)
  moreover have "os_extends (st_os w) (st_os w')" using st s by (auto simp: w' w1 elim: os_extends_trans)
  ultimately show ?thesis using sched_more[OF more] by (simp add: w')
qed

lemma start_scheduler_spec:
  assumes run: "start_scheduler w = Inr w'" and rd: "phase_ready w"
  shows "sched_frame w w' \<and> (if sched_timeout w = Some 0 then phase_shutdown w' \<and> shutdown_done w' else phase_running w')"
proof (cases "sched_timeout w = Some 0")
  case True
  have "phase_shutdown w" using rd phase_ready_stopped[OF rd]
    by (simp add: phase_shutdown_def frame_stopped_def phase_ready_def calm_def cbs_are_def exits_are_def)
  then show ?thesis using initiate_shutdown_spec[of w w'] run True by (simp add: start_scheduler_def)
next
  case False
  obtain t w1 where now: "now w = (t, w1)" by (cases "now w")
  let ?u = "w1\<lparr>start_time := t\<rparr>"
  from run now False obtain w2 where w2: "mf_start t ?u = Inr w2" and
    fin: "(case sched_timeout w2 of None \<Rightarrow> Inr w2 | Some timeout \<Rightarrow>
      bindE (timer_start (t + ns_of_ms timeout) (timeout_timer w2) (st_os w2)) (\<lambda>(tm, s).
        Inr (w2\<lparr>timeout_timer := tm, st_os := s, sched_timeout := None\<rparr>))) = Inr w'"
    by (auto simp: start_scheduler_def bindE_Inr_iff)
  from now_Inr[OF now] obtain s where w1: "w1 = w\<lparr>st_os := s\<rparr>" and s: "os_extends (st_os w) s" by blast
  have "frame_stopped ?u" using phase_ready_stopped[OF rd]
    by (simp add: w1 frame_stopped_def frame_quiet_def frame_wf_def resting_def window_wf_def valid_slice_def the_slice_def)
  note st = mf_start_inv[OF w2 this]
  have sh: "shape w2 = shape ?u" and more: "frame.more w2 = frame.more w" using st by (simp_all add: w1)
  have ex: "exits_are Exit_process w2" unfolding exits_shape[OF sh]
    using rd by (simp add: w1 exits_are_def phase_ready_def cbs_are_def)
  have life: "life w2 = life w" using life_shape[OF sh] by (simp add: w1 life_def)
  have ext: "os_extends (st_os w) (st_os w2)" using st s by (auto simp: w1 elim: os_extends_trans)
  have "frame_running w2" using st by blast
  obtain tm u v where w': "w' = w2\<lparr>timeout_timer := tm, st_os := u, sched_timeout := v\<rparr>" and u: "os_extends (st_os w2) u"
  proof (cases "sched_timeout w2")
    case None
    with fin show ?thesis by (intro that[of None "st_os w2" "timeout_timer w2"]) simp_all
  next
    case (Some to)
    with fin show ?thesis by (auto simp: bindE_Inr_iff intro: that timer_start_extends)
  qed
  have "frame_running w'" using \<open>frame_running w2\<close> by (rule frame_cong(4)[rotated 4]) (use ex \<open>frame_running w2\<close> in \<open>simp_all add: w' frame_running_def frame_active_def frame_wf_def\<close>)
  moreover have "exits_are Exit_process w'" using ex by (simp add: w' exits_are_def)
  ultimately have "phase_running w'" by (simp add: phase_running_def)
  moreover have "sched_frame w w'" using life ext u sched_more[OF more] os_extends_trans[OF ext u]
    by (simp add: sched_frame_def w' life_def)
  ultimately show ?thesis using False by simp
qed

subsection \<open>The events of a running scheduler\<close>

lemma schedule_next_stopped_timer:
  "schedule_next t0 pi t (sl\<lparr>sl_timer := timer_stop (sl_timer sl)\<rparr>, p, pp, s) = schedule_next t0 pi t (sl, p, pp, s)"
  by (simp add: schedule_next_def stop_current_process_def Let_def cong: option.case_cong)

lemma upd_slice_twice: "upd_slice wi si (\<lambda>_. sl) (upd_slice wi si f w) = upd_slice wi si (\<lambda>_. sl) w"
  by (cases "wi < length (windows w)") (simp_all add: upd_slice_def upd_window_def list_update_beyond)

lemma put_ctx_upd_slice:
  "put_ctx wi si pi c ((upd_slice wi si f w)\<lparr>st_os := s\<rparr>) = put_ctx wi si pi c (w\<lparr>st_os := s\<rparr>)"
proof -
  obtain sl p pp s' where c: "c = (sl, p, pp, s')" by (cases c)
  have "put_ctx wi si pi c ((upd_slice wi si f w)\<lparr>st_os := s\<rparr>) =
      (upd_slice wi si (\<lambda>_. sl) (upd_slice wi si f (upd_part pi (\<lambda>_. p) w)))\<lparr>st_policy := pp, st_os := s'\<rparr>"
    by (simp add: c put_ctx_def upd_slice_def upd_window_def upd_part_def)
  also have "\<dots> = put_ctx wi si pi c (w\<lparr>st_os := s\<rparr>)"
    by (simp only: upd_slice_twice) (simp add: c put_ctx_def upd_slice_def upd_window_def upd_part_def)
  finally show ?thesis .
qed

text \<open>The watcher of a slice's timer is stopped before \<open>schedule_next\<close> stops it again.\<close>

lemma slice_timer_event_eq:
  assumes "slice_timer_event wi si w = Inr w'"
  shows "valid_slice wi si w \<and> (\<exists>s. os_extends (st_os w) s \<and>
    slice_schedule_next (sc_done wi) wi si (sl_timeout (the_slice wi si w)) (w\<lparr>st_os := s\<rparr>) = Inr w')"
proof -
  let ?f = "\<lambda>sl. sl\<lparr>sl_timer := timer_stop (sl_timer sl)\<rparr>" and ?sl = "the_slice wi si w"
  from assms obtain s where v: "valid_slice wi si w" and s: "CHECK Fd_read (st_os w) = Inr s" and
    run: "slice_schedule_next (sc_done wi) wi si (sl_timeout (the_slice wi si ((upd_slice wi si (\<lambda>sl. sl\<lparr>sl_timer := timer_stop (sl_timer ?sl)\<rparr>) w)\<lparr>st_os := s\<rparr>)))
      ((upd_slice wi si (\<lambda>sl. sl\<lparr>sl_timer := timer_stop (sl_timer ?sl)\<rparr>) w)\<lparr>st_os := s\<rparr>) = Inr w'"
    by (auto simp: slice_timer_event_def timer_ev_callback_def bindE_Inr_iff Let_def split: if_splits)
  let ?u = "(upd_slice wi si (\<lambda>sl. sl\<lparr>sl_timer := timer_stop (sl_timer ?sl)\<rparr>) w)\<lparr>st_os := s\<rparr>"
  have sl: "the_slice wi si ?u = ?f ?sl" using the_slice_upd_slice[OF v] by (simp add: the_slice_def)
  have "get_ctx wi si pi ?u = (?f ?sl, partitions w ! pi, st_policy w, s)" for pi by (simp add: get_ctx_def sl)
  moreover have "get_ctx wi si pi (w\<lparr>st_os := s\<rparr>) = (?sl, partitions w ! pi, st_policy w, s)" for pi
    by (simp add: get_ctx_def the_slice_def)
  moreover have "valid_slice wi si ?u" "valid_slice wi si (w\<lparr>st_os := s\<rparr>)"
    using v by (auto simp: valid_slice_def windows_upd_slice)
  ultimately have on: "on_slice wi si pi (schedule_next t0 pi t) ?u = on_slice wi si pi (schedule_next t0 pi t) (w\<lparr>st_os := s\<rparr>)"
    for pi t0 t by (simp add: on_slice_def schedule_next_stopped_timer put_ctx_upd_slice)
  have "slice_schedule_next (sc_done wi) wi si (sl_timeout ?sl) ?u =
      slice_schedule_next (sc_done wi) wi si (sl_timeout ?sl) (w\<lparr>st_os := s\<rparr>)"
    unfolding slice_schedule_next_def on by (simp add: sl) (simp add: the_slice_def cong: option.case_cong)
  with run v CHECK_extends[OF s, simplified] show ?thesis by (auto simp: sl)
qed

lemma serve_slice:
  assumes run: "slice_schedule_next (sc_done wi) wi si t (w\<lparr>st_os := s\<rparr>) = Inr w'" and ph: "phase_running w"
    and wi: "wi = current_win w" and s: "os_extends (st_os w) s"
  shows "phase_running w' \<and> sched_frame w w'"
proof -
  have "frame_running (w\<lparr>st_os := s\<rparr>)" using ph by (simp add: st_os_frame phase_running_def)
  from slice_served_inv[OF _ this, of si t w'] run wi have
    st: "frame_running w'" "shape w' = shape w" "store.more w' = store.more w" "os_extends s (st_os w')"
    by (auto simp: st_os_frame)
  have "frame.more w' = frame.more w" using more_frame(6)[of w' w] st(3) by simp
  from sched_more(4)[OF this] st exits_shape[OF st(2)] life_shape[OF st(2)] ph s show ?thesis
    by (auto simp: phase_running_def sched_frame_def elim: os_extends_trans)
qed

lemma running_slice_timer:
  assumes "slice_timer_event wi si w = Inr w'" and "phase_running w" and "tfd_active (sl_timer (the_slice wi si w))"
  shows "phase_running w' \<and> sched_frame w w'"
proof -
  from slice_timer_event_eq[OF assms(1)] obtain s where v: "valid_slice wi si w" and s: "os_extends (st_os w) s"
    and run: "slice_schedule_next (sc_done wi) wi si (sl_timeout (the_slice wi si w)) (w\<lparr>st_os := s\<rparr>) = Inr w'" by blast
  have "wi = current_win w"
    using assms(2,3) v by (auto simp: phase_running_def frame_running_def frame_active_def resting_def valid_slice_def)
  from serve_slice[OF run assms(2) this s] show ?thesis .
qed

lemma running_window_timer:
  assumes run: "window_timer_event w = Inr w'" and ph: "phase_running w"
  shows "phase_running w' \<and> sched_frame w w' \<and> current_win w' = Suc (current_win w) mod length (windows w)"
proof -
  from run obtain s where s: "CHECK Fd_read (st_os w) = Inr s" and
    go: "mf_timeout_cb (w\<lparr>mf_timer := timer_stop (mf_timer w), st_os := s\<rparr>) = Inr w'"
    by (auto simp: window_timer_event_def timer_ev_callback_def bindE_Inr_iff)
  let ?u = "w\<lparr>mf_timer := timer_stop (mf_timer w), st_os := s\<rparr>"
  have act: "frame_active ?u"
    by (rule frame_cong(3)[where w = w]) (use ph in \<open>auto simp: phase_running_def frame_running_def frame_active_def frame_wf_def\<close>)
  have st: "frame_running w'" "shape w' = shape ?u" "os_extends s (st_os w')" "frame.more w' = frame.more w"
    "current_win w' = Suc (current_win w) mod length (windows w)"
    using mf_timeout_cb_inv[OF go act] by auto
  have sh: "shape w' = shape w" using st(2) by (simp add: shape_def)
  show ?thesis
    using st ph exits_shape[OF sh] life_shape[OF sh] sched_more(4)[OF st(4)] os_extends_trans[OF CHECK_extends[OF s, simplified] st(3)]
    by (auto simp: phase_running_def sched_frame_def)
qed

subsection \<open>The life of the processes\<close>

text \<open>
  \<open>counted\<close>: the flag \<open>empty\<close> of every partition says that none of its processes is left; \<open>all_ended\<close>:
  all partitions are empty. The loop is stopped exactly then.
\<close>

definition counted :: "'a store_scheme \<Rightarrow> bool" where
  "counted w \<longleftrightarrow> (\<forall>p \<in> set (partitions w). part_empty p = (\<forall>q \<in> set (processes p). \<not> is_spawned q))"

definition all_ended :: "'a store_scheme \<Rightarrow> bool" where
  "all_ended w \<longleftrightarrow> (\<forall>p \<in> set (partitions w). part_empty p)"

definition loop_ok :: "scheduler \<Rightarrow> bool" where
  "loop_ok w \<longleftrightarrow> life w \<noteq> [] \<and> counted w \<and> (loop_stopped w \<longleftrightarrow> all_ended w)"

lemma counted_life: "counted w = (\<forall>(qs, e) \<in> set (life w). e = (\<forall>q \<in> set qs. \<not> fst (snd (snd (snd q)))))"
  by (simp add: counted_def life_def proc_conf_def is_spawned_def)

lemma all_ended_life: "all_ended w = (\<forall>(qs, e) \<in> set (life w). e)"
  by (simp add: all_ended_def life_def)

lemma loop_ok_frame: "sched_frame w w' \<Longrightarrow> loop_ok w' = loop_ok w"
  by (simp add: loop_ok_def counted_life all_ended_life sched_frame_def)

lemma all_ended_iff: "counted w \<Longrightarrow> all_ended w = (\<forall>pq \<in> procs w. \<not> is_spawned (proc_at w pq))"
  by (fastforce simp: all_ended_def counted_def procs_def proc_at_def in_set_conv_nth)

text \<open>The two callbacks that may report the end of a process.\<close>

definition end_cb :: "(process \<Rightarrow> os \<Rightarrow> (bool \<times> process \<times> os) result) \<Rightarrow> process \<Rightarrow> bool" where
  "end_cb cb q \<longleftrightarrow> cb = cgroup_event_cb \<or> cb = child_terminated_cb \<and> child_active q"

lemma end_cb_Inr:
  assumes "cb q s = Inr (ended, q', t)" and "end_cb cb q"
  shows "proc_cgf q' = proc_cgf q \<and> (proc_ok q \<longrightarrow> proc_ok q') \<and> os_extends s t \<and>
    (is_spawned q' \<longleftrightarrow> is_spawned q \<and> \<not> ended) \<and> has_initialization q' = has_initialization q \<and>
    (proc_ok q \<and> ended \<longrightarrow> is_spawned q)"
  using assms
  by (auto simp: end_cb_def child_terminated_cb_def cgroup_event_cb_def populated_cb_def handle_end_def proc_ok_def
      is_spawned_def bindE_Inr_iff Let_def split: if_splits prod.splits dest!: read_populated_status_extends)

text \<open>The store after the local part of such a callback and the update of the partition.\<close>

definition after_end :: "nat \<Rightarrow> nat \<Rightarrow> bool \<Rightarrow> process \<Rightarrow> os \<Rightarrow> scheduler \<Rightarrow> scheduler" where
  "after_end pi qi ended q s w =
     upd_part pi (if ended then part_proc_exit else id) ((upd_part pi (upd_proc qi (\<lambda>_. q)) w)\<lparr>st_os := s\<rparr>)"

lemma after_end_nth:
  assumes "(pi, qi) \<in> procs w" and "pj < length (partitions w)"
  shows "partitions (after_end pi qi ended q s w) ! pj = (if pj = pi
    then (if ended then part_proc_exit else id) (upd_proc qi (\<lambda>_. q) (partitions w ! pi)) else partitions w ! pj)"
  using assms by (auto simp: after_end_def upd_part_def)

lemma after_end_simps [simp]:
  "windows (after_end pi qi ended q s w) = windows w" "st_os (after_end pi qi ended q s w) = s"
  "length (partitions (after_end pi qi ended q s w)) = length (partitions w)"
  "frame.more (after_end pi qi ended q s w) = frame.more w" "current_win (after_end pi qi ended q s w) = current_win w"
  "mf_timer (after_end pi qi ended q s w) = mf_timer w" "mf_timeout (after_end pi qi ended q s w) = mf_timeout w"
  "(life (after_end pi qi ended q s w) = []) = (life w = [])"
  by (simp_all add: after_end_def upd_part_def life_def)

lemma part_proc_exit_simps [simp]:
  "processes (part_proc_exit p) = processes p" "thawed (part_proc_exit p) = thawed p"
  "part_completed_cb (part_proc_exit p) = part_completed_cb p" "part_exit_cb (part_proc_exit p) = part_exit_cb p"
  "current_proc (part_proc_exit p) = current_proc p"
  "part_empty (part_proc_exit p) = (\<forall>q \<in> set (processes p). \<not> is_spawned q)"
  by (simp_all add: part_proc_exit_def thawed_def)

lemma after_end_parts:
  assumes pq: "(pi, qi) \<in> procs w" and run: "cb (proc_at w (pi, qi)) (st_os w) = Inr (ended, q, s)"
    and cb: "end_cb cb (proc_at w (pi, qi))" and ok: "\<forall>p \<in> set (partitions w). part_ok p" and pj: "pj < length (partitions w)"
  shows "part_ok (partitions (after_end pi qi ended q s w) ! pj)"
    "thawed (partitions (after_end pi qi ended q s w) ! pj) = thawed (partitions w ! pj)"
    "part_completed_cb (partitions (after_end pi qi ended q s w) ! pj) = part_completed_cb (partitions w ! pj)"
    "part_exit_cb (partitions (after_end pi qi ended q s w) ! pj) = part_exit_cb (partitions w ! pj)"
proof -
  note q = end_cb_Inr[OF run cb]
  have lt: "pi < length (partitions w)" "qi < length (processes (partitions w ! pi))" using pq by (auto simp: procs_def)
  have up: "part_ok (upd_proc qi (\<lambda>_. q) (partitions w ! pi))"
    by (rule part_ok_upd_proc) (use ok lt q in \<open>auto simp: proc_at_def\<close>)
  have th: "thawed (upd_proc qi (\<lambda>_. q) (partitions w ! pi)) = thawed (partitions w ! pi)"
    using lt q by (auto simp: thawed_upd_proc) (auto simp: thawed_def proc_at_def)
  have "part_ok (part_proc_exit p)" if "part_ok p" for p using that by (auto simp: part_ok_def)
  with up ok pj show "part_ok (partitions (after_end pi qi ended q s w) ! pj)" by (simp add: after_end_nth[OF pq pj])
  show "thawed (partitions (after_end pi qi ended q s w) ! pj) = thawed (partitions w ! pj)"
    using th by (simp add: after_end_nth[OF pq pj])
  show "part_completed_cb (partitions (after_end pi qi ended q s w) ! pj) = part_completed_cb (partitions w ! pj)"
    "part_exit_cb (partitions (after_end pi qi ended q s w) ! pj) = part_exit_cb (partitions w ! pj)"
    by (simp_all add: after_end_nth[OF pq pj])
qed

lemma after_end_counted:
  assumes pq: "(pi, qi) \<in> procs w" and run: "cb (proc_at w (pi, qi)) (st_os w) = Inr (ended, q, s)"
    and cb: "end_cb cb (proc_at w (pi, qi))" and c: "counted w"
  shows "counted (after_end pi qi ended q s w)" "\<not> ended \<Longrightarrow> all_ended (after_end pi qi ended q s w) = all_ended w"
proof -
  let ?w = "after_end pi qi ended q s w"
  note q = end_cb_Inr[OF run cb]
  have lt: "pi < length (partitions w)" "qi < length (processes (partitions w ! pi))" using pq by (auto simp: procs_def)
  have sp: "(\<forall>x \<in> set (processes (upd_proc qi (\<lambda>_. q) (partitions w ! pi))). \<not> is_spawned x) =
      (\<forall>x \<in> set (processes (partitions w ! pi)). \<not> is_spawned x)" if "\<not> ended"
  proof -
    have "is_spawned ((processes (partitions w ! pi))[qi := q] ! j) = is_spawned (processes (partitions w ! pi) ! j)"
      if "j < length (processes (partitions w ! pi))" for j
      using that q \<open>\<not> ended\<close> lt(2) by (cases "j = qi") (simp_all add: proc_at_def)
    then show ?thesis by (simp add: upd_proc_def all_set_conv_all_nth)
  qed
  have old: "part_empty (partitions w ! pj) = (\<forall>x \<in> set (processes (partitions w ! pj)). \<not> is_spawned x)"
    if "pj < length (partitions w)" for pj using c that by (simp add: counted_def)
  have nth: "part_empty (partitions ?w ! pj) = (\<forall>x \<in> set (processes (partitions ?w ! pj)). \<not> is_spawned x) \<and>
      (\<not> ended \<longrightarrow> part_empty (partitions ?w ! pj) = part_empty (partitions w ! pj))" if "pj < length (partitions w)" for pj
    using old[OF that] old[OF lt(1)] sp by (auto simp: after_end_nth[OF pq that])
  show "counted ?w" using nth by (simp add: counted_def all_set_conv_all_nth[of "partitions ?w"])
  show "all_ended ?w = all_ended w" if "\<not> ended"
  proof -
    have "part_empty (partitions ?w ! pj) = part_empty (partitions w ! pj)" if "pj < length (partitions w)" for pj
      using conjunct2[OF nth[OF that]] \<open>\<not> ended\<close> by blast
    then show ?thesis by (simp add: all_ended_def all_set_conv_all_nth)
  qed
qed

lemma end_event_cases:
  assumes "end_event cb pi qi w = Inr w'"
  obtains
    (stays) q s where "(pi, qi) \<in> procs w" "cb (proc_at w (pi, qi)) (st_os w) = Inr (False, q, s)"
      "w' = after_end pi qi False q s w"
  | (ended) q s where "(pi, qi) \<in> procs w" "cb (proc_at w (pi, qi)) (st_os w) = Inr (True, q, s)"
      "call_exit_cb start_scheduler sched_completion_cb pi qi (after_end pi qi True q s w) = Inr w'"
proof -
  from assms obtain ended q s where pq: "(pi, qi) \<in> procs w" and run: "cb (proc_at w (pi, qi)) (st_os w) = Inr (ended, q, s)" and
    go: "(let u = (upd_part pi (upd_proc qi (\<lambda>_. q)) w)\<lparr>st_os := s\<rparr> in
      if ended then proc_exit start_scheduler sched_completion_cb pi qi u else Inr u) = Inr w'"
    by (auto simp: end_event_def procs_def proc_at_def bindE_Inr_iff split: if_splits)
  show ?thesis
  proof (cases ended)
    case True
    with pq run go show ?thesis by (intro ended) (simp_all add: proc_exit_def after_end_def)
  next
    case False
    with pq run go show ?thesis by (intro stays) (auto simp: after_end_def upd_part_def)
  qed
qed

lemma process_exit_cb_eq:
  "pi < length (partitions w) \<Longrightarrow> process_exit_cb ccb (part_empty (partitions w ! pi)) w = (if all_ended w then ccb w else Inr w)"
  by (auto simp: process_exit_cb_def all_ended_def)

lemma after_end_loop:
  assumes "(pi, qi) \<in> procs w" and "cb (proc_at w (pi, qi)) (st_os w) = Inr (ended, q, s)"
    and "end_cb cb (proc_at w (pi, qi))" and "\<forall>p \<in> set (partitions w). part_ok p" and "loop_ok w"
  shows "counted (after_end pi qi ended q s w)" "loop_stopped (after_end pi qi ended q s w) = loop_stopped w"
    "ended \<Longrightarrow> \<not> loop_stopped w" "\<not> ended \<Longrightarrow> loop_ok (after_end pi qi ended q s w)"
proof -
  have c: "counted w" using assms(5) by (simp add: loop_ok_def)
  note a = after_end_counted[OF assms(1-3) c]
  show "counted (after_end pi qi ended q s w)" by (rule a(1))
  show l: "loop_stopped (after_end pi qi ended q s w) = loop_stopped w"
    using sched_more(4)[of "after_end pi qi ended q s w" w] by simp
  show "\<not> ended \<Longrightarrow> loop_ok (after_end pi qi ended q s w)" using a l assms(5) by (simp add: loop_ok_def)
  assume ended
  have "proc_at w (pi, qi) \<in> set (processes (partitions w ! pi))" "partitions w ! pi \<in> set (partitions w)"
    using assms(1) by (auto simp: procs_def proc_at_def)
  then have "proc_ok (proc_at w (pi, qi))" using assms(4) by (auto simp: part_ok_def)
  with \<open>ended\<close> end_cb_Inr[OF assms(2,3)] have "is_spawned (proc_at w (pi, qi))" by simp
  then have "\<not> all_ended w" using all_ended_iff[OF c] assms(1) by blast
  then show "\<not> loop_stopped w" using assms(5) by (simp add: loop_ok_def)
qed

text \<open>A process exits while the windows are executed or after they were stopped.\<close>

lemma exit_process:
  assumes run: "end_event cb pi qi w = Inr w'" and cb: "(pi, qi) \<in> procs w \<Longrightarrow> end_cb cb (proc_at w (pi, qi))"
    and ph: "phase_running w \<or> phase_shutdown w" and lp: "loop_ok w"
  shows "(phase_running w' \<or> phase_shutdown w') \<and> loop_ok w' \<and> (phase_shutdown w \<longrightarrow> phase_shutdown w')"
proof -
  have ok: "\<forall>p \<in> set (partitions w). part_ok p" and ex: "exits_are Exit_process w"
    using ph by (auto simp: phase_running_def phase_shutdown_def frame_running_def frame_active_def frame_quiet_def frame_wf_def)
  have after: "(phase_running w \<longrightarrow> phase_running (after_end pi qi e q s w)) \<and>
      (phase_shutdown w \<longrightarrow> phase_shutdown (after_end pi qi e q s w)) \<and> exits_are Exit_process (after_end pi qi e q s w)"
    if pq: "(pi, qi) \<in> procs w" and r: "cb (proc_at w (pi, qi)) (st_os w) = Inr (e, q, s)" for e q s
  proof -
    let ?u = "after_end pi qi e q s w"
    note parts = after_end_parts[OF pq r cb[OF pq] ok]
    have "exits_are Exit_process ?u" using parts(4) ex by (simp add: exits_are_def all_set_conv_all_nth)
    moreover have "frame_running w \<Longrightarrow> frame_running ?u" "frame_quiet w \<Longrightarrow> frame_quiet ?u"
      using parts by (auto intro: frame_cong(4)[where w = w] frame_cong(1)[where w = w])
    ultimately show ?thesis by (simp add: phase_running_def phase_shutdown_def)
  qed
  from run show ?thesis
  proof (cases rule: end_event_cases)
    case (stays q s)
    with after[OF stays(1,2)] ph after_end_loop(4)[OF stays(1,2) cb[OF stays(1)] ok lp] show ?thesis by auto
  next
    case (ended q s)
    let ?u = "after_end pi qi True q s w"
    note loop = after_end_loop[OF ended(1,2) cb[OF ended(1)] ok lp] and phu = after[OF ended(1,2)]
    have lt: "pi < length (partitions ?u)" using ended(1) by (simp add: procs_def)
    have "part_exit_cb (partitions ?u ! pi) = Exit_process" using phu lt by (simp add: exits_are_def)
    with ended(3) have go: "(if all_ended ?u then sched_completion_cb ?u else Inr ?u) = Inr w'"
      by (simp add: call_exit_cb_def process_exit_cb_eq[OF lt])
    show ?thesis
    proof (cases "all_ended ?u")
      case True
      with go have c: "sched_completion_cb ?u = Inr w'" by simp
      have "phase_running ?u \<or> phase_shutdown ?u" using phu ph by blast
      from completion_cb_spec[OF c this] loop(1) True lp show ?thesis
        by (simp add: loop_ok_def counted_life all_ended_life)
    next
      case False
      with go have "w' = ?u" by simp
      with False phu ph loop lp show ?thesis by (auto simp: loop_ok_def)
    qed
  qed
qed

text \<open>A process exits during initialisation.\<close>

definition init_phase :: "scheduler \<Rightarrow> bool" where
  "init_phase w \<longleftrightarrow> phase_init w \<and> (\<forall>pq \<in> running w. is_spawned (proc_at w pq)) \<and> \<not> tfd_active (timeout_timer w)"

definition phase_ok :: "scheduler \<Rightarrow> bool" where
  "phase_ok w \<longleftrightarrow> init_phase w \<or> phase_running w \<or> phase_shutdown w"

lemma after_end_procs:
  assumes "(pi, qi) \<in> procs w"
  shows "procs (after_end pi qi e q s w) = procs w"
    "pq \<in> procs w \<Longrightarrow> proc_at (after_end pi qi e q s w) pq = (if pq = (pi, qi) then q else proc_at w pq)"
proof -
  have len: "length (processes (partitions (after_end pi qi e q s w) ! pj)) = length (processes (partitions w ! pj))"
    if "pj < length (partitions w)" for pj using that by (simp add: after_end_nth[OF assms])
  then show "procs (after_end pi qi e q s w) = procs w" by (auto simp: procs_def)
  assume "pq \<in> procs w"
  then show "proc_at (after_end pi qi e q s w) pq = (if pq = (pi, qi) then q else proc_at w pq)"
    using assms by (cases pq) (auto simp: procs_def proc_at_def after_end_nth[OF assms] upd_proc_nth)
qed

lemma after_end_init:
  assumes ph: "init_phase w" and pq: "(pi, qi) \<in> procs w" and r: "cb (proc_at w (pi, qi)) (st_os w) = Inr (e, q, s)"
    and cb: "end_cb cb (proc_at w (pi, qi))"
  defines "u \<equiv> after_end pi qi e q s w"
  shows "calm u" "init_inv u" "running u = running w" "cbs_are Cb_init Exit_process_init u"
    "\<forall>pj \<in> running w. is_spawned (proc_at u pj) = (pj \<noteq> (pi, qi) \<or> \<not> e)"
    "\<not> tfd_active (timeout_timer u)"
proof -
  have ok: "\<forall>p \<in> set (partitions w). part_ok p" using ph by (simp add: init_phase_def phase_init_def init_inv_def)
  note parts = after_end_parts[OF pq r cb ok, folded u_def] and q = end_cb_Inr[OF r cb]
    and pr = after_end_procs[OF pq, where e = e and q = q and s = s, folded u_def]
  have uw: "windows u = windows w" "length (partitions u) = length (partitions w)" "frame.more u = frame.more w"
    "current_win u = current_win w" "mf_timer u = mf_timer w" by (simp_all add: u_def)
  show run: "running u = running w" using parts(2) uw(2) by (auto simp: running_def)
  have "resting wi u = resting wi w" "window_wf wi u = window_wf wi w" for wi
    using uw by (simp_all add: resting_def window_wf_def valid_slice_def the_slice_def)
  then show "calm u" using ph uw by (simp add: init_phase_def phase_init_def calm_def)
  show "cbs_are Cb_init Exit_process_init u"
    using ph parts(3,4) uw(2) by (simp add: init_phase_def phase_init_def cbs_are_def all_set_conv_all_nth)
  have "has_initialization (proc_at u pj) = has_initialization (proc_at w pj)" if "pj \<in> procs w" for pj
    using pr(2)[OF that] q by simp
  then have "inits u = inits w" using pr(1) by (auto simp: inits_def)
  moreover have "\<forall>p \<in> set (partitions u). part_ok p" using parts(1) uw(2) by (simp add: all_set_conv_all_nth)
  ultimately show "init_inv u" using ph run sched_more(1)[OF uw(3)] by (simp add: init_phase_def phase_init_def init_inv_def)
  show "\<not> tfd_active (timeout_timer u)" using ph sched_more(3)[OF uw(3)] by (simp add: init_phase_def)
  show "\<forall>pj \<in> running w. is_spawned (proc_at u pj) = (pj \<noteq> (pi, qi) \<or> \<not> e)"
  proof
    fix pj assume pj: "pj \<in> running w"
    then have "is_spawned (proc_at w pj)" "pj \<in> procs w" using ph running_procs[of w] by (auto simp: init_phase_def)
    with pr(2)[of pj] q show "is_spawned (proc_at u pj) = (pj \<noteq> (pi, qi) \<or> \<not> e)" by auto
  qed
qed

lemma not_all_ended: "counted w \<Longrightarrow> pq \<in> running w \<Longrightarrow> is_spawned (proc_at w pq) \<Longrightarrow> \<not> all_ended w"
  using all_ended_iff running_procs by blast

lemma init_frame_sched: "init_frame w w' \<Longrightarrow> sched_frame w w' \<and> timeout_timer w' = timeout_timer w"
  by (cases w; cases w') (auto simp: init_frame_def sched_frame_def)

text \<open>The last process of the initialisation is done: the scheduler starts.\<close>

lemma init_done:
  assumes "start_scheduler v = Inr w'" and "phase_ready v" and "init_frame w v"
  shows "(phase_running w' \<or> phase_shutdown w') \<and> sched_frame w w'"
  using start_scheduler_spec[OF assms(1,2)] init_frame_sched[OF assms(3)]
  by (auto intro: sched_frame_trans split: if_splits)

lemma init_completion:
  assumes run: "process_init_completion_cb start_scheduler pi qi u = Inr v" and u: "calm u" "init_inv u"
    "cbs_are Cb_init Exit_process_init u" "\<not> tfd_active (timeout_timer u)" and pq: "(pi, qi) \<in> running u"
    and sp: "\<forall>pj \<in> running u - {(pi, qi)}. is_spawned (proc_at u pj)"
  shows "sched_frame u v \<and> (if running u = {(pi, qi)} then phase_running v \<or> phase_shutdown v else init_phase v)"
proof -
  note spec = process_init_completion_spec[OF run u(1,2) pq]
  show ?thesis
  proof (cases "running u = {(pi, qi)}")
    case True
    with spec init_done show ?thesis by (auto split: if_splits)
  next
    case False
    with spec have iv: "init_inv v" "running v = running u - {(pi, qi)}" and fr: "mgr_frame u v"
      and cbm: "map part_completed_cb (partitions v) = map part_completed_cb (partitions u)" by auto
    note fi = mgr_frame_init[OF fr] and conf = mgr_frame_conf(1)[OF fr]
    note c = procs_conf[OF conf]
    have "part_completed_cb (partitions v ! pj) = Cb_init \<and> part_exit_cb (partitions v ! pj) = Exit_process_init"
      if "pj < length (partitions v)" for pj
      using u(3) that c(1) part_conf_dest(2)[OF c(5), of pj] arg_cong[OF cbm, of "\<lambda>xs. xs ! pj"] by (simp add: cbs_are_def)
    then have "cbs_are Cb_init Exit_process_init v" by (simp add: cbs_are_def all_set_conv_all_nth)
    moreover have "is_spawned (proc_at v pj)" if "pj \<in> running v" for pj
      using that iv(2) sp c(4)[of pj] running_procs[of u] by (auto simp: proc_conf_def is_spawned_def)
    moreover have "running v \<noteq> {}" using False pq iv(2) by auto
    ultimately show ?thesis
      using False iv calm_frame[OF fi u(1)] init_frame_sched[OF fi] u(4) by (simp add: init_phase_def phase_init_def)
  qed
qed

text \<open>What follows the exit callback: the loop is stopped if no process is left anywhere.\<close>

lemma exit_tail:
  assumes fr: "sched_frame u v" and pi: "pi < length (partitions u)"
    and run: "process_exit_cb sched_completion_cb (part_empty (partitions u ! pi)) v = Inr w'"
    and ph: "phase_running v \<or> phase_shutdown v \<or> init_phase v" and ct: "counted u" and ls: "\<not> loop_stopped u" "life u \<noteq> []"
  shows "phase_ok w' \<and> loop_ok w'"
proof -
  have life: "life v = life u" and lv: "\<not> loop_stopped v" using fr ls by (simp_all add: sched_frame_def)
  have cv: "counted v" "life v \<noteq> []" using ct ls(2) life by (simp_all add: counted_life)
  have len: "length (partitions v) = length (partitions u)" by (rule life_procs(1)[OF life])
  have "part_empty (partitions v ! pi) = part_empty (partitions u ! pi)"
    using arg_cong[OF life, of "\<lambda>xs. snd (xs ! pi)"] pi len by (simp add: life_def)
  with run process_exit_cb_eq[of pi v sched_completion_cb] pi len have
    go: "(if all_ended v then sched_completion_cb v else Inr v) = Inr w'" by simp
  show ?thesis
  proof (cases "all_ended v")
    case True
    have "\<not> init_phase v"
    proof
      assume i: "init_phase v"
      then obtain pq where "pq \<in> running v" "is_spawned (proc_at v pq)" by (auto simp: init_phase_def phase_init_def)
      with not_all_ended[OF cv(1)] True show False by blast
    qed
    with ph have "phase_running v \<or> phase_shutdown v" by blast
    from completion_cb_spec[OF _ this, of w'] go True cv show ?thesis
      by (simp add: phase_ok_def loop_ok_def counted_life all_ended_life)
  next
    case False
    with go ph cv lv show ?thesis by (auto simp: phase_ok_def loop_ok_def)
  qed
qed

lemma exit_init:
  assumes run: "end_event cb pi qi w = Inr w'" and cb: "(pi, qi) \<in> procs w \<Longrightarrow> end_cb cb (proc_at w (pi, qi))"
    and ph: "init_phase w" and lp: "loop_ok w"
    and timely: "has_initialization (proc_at w (pi, qi)) \<Longrightarrow> (pi, qi) \<in> running w"
  shows "phase_ok w' \<and> loop_ok w'"
proof -
  have ok: "\<forall>p \<in> set (partitions w). part_ok p" and ne: "running w \<noteq> {}" and sub: "running w \<subseteq> inits w"
    using ph by (auto simp: init_phase_def phase_init_def init_inv_def)
  from run show ?thesis
  proof (cases rule: end_event_cases)
    case (stays q s)
    note u = after_end_init[OF ph stays(1,2) cb[OF stays(1)]]
    have "init_phase w'" using u ne by (auto simp: stays(3) init_phase_def phase_init_def)
    with after_end_loop(4)[OF stays(1,2) cb[OF stays(1)] ok lp] stays(3) show ?thesis by (simp add: phase_ok_def)
  next
    case (ended q s)
    let ?u = "after_end pi qi True q s w" and ?pq = "(pi, qi)"
    note u = after_end_init[OF ph ended(1,2) cb[OF ended(1)]] and loop = after_end_loop[OF ended(1,2) cb[OF ended(1)] ok lp]
    have lt: "pi < length (partitions ?u)" using ended(1) by (simp add: procs_def)
    have "part_exit_cb (partitions ?u ! pi) = Exit_process_init" using u(4) lt by (simp add: cbs_are_def)
    then have go: "process_init_exit_cb start_scheduler sched_completion_cb pi qi (part_empty (partitions ?u ! pi)) ?u = Inr w'"
      using ended(3) by (simp add: call_exit_cb_def)
    have hi: "has_initialization (proc_at ?u ?pq) = has_initialization (proc_at w ?pq)"
      using after_end_procs(2)[OF ended(1,1)] end_cb_Inr[OF ended(2) cb[OF ended(1)]] by simp
    show ?thesis
    proof (cases "has_initialization (proc_at w ?pq)")
      case False
      with sub have np: "?pq \<notin> running w" by (auto simp: inits_def)
      have "init_phase ?u" using u np ne by (auto simp: init_phase_def phase_init_def)
      moreover have "process_exit_cb sched_completion_cb (part_empty (partitions ?u ! pi)) ?u = Inr w'"
        using go False hi by (simp add: process_init_exit_cb_def needs_initialization_def proc_at_def)
      ultimately show ?thesis using exit_tail[OF sched_frame_refl lt _ _ loop(1)] loop(2,3) lp by (simp add: loop_ok_def)
    next
      case True
      then have pq: "?pq \<in> running ?u" using timely u(3) by simp
      from go True hi obtain v where v: "process_init_completion_cb start_scheduler pi qi ?u = Inr v"
        and ex: "process_exit_cb sched_completion_cb (part_empty (partitions ?u ! pi)) v = Inr w'"
        by (auto simp: process_init_exit_cb_def needs_initialization_def proc_at_def bindE_Inr_iff)
      have "\<forall>pj \<in> running ?u - {?pq}. is_spawned (proc_at ?u pj)" using u(3,5) by auto
      from init_completion[OF v u(1,2,4,6) pq this] have
        "sched_frame ?u v" "phase_running v \<or> phase_shutdown v \<or> init_phase v" by (auto split: if_splits)
      from exit_tail[OF this(1) lt ex this(2) loop(1)] loop(2,3) lp show ?thesis by (simp add: loop_ok_def)
    qed
  qed
qed

subsection \<open>Completion messages\<close>

definition after_completed :: "nat \<Rightarrow> nat \<Rightarrow> os \<Rightarrow> scheduler \<Rightarrow> scheduler" where
  "after_completed pi qi s w = (upd_part pi (upd_proc qi (\<lambda>_. proc_completed_cb (proc_at w (pi, qi)))) w)\<lparr>st_os := s\<rparr>"

lemma after_completed_frame:
  assumes pq: "(pi, qi) \<in> procs w" and s: "os_extends (st_os w) s" and ok: "\<forall>p \<in> set (partitions w). part_ok p"
  defines "u \<equiv> after_completed pi qi s w"
  shows "sched_frame w u" "mgr_frame w u" "running u = running w" "map part_completed_cb (partitions u) = map part_completed_cb (partitions w)"
    "map part_conf (partitions u) = map part_conf (partitions w)" "\<forall>p \<in> set (partitions u). part_ok p"
proof -
  let ?q = "proc_completed_cb (proc_at w (pi, qi))"
  have q: "proc_conf ?q = proc_conf (proc_at w (pi, qi))" "proc_ok ?q = proc_ok (proc_at w (pi, qi))"
      "is_spawned ?q = is_spawned (proc_at w (pi, qi))" "proc_cgf ?q = proc_cgf (proc_at w (pi, qi))"
    by (simp_all add: proc_completed_cb_def)
  have parts: "partitions u = (partitions w)[pi := upd_proc qi (\<lambda>_. ?q) (partitions w ! pi)]"
    by (simp add: u_def after_completed_def upd_part_def)
  note a = upd_at[OF pq parts]
  have "(pi, qi) \<in> running w = (\<not> frozen (proc_cgf (proc_at w (pi, qi))))"
    using pq by (auto simp: running_def procs_def thawed_def proc_at_def)
  then show "running u = running w" using a(1) q(4) by auto
  show "map part_completed_cb (partitions u) = map part_completed_cb (partitions w)" by (rule a(2))
  show conf: "map part_conf (partitions u) = map part_conf (partitions w)" by (rule a(3)[OF q(1)])
  show "\<forall>p \<in> set (partitions u). part_ok p" by (rule a(4)[OF ok]) (simp_all add: q)
  have eq: "u = w\<lparr>partitions := partitions u, st_os := s, remaining_process_inits := remaining_process_inits w\<rparr>"
    by (simp add: u_def after_completed_def upd_part_def)
  show fr: "mgr_frame w u" unfolding mgr_frame_def using eq s conf by blast
  show "sched_frame w u" using init_frame_sched[OF mgr_frame_init[OF fr]] by simp
qed

lemma completed_event_eq:
  assumes "completed_event pi qi w = Inr w'"
  obtains s where "(pi, qi) \<in> procs w" and "os_extends (st_os w) s"
    and "call_completed_cb pi qi (after_completed pi qi s w) = Inr w'"
proof -
  let ?f = "\<lambda>q s. bindE (evfd_ev_callback s) (\<lambda>s. Inr (proc_completed_cb q, s))"
  from assms obtain u where u: "on_part pi (on_proc qi ?f) w = Inr u" and go: "call_completed_cb pi qi u = Inr w'"
    by (auto simp: completed_event_def bindE_Inr_iff)
  from u obtain q s where pq: "(pi, qi) \<in> procs w" and q: "?f (proc_at w (pi, qi)) (st_os w) = Inr (q, s)"
    and eq: "u = (upd_part pi (upd_proc qi (\<lambda>_. q)) w)\<lparr>st_os := s\<rparr>" by (rule on_part_proc)
  from q have "os_extends (st_os w) s" "u = after_completed pi qi s w"
    by (auto simp: bindE_Inr_iff evfd_ev_callback_def eq after_completed_def dest: CHECK_extends)
  with pq go show ?thesis by (intro that) simp_all
qed

lemma after_completed_cb:
  assumes "(pi, qi) \<in> procs w" and "os_extends (st_os w) s" and "\<forall>p \<in> set (partitions w). part_ok p" and "pj < length (partitions w)"
  shows "part_completed_cb (partitions (after_completed pi qi s w) ! pj) = part_completed_cb (partitions w ! pj)"
  using arg_cong[OF after_completed_frame(4)[OF assms(1-3)], of "\<lambda>xs. xs ! pj"]
    procs_conf(1)[OF after_completed_frame(5)[OF assms(1-3)]] assms(4) by simp

lemma after_completed_phase:
  assumes pq: "(pi, qi) \<in> procs w" and s: "os_extends (st_os w) s" and ok: "\<forall>p \<in> set (partitions w). part_ok p"
  shows "phase_running w \<Longrightarrow> phase_running (after_completed pi qi s w)"
    "phase_shutdown w \<Longrightarrow> phase_shutdown (after_completed pi qi s w)"
    "init_phase w \<Longrightarrow> init_phase (after_completed pi qi s w)"
proof -
  let ?u = "after_completed pi qi s w"
  note fr = after_completed_frame[OF pq s ok] and cb = after_completed_cb[OF pq s ok]
  note c = procs_conf[OF fr(5)] and m = mgr_frame_conf[OF fr(2)] and fi = mgr_frame_init[OF fr(2)]
  have th: "thawed (partitions ?u ! pj) = thawed (partitions w ! pj)" if "pj < length (partitions w)" for pj
    using fr(3) that c(1) by (auto simp: running_def)
  have exn: "part_exit_cb (partitions ?u ! pj) = part_exit_cb (partitions w ! pj)" if "pj < length (partitions w)" for pj
    by (rule part_conf_dest(2)[OF c(5)[OF that]])
  have ex: "exits_are e ?u = exits_are e w" for e using exn c(1) by (simp add: exits_are_def all_set_conv_all_nth)
  have p: "part_ok (partitions ?u ! pj) \<and> thawed (partitions ?u ! pj) = thawed (partitions w ! pj) \<and>
      part_completed_cb (partitions ?u ! pj) = part_completed_cb (partitions w ! pj)" if "pj < length (partitions w)" for pj
    using fr(6) th[OF that] cb[OF that] that c(1) by simp
  show "phase_running ?u" if "phase_running w"
    using frame_cong(4)[OF m(2) c(1) p m(4) _ m(5,6)] that ex by (simp add: phase_running_def)
  show "phase_shutdown ?u" if "phase_shutdown w"
    using frame_cong(1)[OF m(2) c(1) p m(4)] that ex m(5) by (simp add: phase_shutdown_def)
  assume i: "init_phase w"
  have "cbs_are Cb_init Exit_process_init ?u"
    using i cb exn c(1) by (simp add: init_phase_def phase_init_def cbs_are_def all_set_conv_all_nth)
  moreover have "remaining_process_inits ?u = remaining_process_inits w"
    by (simp add: after_completed_def upd_part_def)
  then have "init_inv ?u" using i fr(3,6) c(3) by (simp add: init_phase_def phase_init_def init_inv_def)
  moreover have "is_spawned (proc_at ?u pq) = is_spawned (proc_at w pq)" if "pq \<in> running w" for pq
    using c(4)[of pq] that running_procs[of w] by (auto simp: proc_conf_def is_spawned_def)
  ultimately show "init_phase ?u"
    using i fr(3) calm_frame[OF fi] init_frame_sched[OF fi] by (simp add: init_phase_def phase_init_def)
qed

lemma completed_ok:
  assumes run: "completed_event pi qi w = Inr w'" and ph: "phase_ok w"
    and timely: "part_completed_cb (partitions w ! pi) = Cb_init \<Longrightarrow> (pi, qi) \<in> running w"
  shows "phase_ok w' \<and> sched_frame w w' \<and> (phase_shutdown w \<longrightarrow> phase_shutdown w') \<and> (phase_running w \<longrightarrow> phase_running w')"
proof -
  from run obtain s where pq: "(pi, qi) \<in> procs w" and s: "os_extends (st_os w) s" and
    go: "call_completed_cb pi qi (after_completed pi qi s w) = Inr w'" by (rule completed_event_eq)
  let ?u = "after_completed pi qi s w"
  have ok: "\<forall>p \<in> set (partitions w). part_ok p" using ph
    by (auto simp: phase_ok_def init_phase_def phase_init_def init_inv_def phase_running_def phase_shutdown_def frame_running_def
        frame_active_def frame_quiet_def frame_wf_def)
  note fr = after_completed_frame[OF pq s ok] and p = after_completed_phase[OF pq s ok]
  have lt: "pi < length (partitions w)" "pi < length (partitions ?u)" using pq procs_conf(1)[OF fr(5)] by (auto simp: procs_def)
  have cb: "part_completed_cb (partitions ?u ! pi) = part_completed_cb (partitions w ! pi)" by (rule after_completed_cb[OF pq s ok lt(1)])
  consider (init) "init_phase w" | (run) "phase_running w" | (down) "phase_shutdown w" using ph by (auto simp: phase_ok_def)
  then show ?thesis
  proof cases
    case init
    then have u: "calm ?u" "init_inv ?u" "cbs_are Cb_init Exit_process_init ?u" "\<not> tfd_active (timeout_timer ?u)"
      "\<forall>pj \<in> running ?u. is_spawned (proc_at ?u pj)" using p(3) by (auto simp: init_phase_def phase_init_def)
    have ci: "part_completed_cb (partitions ?u ! pi) = Cb_init" using u(3) lt(2) by (simp add: cbs_are_def)
    then have "process_init_completion_cb start_scheduler pi qi ?u = Inr w'" using go by (simp add: call_completed_cb_def)
    from init_completion[OF this u(1-4)] timely ci cb u(5) fr(3) have
      "sched_frame ?u w'" "phase_ok w'" by (auto simp: phase_ok_def split: if_splits)
    moreover have "\<not> phase_shutdown w" "\<not> phase_running w" using init lt(1)
      by (auto simp: init_phase_def phase_init_def cbs_are_def phase_shutdown_def phase_running_def exits_are_def)
    ultimately show ?thesis using sched_frame_trans[OF fr(1)] by blast
  next
    case run
    then have phu: "phase_running ?u" by (rule p(1))
    then have inv: "cb_inv (current_win ?u) ?u"
      by (simp add: phase_running_def frame_running_def frame_active_def window_running_def sched_inv_def win_inv_def)
    have nd: "\<not> phase_shutdown w" using run by (auto simp: phase_running_def phase_shutdown_def frame_running_def)
    show ?thesis
    proof (cases "part_completed_cb (partitions ?u ! pi)")
      case (Cb_slice wi si)
      with inv lt(2) have wi: "wi = current_win ?u" unfolding cb_inv_def by blast
      obtain t v where now: "now ?u = (t, v)" by (cases "now ?u")
      with go Cb_slice have "slice_schedule_next (sc_done wi) wi si t v = Inr w'"
        by (simp add: call_completed_cb_def slice_completion_cb_def)
      with serve_slice[OF _ phu wi] now_Inr[OF now] have "phase_running w'" "sched_frame ?u w'" by auto
      with nd sched_frame_trans[OF fr(1)] show ?thesis by (auto simp: phase_ok_def)
    qed (use go phu inv lt fr(1) nd in \<open>auto simp: call_completed_cb_def phase_ok_def cb_inv_def\<close>)
  next
    case down
    then have phu: "phase_shutdown ?u" by (rule p(2))
    then have "part_completed_cb (partitions ?u ! pi) \<noteq> Cb_init" "\<And>wj sj. part_completed_cb (partitions ?u ! pi) \<noteq> Cb_slice wj sj"
      using lt(2) by (auto simp: phase_shutdown_def frame_quiet_def)
    with go have "w' = ?u" by (cases "part_completed_cb (partitions ?u ! pi)") (auto simp: call_completed_cb_def)
    moreover have "\<not> phase_running w" using down by (auto simp: phase_running_def phase_shutdown_def frame_running_def)
    ultimately show ?thesis using phu fr(1) by (simp add: phase_ok_def)
  qed
qed

subsection \<open>Reachable states\<close>

text \<open>
  The condition under which the initialisation is correct: a process of the initialisation reports
  its completion or exit while the freezer lets it run, and no stop signal arrives before the
  initialisation is over. It restricts nothing once the initialisation is over (\<open>scheduling_timely\<close>). What happens
  otherwise is shown in \<open>Scheduler_Runs\<close>.
\<close>

fun timely :: "sched_event \<Rightarrow> scheduler \<Rightarrow> bool" where
  "timely (Completed pi qi) w =
     (part_completed_cb (partitions w ! pi) = Cb_init \<longrightarrow> \<not> frozen (proc_cgf (proc_at w (pi, qi))))"
| "timely (Child_terminated pi qi) w =
     (part_exit_cb (partitions w ! pi) = Exit_process_init \<and> has_initialization (proc_at w (pi, qi)) \<longrightarrow>
      \<not> frozen (proc_cgf (proc_at w (pi, qi))))"
| "timely (Cgroup_event pi qi) w =
     (part_exit_cb (partitions w ! pi) = Exit_process_init \<and> has_initialization (proc_at w (pi, qi)) \<longrightarrow>
      \<not> frozen (proc_cgf (proc_at w (pi, qi))))"
| "timely Signal w = (\<forall>p \<in> set (partitions w). part_exit_cb p \<noteq> Exit_process_init)"
| "timely ev w = True"

text \<open>A run of the event loop: any sequence of callbacks of started watchers that do not throw.\<close>

definition booted :: "scheduler \<Rightarrow> bool" where
  "booted w \<longleftrightarrow> phase_boot w \<and> loop_ok w \<and> (\<forall>pq \<in> procs w. is_spawned (proc_at w pq))"

inductive sched_trans :: "scheduler \<Rightarrow> sched_event \<Rightarrow> scheduler \<Rightarrow> bool" where
  step: "ev \<noteq> Startup \<Longrightarrow> watched ev w \<Longrightarrow> sched_step ev w = Inr w' \<Longrightarrow> sched_trans w ev w'"

inductive_cases sched_transE: "sched_trans w ev w'"

inductive sched_run :: "scheduler \<Rightarrow> sched_event list \<Rightarrow> scheduler \<Rightarrow> bool" where
  refl: "sched_run w [] w"
| snoc: "sched_run w evs w' \<Longrightarrow> sched_trans w' ev w'' \<Longrightarrow> sched_run w (evs @ [ev]) w''"

lemma frozen_running: "(pi, qi) \<in> procs w \<Longrightarrow> ((pi, qi) \<in> running w) = (\<not> frozen (proc_cgf (proc_at w (pi, qi))))"
  by (auto simp: running_def procs_def thawed_def proc_at_def)

lemma init_phase_not:
  assumes "init_phase w" and "pi < length (partitions w)"
  shows "part_exit_cb (partitions w ! pi) = Exit_process_init" "\<not> phase_running w" "\<not> phase_shutdown w"
  using assms by (auto simp: init_phase_def phase_init_def cbs_are_def phase_running_def phase_shutdown_def exits_are_def)

lemma running_shutdown_stopped: "phase_shutdown w \<Longrightarrow> valid_slice wi si w \<Longrightarrow> \<not> tfd_active (sl_timer (the_slice wi si w))"
  by (auto simp: phase_shutdown_def frame_quiet_def resting_def valid_slice_def)

lemma end_event_ok:
  assumes run: "end_event cb pi qi w = Inr w'" and cb: "end_cb cb (proc_at w (pi, qi))" and pq: "(pi, qi) \<in> procs w"
    and ph: "phase_ok w" and lp: "loop_ok w"
    and timely: "part_exit_cb (partitions w ! pi) = Exit_process_init \<Longrightarrow> has_initialization (proc_at w (pi, qi)) \<Longrightarrow>
      \<not> frozen (proc_cgf (proc_at w (pi, qi)))"
  shows "phase_ok w' \<and> loop_ok w' \<and> (phase_shutdown w \<longrightarrow> phase_shutdown w') \<and>
    (phase_running w \<or> phase_shutdown w \<longrightarrow> phase_running w' \<or> phase_shutdown w')"
proof (cases "init_phase w")
  case True
  have lt: "pi < length (partitions w)" using pq by (simp add: procs_def)
  note n = init_phase_not[OF True lt]
  have "phase_ok w' \<and> loop_ok w'"
    by (rule exit_init[OF run _ True lp]) (use cb timely n frozen_running[OF pq] in auto)
  with n show ?thesis by blast
next
  case False
  with ph have "phase_running w \<or> phase_shutdown w" by (auto simp: phase_ok_def)
  from exit_process[OF run cb this lp] show ?thesis by (auto simp: phase_ok_def)
qed

lemma shutdown_ok:
  assumes "initiate_shutdown w = Inr w'" and "phase_running w \<or> phase_shutdown w" and "loop_ok w"
  shows "phase_ok w' \<and> loop_ok w' \<and> phase_shutdown w'"
  using initiate_shutdown_spec[OF assms(1,2)] loop_ok_frame[of w w'] assms(3) by (simp add: phase_ok_def)

lemma sched_trans_ok:
  assumes tr: "sched_trans w ev w'" and tm: "timely ev w" and ph: "phase_ok w" and lp: "loop_ok w"
  shows "phase_ok w' \<and> loop_ok w' \<and> (phase_shutdown w \<longrightarrow> phase_shutdown w') \<and>
    (phase_running w \<or> phase_shutdown w \<longrightarrow> phase_running w' \<or> phase_shutdown w')"
proof -
  from tr have nst: "ev \<noteq> Startup" and wt: "watched ev w" and run: "sched_step ev w = Inr w'" by (auto elim: sched_transE)
  have nth0: "partitions w ! 0 \<in> set (partitions w)" using lp by (simp add: loop_ok_def life_def)
  show ?thesis
  proof (cases ev)
    case Startup
    with nst show ?thesis by simp
  next
    case Window_timer
    with wt ph have pr: "phase_running w" "\<not> phase_shutdown w"
      by (auto simp: phase_ok_def init_phase_def phase_init_def calm_def phase_shutdown_def)
    with running_window_timer[OF _ pr(1), of w'] run Window_timer loop_ok_frame[of w w'] lp show ?thesis
      by (simp add: phase_ok_def)
  next
    case (Slice_timer wi si)
    with wt ph have pr: "phase_running w" "\<not> phase_shutdown w"
      by (auto simp: phase_ok_def init_phase_def phase_init_def calm_def resting_def valid_slice_def dest: running_shutdown_stopped)
    with running_slice_timer[OF _ pr(1), of wi si w'] run wt Slice_timer loop_ok_frame[of w w'] lp show ?thesis
      by (simp add: phase_ok_def)
  next
    case (Completed pi qi)
    with wt have pq: "(pi, qi) \<in> procs w" by (simp add: procs_def)
    have "phase_ok w' \<and> sched_frame w w' \<and> (phase_shutdown w \<longrightarrow> phase_shutdown w') \<and> (phase_running w \<longrightarrow> phase_running w')"
      by (rule completed_ok[of pi qi]) (use run tm Completed ph frozen_running[OF pq] in auto)
    with loop_ok_frame[of w w'] lp show ?thesis by blast
  next
    case (Child_terminated pi qi)
    with wt have "(pi, qi) \<in> procs w" "end_cb child_terminated_cb (proc_at w (pi, qi))" by (auto simp: procs_def proc_at_def end_cb_def)
    with Child_terminated run tm end_event_ok[OF _ this(2,1) ph lp, of w'] show ?thesis by auto
  next
    case (Cgroup_event pi qi)
    with wt have "(pi, qi) \<in> procs w" "end_cb cgroup_event_cb (proc_at w (pi, qi))" by (auto simp: procs_def end_cb_def)
    with Cgroup_event run tm end_event_ok[OF _ this(2,1) ph lp, of w'] show ?thesis by auto
  next
    case Signal
    with tm ph nth0 have "phase_running w \<or> phase_shutdown w"
      by (auto simp: phase_ok_def init_phase_def phase_init_def cbs_are_def)
    with shutdown_ok[OF _ this lp, of w'] run Signal show ?thesis by (simp add: signal_cb_def)
  next
    case Timeout_timer
    with run obtain s where s: "CHECK Fd_read (st_os w) = Inr s" and
      go: "initiate_shutdown (w\<lparr>timeout_timer := timer_stop (timeout_timer w), st_os := s\<rparr>) = Inr w'"
      by (auto simp: timeout_timer_event_def timer_ev_callback_def bindE_Inr_iff timeout_cb_def)
    let ?u = "w\<lparr>timeout_timer := timer_stop (timeout_timer w), st_os := s\<rparr>"
    from wt Timeout_timer ph have pw: "phase_running w \<or> phase_shutdown w" by (auto simp: phase_ok_def init_phase_def)
    have fc: "frame_running w \<Longrightarrow> frame_running ?u" "frame_quiet w \<Longrightarrow> frame_quiet ?u"
      by (rule frame_cong(4)[where w = w]; simp add: frame_running_def frame_active_def frame_wf_def)
        (rule frame_cong(1)[where w = w]; simp add: frame_quiet_def frame_wf_def)
    then have "phase_running ?u \<or> phase_shutdown ?u"
      using pw by (auto simp: phase_running_def phase_shutdown_def exits_are_def)
    moreover have "loop_ok ?u" using lp by (simp add: loop_ok_def counted_def all_ended_def life_def)
    ultimately show ?thesis using shutdown_ok[OF go] by blast
  qed
qed

lemma startup_ok:
  assumes run: "startup_fn w = Inr w'" and bt: "booted w"
  shows "phase_ok w' \<and> loop_ok w' \<and> (inits w \<noteq> {} \<longrightarrow> init_phase w' \<and> running w' = inits w) \<and>
    (inits w = {} \<longrightarrow> phase_running w' \<or> phase_shutdown w')"
proof -
  have b: "calm w" "init_inv w" "running w = {}" "\<not> tfd_active (timeout_timer w)" and lp: "loop_ok w"
    and sp: "\<forall>pq \<in> procs w. is_spawned (proc_at w pq)" using bt by (auto simp: booted_def phase_boot_def)
  note spec = run_process_init_spec[OF run[unfolded startup_fn_def] b(1-3)]
  show ?thesis
  proof (cases "inits w = {}")
    case True
    with spec init_done have ph: "phase_running w' \<or> phase_shutdown w'" and fr: "sched_frame w w'" by auto
    from ph have "phase_ok w'" unfolding phase_ok_def by blast
    moreover have "loop_ok w'" using loop_ok_frame[OF fr] lp by simp
    ultimately show ?thesis using ph True by blast
  next
    case False
    with spec have i: "phase_init w'" "running w' = inits w" "init_frame w w'" by auto
    then have l: "life w' = life w" "sched_frame w w'" "timeout_timer w' = timeout_timer w"
      using init_frame_sched[OF i(3)] by (auto simp: init_frame_def)
    have "is_spawned (proc_at w' pq)" if "pq \<in> running w'" for pq
      using that i(2) sp life_procs(4)[OF l(1), of pq] by (auto simp: inits_def proc_conf_def is_spawned_def)
    with i b(4) l(3) have "init_phase w'" by (simp add: init_phase_def)
    with False i(2) l(2) loop_ok_frame[of w w'] lp show ?thesis by (auto simp: phase_ok_def)
  qed
qed

subsection \<open>Building a scheduler\<close>

text \<open>
  What the constructors leave: partitions whose processes are frozen and not spawned, and windows
  whose slices hold nothing.
\<close>

definition fresh_part :: "partition \<Rightarrow> bool" where
  "fresh_part p \<longleftrightarrow> current_proc p = 0 \<and> part_empty p = (processes p = []) \<and>
     (\<forall>q \<in> set (processes p). proc_ok q \<and> \<not> is_spawned q \<and> frozen (proc_cgf q))"

definition fresh_window :: "window \<Rightarrow> bool" where
  "fresh_window win \<longleftrightarrow> \<not> stopping win \<and> (\<forall>sl \<in> set (slices win).
     running_process sl = None \<and> running_partition sl = None \<and> \<not> tfd_active (sl_timer sl))"

lemma partition_new_fresh: "partition_new f c e n s = Inr (p, t) \<Longrightarrow> fresh_part p \<and> processes p = []"
  by (auto simp: partition_new_def fresh_part_def bindE_Inr_iff)

lemma add_process_fresh:
  assumes "add_process cmd wd b j rf hi p s = Inr (p', t)" and "fresh_part p" and "0 \<le> j" and "j \<le> 2 * b"
  shows "fresh_part p' \<and> processes p' \<noteq> []"
proof -
  from assms(1) obtain q where q: "process_new (''proc'' @ nat_to_dec (proc_count p)) (cg_path (part_cge p)) (cg_path (part_cgf p))
      cmd wd b j rf hi s = Inr (q, t)" and p': "p' = p\<lparr>processes := processes p @ [q], proc_count := Suc (proc_count p),
      current_proc := 0, part_empty := False\<rparr>"
    by (auto simp: add_process_def bindE_Inr_iff)
  from process_new_ok[OF q assms(3,4)] process_new_Inr[OF q] assms(2) p' show ?thesis
    by (auto simp: fresh_part_def is_spawned_def)
qed

lemma window_new_fresh: "fresh_window (window_new len)"
  by (simp add: fresh_window_def window_new_def)

lemma add_slice_fresh: "add_slice sc be cpus rf win s = Inr (win', t) \<Longrightarrow> fresh_window win \<Longrightarrow> fresh_window win'"
  by (auto simp: add_slice_def slice_new_def timerfd_new_def fresh_window_def bindE_Inr_iff)

text \<open>Spawning the processes of a fresh partition.\<close>

lemma cgroup_add_process_extends: "cgroup_add_process g i s = Inr t \<Longrightarrow> os_extends s t"
  by (auto simp: cgroup_add_process_def Let_def bindE_Inr_iff dest!: CHECK_extends elim: os_extends_trans)

lemma create_processes_Inr:
  assumes "create_processes p s = Inr (p', t)"
  shows "os_extends s t \<and> (\<exists>qs. p' = p\<lparr>processes := qs\<rparr> \<and>
    list_all2 (\<lambda>q q'. \<exists>i. q' = q\<lparr>pid := i, system_process_spawned := True, killed := False, child_active := True\<rparr>) (processes p) qs)"
proof -
  let ?f = "\<lambda>q s. bindE (exec q s) (\<lambda>(q, s). bindE (cgroup_add_process (part_cgc p) (pid q) s) (\<lambda>s. Inr (q, s)))"
  from assms obtain qs where qs: "mapE ?f (processes p) s = Inr (qs, t)" and p': "p' = p\<lparr>processes := qs\<rparr>"
    by (auto simp: create_processes_def bindE_Inr_iff)
  have "os_extends s t \<and>
      list_all2 (\<lambda>q q'. \<exists>i. q' = q\<lparr>pid := i, system_process_spawned := True, killed := False, child_active := True\<rparr>) (processes p) qs"
    by (rule mapE_list_all2[where P = "os_extends s", OF qs os_extends_refl])
      (auto simp: bindE_Inr_iff dest!: exec_Inr cgroup_add_process_extends elim: os_extends_trans)
  with p' show ?thesis by blast
qed

lemma create_processes_spawned:
  assumes "create_processes p s = Inr (p', t)" and "fresh_part p" and "processes p \<noteq> []"
  shows "part_ok p' \<and> thawed p' = {} \<and> \<not> part_empty p' \<and> (\<forall>q \<in> set (processes p'). is_spawned q) \<and> processes p' \<noteq> []"
proof -
  from create_processes_Inr[OF assms(1)] obtain qs where p': "p' = p\<lparr>processes := qs\<rparr>" and len: "length qs = length (processes p)" and
    nth: "\<And>i. i < length (processes p) \<Longrightarrow> \<exists>n. qs ! i = (processes p ! i)\<lparr>pid := n, system_process_spawned := True, killed := False, child_active := True\<rparr>"
    by (auto simp: list_all2_conv_all_nth)
  have "proc_ok (qs ! i) \<and> is_spawned (qs ! i) \<and> frozen (proc_cgf (qs ! i))" if "i < length (processes p)" for i
  proof -
    have "proc_ok (processes p ! i)" "\<not> is_spawned (processes p ! i)" "frozen (proc_cgf (processes p ! i))"
      using assms(2) that by (auto simp: fresh_part_def)
    with nth[OF that] show ?thesis by (auto simp: proc_ok_def is_spawned_def)
  qed
  then have "\<forall>q \<in> set qs. proc_ok q \<and> is_spawned q \<and> frozen (proc_cgf q)" using len by (auto simp: in_set_conv_nth)
  with assms(2,3) len show ?thesis by (auto simp: p' part_ok_def fresh_part_def thawed_def)
qed

text \<open>
  A configuration: the partitions and windows as built by the constructors, with at least one of
  each, no partition without a process, and slices that name existing partitions, none of them in
  two slices of a window.
\<close>

definition window_conf :: "nat \<Rightarrow> window \<Rightarrow> bool" where
  "window_conf n win \<longleftrightarrow> (\<forall>sl \<in> set (slices win). parts_of sl \<subseteq> {..<n}) \<and>
     (\<forall>i < length (slices win). \<forall>j < length (slices win). i \<noteq> j \<longrightarrow>
        parts_of (slices win ! i) \<inter> parts_of (slices win ! j) = {})"

definition configured :: "partition list \<Rightarrow> window list \<Rightarrow> bool" where
  "configured parts wins \<longleftrightarrow> parts \<noteq> [] \<and> (\<forall>p \<in> set parts. fresh_part p \<and> processes p \<noteq> []) \<and>
     wins \<noteq> [] \<and> (\<forall>win \<in> set wins. fresh_window win \<and> window_conf (length parts) win)"

lemma window_wf_conf:
  "wi < length (windows w) \<Longrightarrow> window_wf wi w = window_conf (length (partitions w)) (windows w ! wi)"
  by (auto simp: window_wf_def window_conf_def valid_slice_def the_slice_def all_set_conv_all_nth)

lemma scheduler_boots:
  assumes new: "scheduler_new parts wins m1 m2 pp s = Inr w" and su: "sched_setup w = Inr w0"
    and conf: "configured parts wins"
  shows "booted (set_timeout t w0)"
proof -
  have parts: "parts \<noteq> []" "\<forall>p \<in> set parts. fresh_part p \<and> processes p \<noteq> []"
    and wins: "wins \<noteq> []" "\<forall>win \<in> set wins. fresh_window win \<and> window_conf (length parts) win"
    using conf by (auto simp: configured_def)
  let ?p = "map (set_process_exit_cb Exit_process) parts"
  from new obtain s1 tm1 tm2 where w: "partitions w = ?p" "windows w = wins" "current_win w = 0" "mf_timer w = tm1" "\<not> tfd_active tm1"
      "timeout_timer w = tm2" "\<not> tfd_active tm2" "remaining_process_inits w = 0" "\<not> loop_stopped w"
    by (auto simp: scheduler_new_def timerfd_new_def bindE_Inr_iff set_exit_cb_def)
  have fresh: "fresh_part (partitions w ! pi)" "processes (partitions w ! pi) \<noteq> []" if "pi < length parts" for pi
    using parts(2) that by (auto simp: w fresh_part_def set_process_exit_cb_def)
  from su obtain ps u where w0: "w0 = w\<lparr>partitions := ps, st_os := u\<rparr>" and len: "length ps = length (partitions w)" and
    nth: "\<And>pi. pi < length (partitions w) \<Longrightarrow> \<exists>s1 s2. create_processes (partitions w ! pi) s1 = Inr (ps ! pi, s2)"
    unfolding sched_setup_def pm_create_processes_def
    by (rule for_parts_Inr[where f = "\<lambda>_ _. create_processes"]) (use create_processes_Inr in blast, rule that)
  have p: "part_ok (ps ! pi) \<and> thawed (ps ! pi) = {} \<and> \<not> part_empty (ps ! pi) \<and> (\<forall>q \<in> set (processes (ps ! pi)). is_spawned q) \<and>
      processes (ps ! pi) \<noteq> []" if pi: "pi < length ps" for pi
    using nth[of pi] create_processes_spawned[of "partitions w ! pi"] fresh[of pi] pi len by (auto simp: w)
  let ?w = "set_timeout t w0"
  have w': "partitions ?w = ps" "windows ?w = wins" "current_win ?w = 0" "mf_timer ?w = tm1" "timeout_timer ?w = tm2"
    "remaining_process_inits ?w = 0" "\<not> loop_stopped ?w" using w by (simp_all add: w0 set_timeout_def)
  have lp: "length ps = length parts" using len w(1) by simp
  have run: "running ?w = {}" using p by (auto simp: running_def w')
  have "window_wf wi ?w" if "wi < length wins" for wi
    using window_wf_conf[of wi ?w] that wins(2) by (simp add: w' lp)
  moreover have "resting wi ?w" if "wi < length wins" for wi
  proof -
    have "fresh_window (wins ! wi)" using wins(2) that by simp
    then show ?thesis by (simp add: resting_def fresh_window_def valid_slice_def the_slice_def w')
  qed
  ultimately have "calm ?w" using wins w(5) by (simp add: calm_def w')
  moreover have "init_inv ?w" using p run by (auto simp: init_inv_def w' in_set_conv_nth)
  moreover have "counted ?w" using p by (fastforce simp: counted_def w' in_set_conv_nth)
  moreover have "\<not> all_ended ?w" using p parts(1) lp by (auto simp: all_ended_def w' all_set_conv_all_nth)
  moreover have "\<forall>pq \<in> procs ?w. is_spawned (proc_at ?w pq)" using p by (auto simp: procs_def proc_at_def w')
  moreover have "life ?w \<noteq> []" using parts(1) lp by (auto simp: life_def w')
  ultimately show ?thesis using run w(7) w' by (simp add: booted_def phase_boot_def loop_ok_def)
qed

subsection \<open>Runs as a machine\<close>

text \<open>The events the loop can deliver, as a step function.\<close>

definition sched_guarded :: "sched_event \<Rightarrow> scheduler \<Rightarrow> scheduler result" where
  "sched_guarded ev w = (if ev \<noteq> Startup \<and> watched ev w then sched_step ev w
     else Inl (Runtime_error ''event not delivered''))"

lemma sched_trans_iff: "sched_trans w ev w' \<longleftrightarrow> sched_guarded ev w = Inr w'"
  by (auto simp: sched_guarded_def intro: sched_trans.step elim: sched_transE split: if_splits)

lemma sched_run_iff: "sched_run w evs w' \<longleftrightarrow> foldE sched_guarded evs w = Inr w'"
proof
  show "sched_run w evs w' \<Longrightarrow> foldE sched_guarded evs w = Inr w'"
    by (induction rule: sched_run.induct) (simp_all add: foldE_append sched_trans_iff)
  show "foldE sched_guarded evs w = Inr w' \<Longrightarrow> sched_run w evs w'"
    by (induction evs arbitrary: w' rule: rev_induct)
      (auto simp: foldE_append bindE_Inr_iff sched_trans_iff intro: sched_run.intros)
qed

text \<open>The runs whose events are timely.\<close>

definition timely_guarded :: "sched_event \<Rightarrow> scheduler \<Rightarrow> scheduler result" where
  "timely_guarded ev w = (if timely ev w then sched_guarded ev w else Inl (Runtime_error ''not timely''))"

definition timely_run :: "scheduler \<Rightarrow> sched_event list \<Rightarrow> scheduler \<Rightarrow> bool" where
  "timely_run w evs w' \<longleftrightarrow> foldE timely_guarded evs w = Inr w'"

lemma timely_guarded_Inr: "timely_guarded ev w = Inr w' \<longleftrightarrow> timely ev w \<and> sched_trans w ev w'"
  by (simp add: timely_guarded_def sched_trans_iff)

lemma timely_run_run: "timely_run w evs w' \<Longrightarrow> sched_run w evs w'"
  unfolding timely_run_def sched_run_iff
  by (induction evs arbitrary: w) (auto simp: bindE_Inr_iff timely_guarded_Inr sched_trans_iff)

lemma timely_run_append: "timely_run w (evs @ evs') w' \<longleftrightarrow> (\<exists>u. timely_run w evs u \<and> timely_run u evs' w')"
  by (simp add: timely_run_def foldE_append bindE_Inr_iff)

lemma timely_run_Nil [simp]: "timely_run w [] w' \<longleftrightarrow> w' = w"
  by (auto simp: timely_run_def)

lemma timely_run_Cons: "timely_run w (ev # evs) w' \<longleftrightarrow> (\<exists>u. timely ev w \<and> sched_trans w ev u \<and> timely_run u evs w')"
  by (auto simp: timely_run_def bindE_Inr_iff timely_guarded_Inr)

text \<open>When the initialisation is over, every event is timely.\<close>

definition scheduling :: "scheduler \<Rightarrow> bool" where
  "scheduling w \<longleftrightarrow> (phase_running w \<or> phase_shutdown w) \<and> loop_ok w"

lemma scheduling_ok: "scheduling w \<Longrightarrow> phase_ok w \<and> loop_ok w"
  by (auto simp: scheduling_def phase_ok_def)

lemma scheduling_timely:
  assumes "scheduling w" and "watched ev w"
  shows "timely ev w"
proof -
  have ex: "exits_are Exit_process w" using assms(1) by (auto simp: scheduling_def phase_running_def phase_shutdown_def)
  have "part_completed_cb (partitions w ! pi) \<noteq> Cb_init" if "pi < length (partitions w)" for pi
  proof (cases "phase_running w")
    case True
    then have "cb_inv (current_win w) w"
      by (simp add: phase_running_def frame_running_def frame_active_def window_running_def sched_inv_def win_inv_def)
    with that show ?thesis by (auto simp: cb_inv_def)
  next
    case False
    with assms(1) that show ?thesis by (auto simp: scheduling_def phase_shutdown_def frame_quiet_def)
  qed
  with ex assms(2) show ?thesis by (cases ev) (auto simp: exits_are_def)
qed

lemma scheduling_step:
  assumes "scheduling w" and "sched_trans w ev w'"
  shows "scheduling w' \<and> (phase_shutdown w \<longrightarrow> phase_shutdown w')"
proof -
  have "timely ev w" using scheduling_timely[OF assms(1)] assms(2) by (auto elim: sched_transE)
  from sched_trans_ok[OF assms(2) this] scheduling_ok[OF assms(1)] assms(1) show ?thesis
    by (auto simp: scheduling_def)
qed

interpretation sched_machine: event_machine timely_guarded "\<lambda>w. phase_ok w \<and> loop_ok w"
  by unfold_locales (use sched_trans_ok timely_guarded_Inr in blast)

interpretation scheduling_machine: event_machine sched_guarded scheduling
  by unfold_locales (use scheduling_step sched_trans_iff in blast)

interpretation shutdown_machine: event_machine sched_guarded "\<lambda>w. phase_shutdown w \<and> scheduling w"
  by unfold_locales (use scheduling_step sched_trans_iff in blast)

lemma scheduling_run_timely: "scheduling w \<Longrightarrow> sched_run w evs w' \<Longrightarrow> timely_run w evs w'"
  unfolding sched_run_iff
proof (induction evs arbitrary: w)
  case Nil
  then show ?case by (simp add: timely_run_def)
next
  case (Cons ev evs)
  from Cons.prems(2) obtain u where u: "sched_trans w ev u" and rest: "foldE sched_guarded evs u = Inr w'"
    by (auto simp: bindE_Inr_iff sched_trans_iff)
  have "timely ev w" using scheduling_timely[OF Cons.prems(1)] u by (auto elim: sched_transE)
  moreover have "timely_run u evs w'" by (rule Cons.IH[OF _ rest]) (use scheduling_step[OF Cons.prems(1) u] in blast)
  ultimately show ?case using u by (auto simp: timely_run_Cons)
qed

lemma reached_ok:
  assumes "scheduler_new parts wins m1 m2 pp s = Inr w" and "sched_setup w = Inr w0" and "configured parts wins"
    and "startup_fn (set_timeout t w0) = Inr w1" and "timely_run w1 evs w2"
  shows "phase_ok w2 \<and> loop_ok w2"
proof -
  have "phase_ok w1 \<and> loop_ok w1" using startup_ok[OF assms(4) scheduler_boots[OF assms(1-3)]] by blast
  from sched_machine.run_inv[OF this] assms(5) show ?thesis by (simp add: timely_run_def)
qed

text \<open>Where no process asks for initialisation, every run is timely.\<close>

lemma no_inits_timely:
  assumes "scheduler_new parts wins m1 m2 pp s = Inr w" and "sched_setup w = Inr w0" and "configured parts wins"
    and "startup_fn (set_timeout t w0) = Inr w1" and "inits (set_timeout t w0) = {}" and "sched_run w1 evs w2"
  shows "timely_run w1 evs w2"
proof -
  have "scheduling w1" using startup_ok[OF assms(4) scheduler_boots[OF assms(1-3)]] assms(5) by (auto simp: scheduling_def)
  from scheduling_run_timely[OF this assms(6)] show ?thesis .
qed

end
