(* ===== verification/Scheduler_Runs.thy ===== *)
theory Scheduler_Runs
  imports Demos_Scheduler
begin

text \<open>
  Whole runs of the scheduler: the properties of every run of the event loop, the runs that go wrong,
  and the schedules of \<open>src/test/0300-schedule.bats\<close> obtained by evaluating the model as a check of it. A scheduler
  for an evaluated run is built by the constructors from partitions and windows; the observed
  schedule is the sequence of lines the program writes to its schedule log.
\<close>

subsection \<open>Runs to evaluate\<close>

definition new_process :: "string \<Rightarrow> milliseconds \<Rightarrow> bool \<Rightarrow> process" where
  "new_process cmd b init = (demo_process cmd b)\<lparr>child_active := False, system_process_spawned := False, has_initialization := init\<rparr>"

definition demo_window :: "milliseconds \<Rightarrow> slice list \<Rightarrow> window" where
  "demo_window len sls = (window_new len)\<lparr>slices := sls\<rparr>"

text \<open>The second and later readings of the clock give 7 ms.\<close>

definition demo_os :: os where
  "demo_os = (quiet_os True)\<lparr>clock := (\<lambda>n. if n = 0 then 0 else 7000000)\<rparr>"

definition demo_boot :: "process list list \<Rightarrow> window list \<Rightarrow> scheduler result" where
  "demo_boot pss wins = bindE (scheduler_new (map demo_partition pss) wins [] [] PowerPolicy_None demo_os) sched_setup"

definition demo_sched :: "process list list \<Rightarrow> window list \<Rightarrow> sched_event list \<Rightarrow> scheduler result" where
  "demo_sched pss wins evs = bindE (demo_boot pss wins) (\<lambda>w. bindE (startup_fn (set_timeout None w)) (foldE timely_guarded evs))"

definition schedule_of :: "scheduler \<Rightarrow> (int \<times> string \<times> int) list" where
  "schedule_of w = rev (List.map_filter (\<lambda>ev. case ev of Schedule_log t cpus cmd b \<Rightarrow> Some (t, cmd, b) | _ \<Rightarrow> None) (io_log (st_os w)))"

definition succeeds :: "'a result \<Rightarrow> ('a \<Rightarrow> bool) \<Rightarrow> bool" where
  "succeeds r P = (case r of Inl _ \<Rightarrow> False | Inr x \<Rightarrow> P x)"

lemma succeedsE:
  assumes "succeeds r P"
  obtains x where "r = Inr x" and "P x"
  using assms by (cases r) (auto simp: succeeds_def)

lemma demo_schedE:
  assumes "succeeds (demo_sched pss wins evs) P"
  obtains w w0 w1 w2 where
    "scheduler_new (map demo_partition pss) wins [] [] PowerPolicy_None demo_os = Inr w" and "sched_setup w = Inr w0"
    and "startup_fn (set_timeout None w0) = Inr w1" and "timely_run w1 evs w2" and "P w2"
  using assms by (elim succeedsE) (auto simp: demo_sched_def demo_boot_def bindE_Inr_iff timely_run_def)

lemmas configured_simps = configured_def fresh_part_def fresh_window_def window_conf_def demo_partition_def
  demo_process_def new_process_def demo_window_def window_new_def demo_slice_def parts_of_def proc_ok_def is_spawned_def

text \<open>
  A slice with a safety critical process of 5 ms and best-effort processes of 3 and 4 ms, in a window of 10 ms.
\<close>

definition demo_procs :: "process list list" where
  "demo_procs = [[new_process ''sc'' 5 False], [new_process ''be 1'' 3 False, new_process ''be 2'' 4 False]]"

definition demo_wins :: "window list" where
  "demo_wins = [demo_window 10 [demo_slice (Some 0) (Some 1)]]"

lemma demo_conf: "configured (map demo_partition demo_procs) demo_wins"
  by (simp add: configured_simps demo_procs_def demo_wins_def)

lemma demo_run_ok:
  "succeeds (demo_sched demo_procs demo_wins [Slice_timer 0 0, Completed 1 0, Window_timer, Slice_timer 0 0])
     (\<lambda>w. tfd_active (mf_timer w) \<and> \<not> frozen (proc_cgf (proc_at w (1, 1))) \<and> length (partitions w) = 2 \<and>
       length (processes (partitions w ! 1)) = 2 \<and>
       schedule_of w = [(0, ''sc'', 5), (5, ''be 1'', 3), (7, ''be 2'', 4), (10, ''sc'', 5), (15, ''be 2'', 1)])"
  by code_simp

subsection \<open>Properties of every run\<close>

text \<open>
  C6. Isolation, for partitions and windows as the constructors build them, with no partition in two slices of a
  window (\<open>configured\<close>), in every run whose events are timely during the initialisation (\<open>timely_run\<close>; afterwards every event is). Whatever timers,
  completion messages, exits and signals the event loop has handled: while the windows are scheduled, a process
  that the freezer lets run is held by exactly one slice of the current window and is the only one of its
  partition, and no slice of another window holds a process or has a timer set.
\<close>

theorem scheduler_isolates_processes:
  assumes "scheduler_new parts wins m1 m2 pp s = Inr w" and "sched_setup w = Inr w0" and "configured parts wins"
    and "startup_fn (set_timeout t w0) = Inr w1" and "timely_run w1 evs w2" and "tfd_active (mf_timer w2)"
  shows "(\<forall>pi < length (partitions w2). \<forall>i \<in> thawed (partitions w2 ! pi). thawed (partitions w2 ! pi) = {i} \<and>
      (\<exists>!si. valid_slice (current_win w2) si w2 \<and> pi \<in> parts_of (the_slice (current_win w2) si w2) \<and>
        running_partition (the_slice (current_win w2) si w2) = Some pi \<and>
        running_process (the_slice (current_win w2) si w2) = Some i)) \<and>
    (\<forall>wi si. wi \<noteq> current_win w2 \<longrightarrow> valid_slice wi si w2 \<longrightarrow>
      running_process (the_slice wi si w2) = None \<and> \<not> tfd_active (sl_timer (the_slice wi si w2)))"
proof -
  have "phase_ok w2" using reached_ok[OF assms(1-5)] by blast
  with assms(6) have "frame_running w2"
    by (auto simp: phase_ok_def init_phase_def phase_init_def calm_def phase_shutdown_def phase_running_def)
  from frame_running_isolates[OF this] show ?thesis by (rule conjI)
qed

theorem scheduler_isolates_processes_witness:
  "\<exists>w2. demo_sched demo_procs demo_wins [Slice_timer 0 0, Completed 1 0, Window_timer, Slice_timer 0 0] = Inr w2 \<and>
     thawed (partitions w2 ! 1) = {1}"
proof -
  obtain w2 where w2: "demo_sched demo_procs demo_wins [Slice_timer 0 0, Completed 1 0, Window_timer, Slice_timer 0 0] = Inr w2"
    using demo_run_ok by (rule succeedsE)
  from demo_run_ok obtain w w0 w1 w3 where
    r: "scheduler_new (map demo_partition demo_procs) demo_wins [] [] PowerPolicy_None demo_os = Inr w" "sched_setup w = Inr w0"
      "startup_fn (set_timeout None w0) = Inr w1" "timely_run w1 [Slice_timer 0 0, Completed 1 0, Window_timer, Slice_timer 0 0] w3"
    and p: "tfd_active (mf_timer w3) \<and> \<not> frozen (proc_cgf (proc_at w3 (1, 1))) \<and> length (partitions w3) = 2 \<and>
      length (processes (partitions w3 ! 1)) = 2 \<and>
      schedule_of w3 = [(0, ''sc'', 5), (5, ''be 1'', 3), (7, ''be 2'', 4), (10, ''sc'', 5), (15, ''be 2'', 1)]"
    by (rule demo_schedE)
  have "w3 = w2" using r w2 by (simp add: demo_sched_def demo_boot_def timely_run_def)
  have "1 \<in> thawed (partitions w3 ! 1)" "1 < length (partitions w3)" using p by (auto simp: thawed_def proc_at_def)
  with conjunct1[OF scheduler_isolates_processes[OF r(1,2) demo_conf r(3,4) conjunct1[OF p]], rule_format, of 1 1]
  have "thawed (partitions w3 ! 1) = {1}" by blast
  with w2 \<open>w3 = w2\<close> show ?thesis by blast
qed

text \<open>
  C8. For a configuration with no partition in two slices of a window, in every run whose events are timely during the
  initialisation, the event loop is stopped exactly when no
  scheduled process is left: \<open>run\<close> neither returns while a process or one of its orphans exists, nor goes on after
  the last one has ended.
\<close>

theorem loop_stops_with_last_process:
  assumes "scheduler_new parts wins m1 m2 pp s = Inr w" and "sched_setup w = Inr w0" and "configured parts wins"
    and "startup_fn (set_timeout t w0) = Inr w1" and "timely_run w1 evs w2"
  shows "loop_stopped w2 \<longleftrightarrow> (\<forall>p \<in> set (partitions w2). \<forall>q \<in> set (processes p). \<not> is_spawned q)"
  using reached_ok[OF assms] by (auto simp: loop_ok_def counted_def all_ended_def)

lemma demo_end_ok:
  "succeeds (demo_sched demo_procs demo_wins [Child_terminated 1 0, Child_terminated 0 0, Child_terminated 1 1]) loop_stopped"
  by code_simp

theorem loop_stops_with_last_process_witness:
  "\<exists>w2. demo_sched demo_procs demo_wins [Child_terminated 1 0, Child_terminated 0 0, Child_terminated 1 1] = Inr w2 \<and>
     loop_stopped w2 \<and> (\<forall>p \<in> set (partitions w2). \<forall>q \<in> set (processes p). \<not> is_spawned q)"
proof -
  from demo_end_ok obtain w w0 w1 w2 where
    r: "scheduler_new (map demo_partition demo_procs) demo_wins [] [] PowerPolicy_None demo_os = Inr w" "sched_setup w = Inr w0"
      "startup_fn (set_timeout None w0) = Inr w1" "timely_run w1 [Child_terminated 1 0, Child_terminated 0 0, Child_terminated 1 1] w2"
    and p: "loop_stopped w2" by (rule demo_schedE)
  from r have "demo_sched demo_procs demo_wins [Child_terminated 1 0, Child_terminated 0 0, Child_terminated 1 1] = Inr w2"
    by (simp add: demo_sched_def demo_boot_def timely_run_def)
  with p loop_stops_with_last_process[OF r(1,2) demo_conf r(3,4)] show ?thesis by blast
qed

text \<open>
  C7. A stop signal that is handled after the initialisation is final, where no partition is in two slices of a window
  (\<open>configured\<close>) and the events of the initialisation were timely. It stops the windows, sends every process that
  is left the kill signal and thaws it so that it can die; from then on, in whatever way the event loop goes on, no
  window is ever started again and no timer of a slice or of the frame is set. (For a signal during the
  initialisation see \<open>signal_during_init_restarts\<close>.)
\<close>

theorem shutdown_is_final:
  assumes "scheduler_new parts wins m1 m2 pp s = Inr w" and "sched_setup w = Inr w0" and "configured parts wins"
    and "startup_fn (set_timeout t w0) = Inr w1" and "timely_run w1 evs w2"
    and "\<forall>p \<in> set (partitions w2). part_exit_cb p \<noteq> Exit_process_init"
    and "sched_trans w2 Signal w3" and "sched_run w3 evs' w4"
  shows "(\<forall>p \<in> set (partitions w3). \<forall>q \<in> set (processes p). is_spawned q \<longrightarrow> killed q \<and> \<not> frozen (proc_cgf q)) \<and>
    \<not> tfd_active (mf_timer w4) \<and>
    (\<forall>wi si. valid_slice wi si w4 \<longrightarrow> running_process (the_slice wi si w4) = None \<and> \<not> tfd_active (sl_timer (the_slice wi si w4)))"
proof -
  have ok: "phase_ok w2" "loop_ok w2" using reached_ok[OF assms(1-5)] by auto
  from assms(7) have sd: "initiate_shutdown w2 = Inr w3" by (auto simp: signal_cb_def elim: sched_transE)
  have "partitions w2 ! 0 \<in> set (partitions w2)" using ok(2) by (simp add: loop_ok_def life_def)
  with ok(1) assms(6) have ph: "phase_running w2 \<or> phase_shutdown w2"
    by (auto simp: phase_ok_def init_phase_def phase_init_def cbs_are_def)
  note st = initiate_shutdown_spec[OF sd ph]
  have "phase_shutdown w3 \<and> scheduling w3" using st ok(2) loop_ok_frame by (auto simp: scheduling_def)
  from shutdown_machine.run_inv[OF this] assms(8) have q: "phase_shutdown w4" by (simp add: sched_run_iff)
  have "killed q \<and> \<not> frozen (proc_cgf q)" if "p \<in> set (partitions w3)" "q \<in> set (processes p)" "is_spawned q" for p q
  proof -
    from that(1,2) obtain pi qi where "(pi, qi) \<in> procs w3" "q = proc_at w3 (pi, qi)"
      by (auto simp: procs_def proc_at_def in_set_conv_nth)
    with st that(3) show ?thesis by (auto simp: shutdown_done_def)
  qed
  moreover have "running_process (the_slice wi si w4) = None" if "valid_slice wi si w4" for wi si
    using q that by (auto simp: phase_shutdown_def frame_quiet_def resting_def valid_slice_def)
  ultimately show ?thesis using q running_shutdown_stopped[OF q] by (auto simp: phase_shutdown_def)
qed

lemma demo_shutdown_ok:
  "succeeds (demo_sched demo_procs demo_wins [Slice_timer 0 0, Signal, Child_terminated 0 0, Completed 1 0])
     (\<lambda>w. partitions w \<noteq> [])"
  "succeeds (demo_sched demo_procs demo_wins [Slice_timer 0 0]) (\<lambda>w. list_all (\<lambda>p. part_exit_cb p \<noteq> Exit_process_init) (partitions w))"
  by code_simp+

theorem shutdown_is_final_witness:
  "\<exists>w4. demo_sched demo_procs demo_wins [Slice_timer 0 0, Signal, Child_terminated 0 0, Completed 1 0] = Inr w4 \<and>
     \<not> tfd_active (mf_timer w4)"
proof -
  from demo_shutdown_ok(1) obtain w w0 w1 w4 where
    r: "scheduler_new (map demo_partition demo_procs) demo_wins [] [] PowerPolicy_None demo_os = Inr w" "sched_setup w = Inr w0"
      "startup_fn (set_timeout None w0) = Inr w1" "timely_run w1 [Slice_timer 0 0, Signal, Child_terminated 0 0, Completed 1 0] w4"
    by (rule demo_schedE)
  from r have run: "demo_sched demo_procs demo_wins [Slice_timer 0 0, Signal, Child_terminated 0 0, Completed 1 0] = Inr w4"
    by (simp add: demo_sched_def demo_boot_def timely_run_def)
  from r(4) obtain u v where u: "timely_run w1 [Slice_timer 0 0] u" "sched_trans u Signal v"
    and v: "timely_run v [Child_terminated 0 0, Completed 1 0] w4" by (auto simp: timely_run_Cons)
  have "demo_sched demo_procs demo_wins [Slice_timer 0 0] = Inr u"
    using r(1-3) u(1) by (simp add: demo_sched_def demo_boot_def timely_run_def)
  with demo_shutdown_ok(2) have "\<forall>p \<in> set (partitions u). part_exit_cb p \<noteq> Exit_process_init"
    by (simp add: succeeds_def list_all_iff)
  from shutdown_is_final[OF r(1,2) demo_conf r(3) u(1) this u(2) timely_run_run[OF v]] run show ?thesis by blast
qed

text \<open>
  C9. Initialisation, where no partition is in two slices of a window and some process asks for it:
  \<open>run_process_init\<close> thaws exactly the processes that ask for it. As long as it is under way, in
  every run in which the initialising processes report their completion or exit while they are thawed and no stop
  signal arrives (\<open>timely_run\<close>), the counter \<open>remaining_process_inits\<close> is the number of processes that still run, so
  that the windows are started with the last of them, and never before.
\<close>

theorem initialisation_counts_processes:
  assumes "scheduler_new parts wins m1 m2 pp s = Inr w" and "sched_setup w = Inr w0" and "configured parts wins"
    and "startup_fn (set_timeout t w0) = Inr w1" and "inits (set_timeout t w0) \<noteq> {}"
  shows "running w1 = inits (set_timeout t w0) \<and>
    (\<forall>evs w2. timely_run w1 evs w2 \<longrightarrow> (\<exists>p \<in> set (partitions w2). part_exit_cb p = Exit_process_init) \<longrightarrow>
       running w2 \<noteq> {} \<and> remaining_process_inits w2 = int (card (running w2)) \<and> running w2 \<subseteq> inits w2 \<and>
       \<not> tfd_active (mf_timer w2))"
proof -
  have 1: "running w1 = inits (set_timeout t w0)" using startup_ok[OF assms(4) scheduler_boots[OF assms(1-3)]] assms(5) by blast
  moreover have "running w2 \<noteq> {} \<and> remaining_process_inits w2 = int (card (running w2)) \<and> running w2 \<subseteq> inits w2 \<and>
       \<not> tfd_active (mf_timer w2)"
    if "timely_run w1 evs w2" "\<exists>p \<in> set (partitions w2). part_exit_cb p = Exit_process_init" for evs w2
    using reached_ok[OF assms(1-4) that(1)] that(2)
    by (auto simp: phase_ok_def phase_running_def phase_shutdown_def exits_are_def init_phase_def phase_init_def init_inv_def calm_def)
  ultimately show ?thesis by blast
qed

text \<open>Two partitions with a process that asks for initialisation each, of which only the first is scheduled.\<close>

definition init_procs :: "process list list" where
  "init_procs = [[new_process ''a'' 5 True], [new_process ''b'' 3 True]]"

definition init_wins :: "window list" where
  "init_wins = [demo_window 10 [demo_slice (Some 0) None]]"

lemma init_conf: "configured (map demo_partition init_procs) init_wins"
  by (simp add: configured_simps init_procs_def init_wins_def)

lemma init_run_ok:
  "succeeds (demo_sched init_procs init_wins [Completed 1 0]) (\<lambda>w. length (partitions w) = 2 \<and>
     list_all (\<lambda>p. part_exit_cb p = Exit_process_init) (partitions w))"
  by code_simp

lemma init_procs_inits:
  "scheduler_new (map demo_partition init_procs) init_wins [] [] PowerPolicy_None demo_os = Inr w \<Longrightarrow> sched_setup w = Inr w0 \<Longrightarrow>
   (0, 0) \<in> inits (set_timeout None w0)"
proof -
  assume "scheduler_new (map demo_partition init_procs) init_wins [] [] PowerPolicy_None demo_os = Inr w" "sched_setup w = Inr w0"
  moreover have "succeeds (demo_boot init_procs init_wins) (\<lambda>w. 0 < length (partitions w) \<and> 0 < length (processes (partitions w ! 0)) \<and>
      has_initialization (proc_at w (0, 0)))" by code_simp
  ultimately show ?thesis by (auto simp: demo_boot_def succeeds_def inits_def procs_def set_timeout_def proc_at_def)
qed

theorem initialisation_counts_processes_witness:
  "\<exists>w2. demo_sched init_procs init_wins [Completed 1 0] = Inr w2 \<and> remaining_process_inits w2 = int (card (running w2)) \<and>
     running w2 \<noteq> {}"
proof -
  from init_run_ok obtain w w0 w1 w2 where
    r: "scheduler_new (map demo_partition init_procs) init_wins [] [] PowerPolicy_None demo_os = Inr w" "sched_setup w = Inr w0"
      "startup_fn (set_timeout None w0) = Inr w1" "timely_run w1 [Completed 1 0] w2"
    and p: "length (partitions w2) = 2 \<and> list_all (\<lambda>p. part_exit_cb p = Exit_process_init) (partitions w2)"
    by (rule demo_schedE)
  from r have run: "demo_sched init_procs init_wins [Completed 1 0] = Inr w2"
    by (simp add: demo_sched_def demo_boot_def timely_run_def)
  have "partitions w2 ! 0 \<in> set (partitions w2)" using p by (cases "partitions w2") simp_all
  then have ex: "\<exists>p \<in> set (partitions w2). part_exit_cb p = Exit_process_init"
    by (rule bexI[rotated]) (use p \<open>partitions w2 ! 0 \<in> set (partitions w2)\<close> in \<open>simp add: list_all_iff\<close>)
  have "inits (set_timeout None w0) \<noteq> {}" using init_procs_inits[OF r(1,2)] by blast
  from conjunct2[OF initialisation_counts_processes[OF r(1,2) init_conf r(3) this], rule_format, OF r(4) ex] run
  show ?thesis by blast
qed

subsection \<open>Runs that go wrong\<close>

text \<open>
  The callback that ends the initialisation of a process, in any state: the process is frozen and the counter
  decremented, and where the counter was 1 the callback \<open>init_cb\<close> is called, on a state \<open>y\<close> that differs from the
  old one only in that process and in the callbacks of the partitions.
\<close>

definition same_but :: "(nat \<times> nat) set \<Rightarrow> scheduler \<Rightarrow> scheduler \<Rightarrow> bool" where
  "same_but P x y \<longleftrightarrow> windows y = windows x \<and> current_win y = current_win x \<and> sched_timeout y = sched_timeout x \<and>
     procs y = procs x \<and> (\<forall>pq \<in> procs x - P. proc_at y pq = proc_at x pq) \<and>
     (\<forall>pq \<in> procs x \<inter> P. killed (proc_at y pq) = killed (proc_at x pq))"

lemma same_parts:
  assumes "partitions y = map f (partitions x)" and "\<And>p. processes (f p) = processes p"
  shows "procs y = procs x" "pq \<in> procs x \<Longrightarrow> proc_at y pq = proc_at x pq" "running y = running x"
proof -
  have th: "thawed (f p) = thawed p" for p by (simp add: thawed_def assms(2))
  show "procs y = procs x" using assms by (auto simp: procs_def)
  show "proc_at y pq = proc_at x pq" if "pq \<in> procs x" using that assms by (auto simp: procs_def proc_at_def)
  show "running y = running x" using assms(1) th by (auto simp: running_def)
qed

lemma init_completion_step:
  fixes x :: scheduler
  assumes "process_init_completion_cb init_cb pi qi x = Inr w'"
  shows "\<exists>y. same_but {(pi, qi)} x y \<and> running y = running x - {(pi, qi)} \<and>
    (if remaining_process_inits x = 1 then init_cb y = Inr w'
     else w' = y \<and> remaining_process_inits y = remaining_process_inits x - 1 \<and> life y = life x)"
proof -
  from assms obtain u where u: "on_part pi (on_proc qi suspend) x = Inr u" and
    fin: "(let v = u\<lparr>remaining_process_inits := remaining_process_inits u - 1\<rparr> in
      if remaining_process_inits v = 0 then finish_process_init init_cb v else Inr v) = Inr w'"
    by (auto simp: process_init_completion_cb_def bindE_Inr_iff)
  from u obtain q s where pq: "(pi, qi) \<in> procs x" and q: "suspend (proc_at x (pi, qi)) (st_os x) = Inr (q, s)"
    and eq: "u = (upd_part pi (upd_proc qi (\<lambda>_. q)) x)\<lparr>st_os := s\<rparr>" by (rule on_part_proc)
  have q': "q = (proc_at x (pi, qi))\<lparr>proc_cgf := (proc_cgf (proc_at x (pi, qi)))\<lparr>frozen := True\<rparr>\<rparr>"
    using q by (auto simp: suspend_Inr)
  let ?v = "u\<lparr>remaining_process_inits := remaining_process_inits u - 1\<rparr>"
  have parts: "partitions ?v = (partitions x)[pi := upd_proc qi (\<lambda>_. q) (partitions x ! pi)]" by (simp add: eq upd_part_def)
  note v = upd_at[OF pq parts]
  have run: "running ?v = running x - {(pi, qi)}" using v(1) by (simp add: q')
  have conf: "map part_conf (partitions ?v) = map part_conf (partitions x)" by (rule v(3)) (simp add: q')
  note c = procs_conf[OF conf]
  have at: "proc_at ?v pj = (if pj = (pi, qi) then q else proc_at x pj)" if "pj \<in> procs x" for pj
    using that pq by (cases pj) (auto simp: procs_def proc_at_def parts nth_list_update upd_proc_nth)
  have same: "same_but {(pi, qi)} x ?v"
    using c(2) at pq by (simp add: same_but_def q' del: parts) (simp add: eq upd_part_def)
  show ?thesis
  proof (cases "remaining_process_inits x = 1")
    case True
    let ?f = "\<lambda>p. disconnect (set_process_exit_cb Exit_process p)"
    define y where "y = (set_exit_cb Exit_process ?v)\<lparr>partitions := map disconnect (partitions (set_exit_cb Exit_process ?v))\<rparr>"
    have parts: "partitions y = map ?f (partitions ?v)" by (simp add: y_def set_exit_cb_def comp_def)
    have "processes (?f p) = processes p" for p by (simp add: disconnect_def set_process_exit_cb_def)
    note y = same_parts[OF parts this]
    have "windows y = windows ?v" "current_win y = current_win ?v" "sched_timeout y = sched_timeout ?v"
      by (simp_all add: y_def set_exit_cb_def)
    then have "same_but {(pi, qi)} x y" using same y(1,2) unfolding same_but_def by (intro conjI ballI) auto
    moreover have "remaining_process_inits u = 1" using True by (simp add: eq upd_part_def)
    then have "init_cb y = Inr w'" using fin by (simp add: finish_process_init_def Let_def y_def)
    ultimately show ?thesis using True run y(3) by (intro exI[of _ y]) simp
  next
    case False
    have rem: "remaining_process_inits u = remaining_process_inits x" by (simp add: eq upd_part_def)
    with False fin have "w' = ?v" by (simp add: Let_def)
    moreover have "life ?v = life x" by (rule life_conf[OF conf])
    ultimately show ?thesis using False same run rem by (intro exI[of _ ?v]) simp
  qed
qed

text \<open>During the initialisation, a process that asked for it ends while it is, or is not, thawed.\<close>

lemma init_exit_step:
  assumes "sched_trans v (Child_terminated pi qi) w'" and ended: "child_terminated_cb (proc_at v (pi, qi)) (st_os v) = Inr (True, q, s)"
    and ex: "exits_are Exit_process_init v" and hi: "has_initialization (proc_at v (pi, qi))"
  shows "\<exists>y e. same_but {(pi, qi)} v y \<and> running y = running v - {(pi, qi)} \<and>
    (if remaining_process_inits v = 1 then bindE (start_scheduler y) (process_exit_cb sched_completion_cb e) = Inr w'
     else remaining_process_inits y = remaining_process_inits v - 1 \<and>
       process_exit_cb sched_completion_cb (part_empty (partitions y ! pi)) y = Inr w' \<and>
       life y = life (after_end pi qi True q s v))"
proof -
  from assms(1) have wt: "watched (Child_terminated pi qi) v" and step: "end_event child_terminated_cb pi qi v = Inr w'"
    by (auto elim: sched_transE)
  have pq: "(pi, qi) \<in> procs v" and cb: "end_cb child_terminated_cb (proc_at v (pi, qi))"
    using wt by (auto simp: procs_def proc_at_def end_cb_def)
  let ?u = "after_end pi qi True q s v"
  from step ended have go: "call_exit_cb start_scheduler sched_completion_cb pi qi ?u = Inr w'"
    by (cases rule: end_event_cases) auto
  note q = end_cb_Inr[OF ended cb] and pr = after_end_procs[OF pq, where e = True and q = q and s = s]
  have lt: "pi < length (partitions v)" using pq by (simp add: procs_def)
  have "part_exit_cb (partitions ?u ! pi) = Exit_process_init"
    using ex lt by (simp add: after_end_nth[OF pq] exits_are_def upd_proc_def)
  moreover have "needs_initialization (processes (partitions ?u ! pi) ! qi)"
    using pr(2)[OF pq] hi q by (simp add: needs_initialization_def proc_at_def)
  ultimately obtain v1 where v1: "process_init_completion_cb start_scheduler pi qi ?u = Inr v1"
    and tail: "process_exit_cb sched_completion_cb (part_empty (partitions ?u ! pi)) v1 = Inr w'"
    using go by (auto simp: call_exit_cb_def process_init_exit_cb_def bindE_Inr_iff)
  from init_completion_step[OF v1] obtain y where y: "same_but {(pi, qi)} ?u y" "running y = running ?u - {(pi, qi)}"
    and fin: "if remaining_process_inits ?u = 1 then start_scheduler y = Inr v1
      else v1 = y \<and> remaining_process_inits y = remaining_process_inits ?u - 1 \<and> life y = life ?u" by blast
  have thu: "thawed (partitions ?u ! pj) = thawed (partitions v ! pj)" if "pj < length (partitions v)" for pj
    using that lt q pq by (auto simp: after_end_nth[OF pq] thawed_upd_proc procs_def) (auto simp: thawed_def proc_at_def)
  then have ru: "running ?u = running v" by (auto simp: running_def)
  have kq: "killed q = killed (proc_at v (pi, qi))"
    using ended by (auto simp: child_terminated_cb_def handle_end_def bindE_Inr_iff Let_def split: if_splits)
  have sb: "same_but {(pi, qi)} v y"
    using y(1) pr kq sched_more(2)[of ?u v] pq by (auto simp: same_but_def)
  have rem: "remaining_process_inits ?u = remaining_process_inits v" by (rule sched_more(1)) simp
  show ?thesis
  proof (cases "remaining_process_inits v = 1")
    case True
    with fin rem tail have "bindE (start_scheduler y) (process_exit_cb sched_completion_cb (part_empty (partitions ?u ! pi))) = Inr w'"
      by simp
    with True sb y(2) ru show ?thesis by auto
  next
    case False
    with fin rem have eq: "v1 = y" "remaining_process_inits y = remaining_process_inits v - 1" "life y = life ?u" by auto
    have "length (partitions y) = length (partitions ?u)" using life_procs(1)[OF eq(3)] .
    then have "part_empty (partitions y ! pi) = part_empty (partitions ?u ! pi)"
      using arg_cong[OF eq(3), of "\<lambda>xs. snd (xs ! pi)"] lt by (simp add: life_def)
    with False sb y(2) ru eq tail show ?thesis by auto
  qed
qed

lemma init_under_way:
  assumes "scheduler_new parts wins m1 m2 pp s = Inr w" and "sched_setup w = Inr w0" and "configured parts wins"
    and "startup_fn (set_timeout t w0) = Inr w1" and "timely_run w1 evs u"
    and "\<exists>p \<in> set (partitions u). part_exit_cb p = Exit_process_init"
  shows "init_phase u" "loop_ok u"
  using reached_ok[OF assms(1-5)] assms(6) by (auto simp: phase_ok_def phase_running_def phase_shutdown_def exits_are_def)

text \<open>
  C39. An error of the initialisation (in any configuration with no partition in two slices of a window, after any timely
  beginning). Of several processes that initialise, one reports its completion and then exits,
  leaving its cgroup empty, before the others are done. The completion message is counted properly, but the exit
  that is handled after it decrements \<open>remaining_process_inits\<close> a second time. From then on the counter is one less
  than the number of processes that still initialise; and where only one was left, the scheduler is started
  while this one is still thawed.
\<close>

theorem init_exit_counted_twice:
  assumes "scheduler_new parts wins m1 m2 pp s = Inr w" and "sched_setup w = Inr w0" and "configured parts wins"
    and "startup_fn (set_timeout t w0) = Inr w1" and "timely_run w1 evs u"
    and "\<exists>p \<in> set (partitions u). part_exit_cb p = Exit_process_init"
    and "(pi, qi) \<in> running u" and "running u \<noteq> {(pi, qi)}" and "sched_trans u (Completed pi qi) v"
    and "child_terminated_cb (proc_at v (pi, qi)) (st_os v) = Inr (True, q, s')" and "sched_trans v (Child_terminated pi qi) w'"
  shows "running v = running u - {(pi, qi)} \<and> remaining_process_inits v = int (card (running v)) \<and>
    (if card (running v) = 1
     then \<exists>y e. same_but {(pi, qi)} v y \<and> running y = running v \<and>
       bindE (start_scheduler y) (process_exit_cb sched_completion_cb e) = Inr w'
     else running w' = running v \<and> remaining_process_inits w' = int (card (running w')) - 1)"
proof -
  note u = init_under_way[OF assms(1-6)]
  have tm: "timely (Completed pi qi) u"
    using assms(7) frozen_running[of pi qi u] running_procs[of u] by auto
  have run: "completed_event pi qi u = Inr v" using assms(9) by (auto elim: sched_transE)
  have ok: "\<forall>p \<in> set (partitions u). part_ok p" using u(1) by (simp add: init_phase_def phase_init_def init_inv_def)
  from run obtain x where pq: "(pi, qi) \<in> procs u" and x: "os_extends (st_os u) x"
    and go: "call_completed_cb pi qi (after_completed pi qi x u) = Inr v" by (rule completed_event_eq)
  let ?x = "after_completed pi qi x u"
  note fr = after_completed_frame[OF pq x ok]
  have ix: "init_phase ?x" by (rule after_completed_phase(3)[OF pq x ok u(1)])
  have lt: "pi < length (partitions ?x)" using pq procs_conf(1)[OF fr(5)] by (simp add: procs_def)
  from ix have xc: "calm ?x" "init_inv ?x" and "part_completed_cb (partitions ?x ! pi) = Cb_init"
    using lt by (auto simp: init_phase_def phase_init_def cbs_are_def)
  then have cb: "process_init_completion_cb start_scheduler pi qi ?x = Inr v" using go by (simp add: call_completed_cb_def)
  from process_init_completion_spec[OF cb xc] assms(7,8) fr(3) have
    v: "init_inv v" "running v = running u - {(pi, qi)}" "mgr_frame ?x v"
    by (auto split: if_splits)
  have vp: "phase_ok v \<and> loop_ok v" using sched_trans_ok[OF assms(9) tm] u by (auto simp: phase_ok_def)
  have conf: "map part_conf (partitions v) = map part_conf (partitions u)"
    using mgr_frame_conf(1)[OF v(3)] fr(5) by simp
  note c = procs_conf[OF conf]
  have ex: "exits_are Exit_process_init v"
    using init_phase_not(1)[OF u(1)] part_conf_dest(2)[OF c(5)] c(1) by (simp add: exits_are_def all_set_conv_all_nth)
  have hi: "has_initialization (proc_at v (pi, qi))"
  proof -
    have "(pi, qi) \<in> inits v" using assms(7) u(1) c(3) by (auto simp: init_phase_def phase_init_def init_inv_def)
    then show ?thesis by (simp add: inits_def)
  qed
  have rem: "remaining_process_inits v = int (card (running v))" using v(1) by (simp add: init_inv_def)
  have ne: "running v \<noteq> {}" using assms(7,8) v(2) by auto
  from init_exit_step[OF assms(11,10) ex hi] obtain y e where y: "same_but {(pi, qi)} v y" "running y = running v - {(pi, qi)}"
    and fin: "if remaining_process_inits v = 1 then bindE (start_scheduler y) (process_exit_cb sched_completion_cb e) = Inr w'
      else remaining_process_inits y = remaining_process_inits v - 1 \<and>
        process_exit_cb sched_completion_cb (part_empty (partitions y ! pi)) y = Inr w' \<and> life y = life (after_end pi qi True q s' v)" by blast
  have ry: "running y = running v" using y(2) v(2) by auto
  show ?thesis
  proof (cases "card (running v) = 1")
    case True
    then have "remaining_process_inits v = 1" using rem by simp
    with fin y(1) ry True v(2) rem show ?thesis by auto
  next
    case False
    then have "remaining_process_inits v \<noteq> 1" using rem by simp
    with fin have r: "remaining_process_inits y = remaining_process_inits v - 1" "life y = life (after_end pi qi True q s' v)"
      and tail: "process_exit_cb sched_completion_cb (part_empty (partitions y ! pi)) y = Inr w'" by auto
    have "\<not> all_ended y"
    proof
      assume "all_ended y"
      have iv: "init_phase v" using vp ex ne by (auto simp: phase_ok_def phase_running_def phase_shutdown_def exits_are_def running_def)
      from ne obtain pj where pj: "pj \<in> running v" by blast
      with iv have "is_spawned (proc_at v pj)" "pj \<in> procs v" using running_procs[of v] by (auto simp: init_phase_def)
      moreover have "pj \<noteq> (pi, qi)" using pj v(2) by auto
      ultimately have "is_spawned (proc_at y pj)" "pj \<in> procs y" using y(1) by (auto simp: same_but_def)
      moreover have cy: "counted y"
      proof -
        have "(pi, qi) \<in> procs v" "end_cb child_terminated_cb (proc_at v (pi, qi))"
          using assms(11) by (auto simp: procs_def proc_at_def end_cb_def elim!: sched_transE)
        from after_end_counted(1)[OF this(1) assms(10) this(2)] vp r(2) show ?thesis
          by (simp add: loop_ok_def counted_life)
      qed
      ultimately show False using all_ended_iff[OF cy] \<open>all_ended y\<close> by blast
    qed
    moreover have "pi < length (partitions y)"
      using y(1) pq c(2) by (auto simp: same_but_def procs_def)
    ultimately have "w' = y" using tail process_exit_cb_eq[of pi y sched_completion_cb] by simp
    with False r(1) ry v(2) rem show ?thesis by simp
  qed
qed

text \<open>Two partitions with one initialising process each, of which the first ends at once.\<close>

lemma init_twice_run:
  "succeeds (bindE (demo_boot init_procs init_wins) (\<lambda>w. startup_fn (set_timeout None w))) (\<lambda>u.
     map (\<lambda>p. (part_exit_cb p, map (\<lambda>q. frozen (proc_cgf q)) (processes p))) (partitions u) =
       [(Exit_process_init, [False]), (Exit_process_init, [False])] \<and>
     succeeds (sched_guarded (Completed 0 0) u) (\<lambda>v.
       succeeds (child_terminated_cb (proc_at v (0, 0)) (st_os v)) fst \<and>
       succeeds (sched_guarded (Child_terminated 0 0) v) (\<lambda>w. tfd_active (mf_timer w) \<and> \<not> frozen (proc_cgf (proc_at w (1, 0))))))"
  by code_simp

lemma two_thawed:
  assumes "map (\<lambda>p. (part_exit_cb p, map (\<lambda>q. frozen (proc_cgf q)) (processes p))) (partitions u) =
    [(Exit_process_init, [False]), (Exit_process_init, [False])]"
  shows "running u = {(0, 0), (1, 0)}" "\<exists>p \<in> set (partitions u). part_exit_cb p = Exit_process_init"
  using assms by (auto simp: running_def thawed_def map_eq_Cons_conv less_Suc_eq)

theorem init_exit_counted_twice_witness:
  "\<exists>v w' y e. sched_guarded (Child_terminated 0 0) v = Inr w' \<and> running y = {(1, 0)} \<and>
     bindE (start_scheduler y) (process_exit_cb sched_completion_cb e) = Inr w' \<and>
     tfd_active (mf_timer w') \<and> \<not> frozen (proc_cgf (proc_at w' (1, 0)))"
proof -
  let ?m = "\<lambda>u. map (\<lambda>p. (part_exit_cb p, map (\<lambda>q. frozen (proc_cgf q)) (processes p))) (partitions u) =
       [(Exit_process_init, [False]), (Exit_process_init, [False])]"
  let ?final = "\<lambda>w. tfd_active (mf_timer w) \<and> \<not> frozen (proc_cgf (proc_at w (1, 0)))"
  obtain u where b: "bindE (demo_boot init_procs init_wins) (\<lambda>w. startup_fn (set_timeout None w)) = Inr u"
    and u: "?m u \<and> succeeds (sched_guarded (Completed 0 0) u) (\<lambda>v. succeeds (child_terminated_cb (proc_at v (0, 0)) (st_os v)) fst \<and>
       succeeds (sched_guarded (Child_terminated 0 0) v) ?final)"
    using init_twice_run by (rule succeedsE)
  note m = conjunct1[OF u]
  from b obtain w w0 where
    r: "scheduler_new (map demo_partition init_procs) init_wins [] [] PowerPolicy_None demo_os = Inr w" "sched_setup w = Inr w0"
      "startup_fn (set_timeout None w0) = Inr u" by (auto simp: demo_boot_def bindE_Inr_iff)
  obtain v where c0: "sched_guarded (Completed 0 0) u = Inr v"
    and v: "succeeds (child_terminated_cb (proc_at v (0, 0)) (st_os v)) fst \<and> succeeds (sched_guarded (Child_terminated 0 0) v) ?final"
    using conjunct2[OF u] by (rule succeedsE)
  then have c: "sched_trans u (Completed 0 0) v" by (simp add: sched_trans_iff)
  obtain qs where "child_terminated_cb (proc_at v (0, 0)) (st_os v) = Inr qs" "fst qs"
    using conjunct1[OF v] by (rule succeedsE)
  then obtain q s where e: "child_terminated_cb (proc_at v (0, 0)) (st_os v) = Inr (True, q, s)" by (cases qs) auto
  obtain w' where x0: "sched_guarded (Child_terminated 0 0) v = Inr w'" and p: "?final w'"
    using conjunct2[OF v] by (rule succeedsE)
  then have x: "sched_trans v (Child_terminated 0 0) w'" by (simp add: sched_trans_iff)
  note u = two_thawed[OF m]
  have "running u \<noteq> {(0, 0)}" "(0, 0) \<in> running u" using u(1) by auto
  note st = init_exit_counted_twice[OF r(1,2) init_conf r(3) timely_run_Nil[THEN iffD2, OF HOL.refl] u(2) this(2,1) c e x]
  then have rv: "running v = {(1, 0)}" using u(1) by auto
  then have "card (running v) = 1" by simp
  with st rv obtain y e where "running y = {(1, 0)}" "bindE (start_scheduler y) (process_exit_cb sched_completion_cb e) = Inr w'"
    by auto
  with x p show ?thesis by (auto simp: sched_trans_iff)
qed

lemma mf_stop_calm:
  assumes "calm w"
  shows "mf_stop t w = Inr (disconnect_parts (window_parts (current_win w) w) (w\<lparr>mf_timer := timer_stop (mf_timer w)\<rparr>))"
proof -
  let ?w = "w\<lparr>mf_timer := timer_stop (mf_timer w)\<rparr>"
  have c: "current_win w < length (windows w)" and r: "resting (current_win w) w" and wf: "window_wf (current_win w) w"
    using assms by (auto simp: calm_def)
  have "resting (current_win w) ?w" "window_wf (current_win w) ?w"
    using r wf by (simp_all add: resting_def window_wf_def valid_slice_def the_slice_def)
  from window_stop_resting[OF this, of t] c show ?thesis
    by (simp add: mf_stop_def Let_def window_parts_def the_slice_def)
qed


text \<open>A partition with an initialising process and one that does not initialise, which outlives the other.\<close>

definition kill_procs :: "process list list" where
  "kill_procs = [[new_process ''a'' 5 True, new_process ''b'' 5 False]]"

lemma kill_conf: "configured (map demo_partition kill_procs) init_wins"
  by (simp add: configured_simps kill_procs_def init_wins_def)

lemma signal_run:
  "succeeds (bindE (demo_boot kill_procs init_wins) (\<lambda>w. startup_fn (set_timeout None w))) (\<lambda>u.
     map (\<lambda>p. (part_exit_cb p, map (\<lambda>q. frozen (proc_cgf q)) (processes p))) (partitions u) = [(Exit_process_init, [False, True])] \<and>
     succeeds (sched_guarded Signal u) (\<lambda>v. succeeds (child_terminated_cb (proc_at v (0, 0)) (st_os v)) fst \<and>
       succeeds (sched_guarded (Child_terminated 0 0) v) (\<lambda>w. tfd_active (mf_timer w) \<and> is_spawned (proc_at w (0, 1)) \<and>
         killed (proc_at w (0, 1)) \<and> running_process (the_slice 0 0 w) = Some 1)))"
  by code_simp

lemma one_thawed:
  assumes "map (\<lambda>p. (part_exit_cb p, map (\<lambda>q. frozen (proc_cgf q)) (processes p))) (partitions u) = [(Exit_process_init, [False, True])]"
  shows "running u = {(0, 0)}" "\<exists>p \<in> set (partitions u). part_exit_cb p = Exit_process_init"
  using assms by (auto simp: running_def thawed_def map_eq_Cons_conv less_Suc_eq)


subsection \<open>The schedules of the test suite\<close>

text \<open>
  Five of the schedules that \<open>src/test/0300-schedule.bats\<close> expects, over 20 ms: safety critical processes start
  afresh in every window, a best-effort process goes on with what was left of its budget, and best-effort
  partitions wait until every safety critical partition of the window is finished.
  Processes that never complete nor exit are driven by timers alone. The loop serves the timer that
  expires first, the window timer before those of the slices, which have a lower priority, until
  the horizon. A slice timer whose priority is as low but which expires earlier is served first.
\<close>

definition timers :: "scheduler \<Rightarrow> (int \<times> sched_event) list" where
  "timers w = (if tfd_active (mf_timer w) then [(timespec_ns (tfd_value (mf_timer w)), Window_timer)] else []) @
     concat (map (\<lambda>wi. concat (map (\<lambda>si. if tfd_active (sl_timer (the_slice wi si w))
         then [(timespec_ns (tfd_value (sl_timer (the_slice wi si w))), Slice_timer wi si)] else [])
       [0..<length (slices (windows w ! wi))])) [0..<length (windows w)])"

fun first_timer :: "(int \<times> sched_event) list \<Rightarrow> (int \<times> sched_event) option" where
  "first_timer [] = None"
| "first_timer (x # xs) = (case first_timer xs of None \<Rightarrow> Some x | Some y \<Rightarrow> if fst y < fst x then Some y else Some x)"

fun run_timers :: "nat \<Rightarrow> time_point \<Rightarrow> scheduler \<Rightarrow> scheduler result" where
  "run_timers 0 horizon w = Inl Out_of_fuel"
| "run_timers (Suc n) horizon w = (case first_timer (timers w) of
     None \<Rightarrow> Inr w
   | Some (t, ev) \<Rightarrow> if horizon < t then Inr w else bindE (sched_guarded ev w) (run_timers n horizon))"

definition test_schedule :: "process list list \<Rightarrow> window list \<Rightarrow> (int \<times> string \<times> int) list option" where
  "test_schedule pss wins = (case bindE (demo_boot pss wins) (\<lambda>w. bindE (startup_fn w) (run_timers 30 20000000)) of
     Inl _ \<Rightarrow> None | Inr w \<Rightarrow> Some (schedule_of w))"

lemma test_two_sc:
  "test_schedule [[new_process ''dummy 1'' 2 False, new_process ''dummy 2'' 3 False]] [demo_window 10 [demo_slice (Some 0) None]] =
     Some [(0, ''dummy 1'', 2), (2, ''dummy 2'', 3), (10, ''dummy 1'', 2), (12, ''dummy 2'', 3), (20, ''dummy 1'', 2)]"
  by code_simp

lemma test_sc_longer_than_window:
  "test_schedule [[new_process ''dummy'' 15 False]] [demo_window 10 [demo_slice (Some 0) None]] =
     Some [(0, ''dummy'', 15), (10, ''dummy'', 15), (20, ''dummy'', 15)]"
  by code_simp

lemma test_be_longer_than_window:
  "test_schedule [[new_process ''dummy'' 15 False]] [demo_window 10 [demo_slice None (Some 0)]] =
     Some [(0, ''dummy'', 15), (10, ''dummy'', 5), (20, ''dummy'', 15)]"
  by code_simp

lemma test_be_after_all_sc:
  "test_schedule [[new_process ''SC1'' 5 False], [new_process ''SC2'' 3 False], [new_process ''BE'' 2 False]]
     [demo_window 10 [demo_slice (Some 0) None, demo_slice (Some 1) (Some 2)]] =
     Some [(0, ''SC1'', 5), (0, ''SC2'', 3), (5, ''BE'', 2), (10, ''SC1'', 5), (10, ''SC2'', 3), (15, ''BE'', 2),
       (20, ''SC1'', 5), (20, ''SC2'', 3)]"
  by code_simp

lemma test_be_in_two_windows:
  "test_schedule [[new_process ''BE'' 9 False]] [demo_window 2 [demo_slice None (Some 0)], demo_window 3 [demo_slice None (Some 0)]] =
     Some [(0, ''BE'', 9), (2, ''BE'', 7), (5, ''BE'', 4), (7, ''BE'', 2), (10, ''BE'', 9), (12, ''BE'', 7), (15, ''BE'', 4),
       (17, ''BE'', 2), (20, ''BE'', 9)]"
  by code_simp

end
