(* ===== verification/Demos_Config.thy ===== *)
theory Demos_Config
  imports Floats Scheduler_Runs
begin

text \<open>
  The configuration (\<open>src/src/config.cpp\<close>, \<open>src/src/config.hpp\<close>). A document is a tree of the node
  kinds of YAML; a missing node is \<open>None\<close>. The conversions \<open>node.as<T>()\<close> and the text of a \<open>double\<close> belong
  to yaml-cpp and are parameters (\<open>yaml_cpp\<close>); what is relied on is stated by \<open>yaml_ok\<close>. The canonical
  tree that \<open>normalize\<close> builds is a record per kind of definition: a member that may be absent is an
  \<open>option\<close>, a node to which nothing was pushed (null) is the empty list.
\<close>

subsection \<open>Documents\<close>

datatype yaml =
    Null
  | Scalar string
  | Sequence "yaml list"
  | Map "(yaml \<times> yaml) list"

record yaml_cpp =
  conv_string :: "yaml \<Rightarrow> string option"
  conv_int :: "yaml \<Rightarrow> int option"
  conv_bool :: "yaml \<Rightarrow> bool option"
  conv_double :: "yaml \<Rightarrow> flt option"
  double_text :: "flt \<Rightarrow> string"

text \<open>\<open>node.as<T>()\<close>: a bad conversion and a missing node throw.\<close>

definition converted :: "(yaml \<Rightarrow> 'a option) \<Rightarrow> yaml option \<Rightarrow> 'a result" where
  "converted conv n = (case n of None \<Rightarrow> Inl (Runtime_error ''invalid node'')
     | Some n \<Rightarrow> (case conv n of None \<Rightarrow> Inl (Runtime_error ''bad conversion'') | Some x \<Rightarrow> Inr x))"

text \<open>\<open>node[key]\<close>: the first entry whose key reads as \<open>key\<close>; a scalar cannot be subscripted.\<close>

definition map_get :: "yaml_cpp \<Rightarrow> string \<Rightarrow> (yaml \<times> yaml) list \<Rightarrow> yaml option" where
  "map_get Y k kvs = map_option snd (find (\<lambda>kv. conv_string Y (fst kv) = Some k) kvs)"

fun subscript :: "yaml_cpp \<Rightarrow> yaml \<Rightarrow> string \<Rightarrow> yaml option result" where
  "subscript Y (Map kvs) k = Inr (map_get Y k kvs)"
| "subscript Y (Scalar s) k = Inl (Runtime_error ''bad subscript'')"
| "subscript Y _ k = Inr None"

definition subscript_as :: "yaml_cpp \<Rightarrow> (yaml \<Rightarrow> 'a option) \<Rightarrow> yaml \<Rightarrow> string \<Rightarrow> 'a result" where
  "subscript_as Y conv n k = bindE (subscript Y n k) (converted conv)"

text \<open>
  \<open>for (const auto &key : node)\<close> with \<open>key.first\<close> and \<open>key.second\<close>: an element of a sequence has no key,
  reading it throws.
\<close>

fun entries :: "yaml \<Rightarrow> (yaml \<times> yaml) list result" where
  "entries (Map kvs) = Inr kvs"
| "entries (Sequence (y # ys)) = Inl (Runtime_error ''invalid node'')"
| "entries _ = Inr []"

text \<open>
  \<open>for (const auto &x : node)\<close> where the elements are used as nodes: a pair of a map is not a valid
  node, and every loop body of the program throws on it.
\<close>

fun elements :: "yaml option \<Rightarrow> yaml list result" where
  "elements (Some (Sequence ys)) = Inr ys"
| "elements (Some (Map (kv # kvs))) = Inl (Runtime_error ''invalid node'')"
| "elements _ = Inr []"

text \<open>\<open>node.remove(key)\<close>.\<close>

fun remove_key :: "yaml_cpp \<Rightarrow> string \<Rightarrow> (yaml \<times> yaml) list \<Rightarrow> (yaml \<times> yaml) list" where
  "remove_key Y k [] = []"
| "remove_key Y k (kv # kvs) = (if conv_string Y (fst kv) = Some k then kvs else kv # remove_key Y k kvs)"

definition unexpected_key :: "string \<Rightarrow> 'a result" where
  "unexpected_key k = Inl (Runtime_error (''Unexpected config key: '' @ k))"

subsection \<open>CPU sets\<close>

text \<open>\<open>parse_cpu_set\<close>; \<open>all_cpus\<close> is the value for \<open>all\<close>.\<close>

definition parse_cpu_set :: "string \<Rightarrow> cpu_set \<Rightarrow> cpu_set result" where
  "parse_cpu_set cpulist all_cpus =
     (if cpulist = ''all'' then Inr all_cpus else cpu_set_of_string cpulist False)"

subsection \<open>Processes\<close>

record norm_process =
  np_cmd :: "string option"
  np_budget :: "int option"
  np_jitter :: "int option"
  np_init :: "bool option"
  np_frequency :: "flt option"

definition empty_process :: norm_process where
  "empty_process = \<lparr>np_cmd = None, np_budget = None, np_jitter = None, np_init = None, np_frequency = None\<rparr>"

definition process_key :: "yaml_cpp \<Rightarrow> yaml \<Rightarrow> yaml \<times> yaml \<Rightarrow> norm_process \<Rightarrow> norm_process result" where
  "process_key Y proc key r =
     bindE (converted (conv_string Y) (Some (fst key))) (\<lambda>k.
     if k = ''cmd'' then bindE (subscript_as Y (conv_string Y) proc k) (\<lambda>s. Inr (r\<lparr>np_cmd := Some s\<rparr>))
     else if k = ''budget'' then bindE (subscript_as Y (conv_int Y) proc k) (\<lambda>i. Inr (r\<lparr>np_budget := Some i\<rparr>))
     else if k = ''jitter'' then bindE (subscript_as Y (conv_int Y) proc k) (\<lambda>i. Inr (r\<lparr>np_jitter := Some i\<rparr>))
     else if k = ''init'' then bindE (subscript_as Y (conv_bool Y) proc k) (\<lambda>b. Inr (r\<lparr>np_init := Some b\<rparr>))
     else if k = ''frequency'' then bindE (subscript_as Y (conv_double Y) proc k) (\<lambda>d. Inr (r\<lparr>np_frequency := Some d\<rparr>))
     else unexpected_key k)"

text \<open>The part before the defaults: a scalar is the command.\<close>

definition read_process :: "yaml_cpp \<Rightarrow> yaml \<Rightarrow> norm_process result" where
  "read_process Y proc =
     (case proc of
        Scalar s \<Rightarrow> bindE (converted (conv_string Y) (Some proc)) (\<lambda>c. Inr (empty_process\<lparr>np_cmd := Some c\<rparr>))
      | _ \<Rightarrow> bindE (entries proc) (\<lambda>kvs. foldE (process_key Y proc) kvs empty_process))"

definition int_max :: int where
  "int_max = 2147483647"

definition int_of_float :: "flt \<Rightarrow> int result" where
  "int_of_float = convert_to_int (- int_max - 1) int_max"

text \<open>\<open>2 * budget\<close> is computed in \<open>int\<close>.\<close>

definition check_jitter :: "int \<Rightarrow> int \<Rightarrow> int result" where
  "check_jitter b jitter =
     (if jitter < 0 then Inl (Runtime_error ''Jitter must be a non-negative time duration in milliseconds'')
      else if 2 * b > int_max then Inl (Undefined_behaviour ''signed overflow of 2 * budget'')
      else if jitter > 2 * b then Inl (Runtime_error ''`budget - jitter / 2` must be >= 0'')
      else Inr jitter)"

definition normalize_process :: "yaml_cpp \<Rightarrow> yaml \<Rightarrow> flt \<Rightarrow> norm_process result" where
  "normalize_process Y proc default_budget =
     bindE (read_process Y proc) (\<lambda>r.
     bindE (case np_budget r of
        None \<Rightarrow> if isnan default_budget then Inl (Runtime_error ''Missing budget in process definition'')
                else int_of_float default_budget
      | Some b \<Rightarrow> Inr b) (\<lambda>b.
     if b \<le> 0 then Inl (Runtime_error ''Process budget must be a positive time duration in milliseconds'')
     else
     bindE (case np_jitter r of None \<Rightarrow> Inr 0 | Some j \<Rightarrow> check_jitter b j) (\<lambda>j.
     Inr (r\<lparr>np_budget := Some b, np_jitter := Some j,
            np_init := Some (case np_init r of None \<Rightarrow> False | Some i \<Rightarrow> i)\<rparr>))))"

text \<open>The loop that pushes a converted node per element.\<close>

fun traverse :: "('a \<Rightarrow> 'b result) \<Rightarrow> 'a list \<Rightarrow> 'b list result" where
  "traverse f [] = Inr []"
| "traverse f (x # xs) = bindE (f x) (\<lambda>y. bindE (traverse f xs) (\<lambda>ys. Inr (y # ys)))"

definition normalize_processes :: "yaml_cpp \<Rightarrow> yaml \<Rightarrow> flt \<Rightarrow> norm_process list result" where
  "normalize_processes Y ps total_budget =
     (case ps of
        Sequence ys \<Rightarrow> traverse (\<lambda>p. normalize_process Y p
            (flt_divide 24 total_budget (float_of_int (int (length ys))))) ys
      | _ \<Rightarrow> bindE (normalize_process Y ps total_budget) (\<lambda>p. Inr [p]))"

subsection \<open>Partitions\<close>

record norm_partition =
  nq_name :: string
  nq_processes :: "norm_process list"

definition anonymous_name :: "nat \<Rightarrow> string" where
  "anonymous_name n = ''anonymous_'' @ nat_to_dec n"

definition single_process_keys :: "string list" where
  "single_process_keys = [''cmd'', ''budget'', ''jitter'', ''init'', ''_a53_freq'', ''_a72_freq'']"

text \<open>One key of a partition definition: the name and the processes read so far.\<close>

definition partition_key ::
  "yaml_cpp \<Rightarrow> yaml \<Rightarrow> flt \<Rightarrow> yaml \<times> yaml \<Rightarrow> string option \<times> norm_process list \<Rightarrow> (string option \<times> norm_process list) result" where
  "partition_key Y part total_budget key = (\<lambda>(name, procs).
     bindE (converted (conv_string Y) (Some (fst key))) (\<lambda>k.
     if k = ''name'' then bindE (subscript_as Y (conv_string Y) part k) (\<lambda>s. Inr (Some s, procs))
     else if k = ''processes'' then bindE (subscript Y part k) (\<lambda>n.
          (case n of None \<Rightarrow> Inl (Runtime_error ''invalid node'')
           | Some n \<Rightarrow> bindE (normalize_processes Y n total_budget) (\<lambda>procs. Inr (name, procs))))
     else if k \<in> set single_process_keys then Inr (name, procs)
     else unexpected_key k))"

text \<open>The keys of a single process that stands for the whole partition.\<close>

fun select_keys :: "yaml_cpp \<Rightarrow> yaml \<Rightarrow> string list \<Rightarrow> (yaml \<times> yaml) list result" where
  "select_keys Y n [] = Inr []"
| "select_keys Y n (k # ks) =
     bindE (subscript Y n k) (\<lambda>v. bindE (select_keys Y n ks) (\<lambda>kvs.
     Inr (case v of None \<Rightarrow> kvs | Some x \<Rightarrow> (Scalar k, x) # kvs)))"

definition node_of :: "(yaml \<times> yaml) list \<Rightarrow> yaml" where
  "node_of kvs = (if kvs = [] then Null else Map kvs)"

definition normalize_partition ::
  "yaml_cpp \<Rightarrow> yaml \<Rightarrow> flt \<Rightarrow> nat \<Rightarrow> (norm_partition \<times> nat) result" where
  "normalize_partition Y part total_budget counter =
     bindE (case part of
        Sequence ys \<Rightarrow> bindE (normalize_processes Y part total_budget) (\<lambda>ps. Inr (None, ps))
      | Map kvs \<Rightarrow> foldE (partition_key Y part total_budget) kvs (None, [])
      | _ \<Rightarrow> Inr (None, [])) (\<lambda>(name, procs).
     let (name, counter) = (case name of Some s \<Rightarrow> (s, counter) | None \<Rightarrow> (anonymous_name counter, Suc counter)) in
     bindE (if procs = []
            then bindE (select_keys Y part single_process_keys) (\<lambda>kvs.
                 bindE (normalize_process Y (node_of kvs) total_budget) (\<lambda>p. Inr [p]))
            else Inr procs) (\<lambda>procs.
     Inr (\<lparr>nq_name = name, nq_processes = procs\<rparr>, counter)))"

text \<open>The partitions defined so far and the counter of anonymous ones.\<close>

type_synonym part_defs = "norm_partition list \<times> nat"

definition define_partition :: "yaml_cpp \<Rightarrow> yaml \<Rightarrow> flt \<Rightarrow> part_defs \<Rightarrow> (string \<times> part_defs) result" where
  "define_partition Y part total_budget = (\<lambda>(defs, counter).
     bindE (normalize_partition Y part total_budget counter) (\<lambda>(p, counter).
     Inr (nq_name p, defs @ [p], counter)))"

definition process_xx_partition_and_get_name ::
  "yaml_cpp \<Rightarrow> yaml \<Rightarrow> flt \<Rightarrow> part_defs \<Rightarrow> (string \<times> part_defs) result" where
  "process_xx_partition_and_get_name Y part total_budget defs =
     (case part of
        Scalar s \<Rightarrow> bindE (converted (conv_string Y) (Some part)) (\<lambda>name. Inr (name, defs))
      | _ \<Rightarrow> define_partition Y part total_budget defs)"

definition process_xx_processes_and_get_name ::
  "yaml_cpp \<Rightarrow> yaml \<Rightarrow> flt \<Rightarrow> part_defs \<Rightarrow> (string \<times> part_defs) result" where
  "process_xx_processes_and_get_name Y ps total_budget defs =
     define_partition Y (Map [(Scalar ''processes'', ps)]) total_budget defs"

subsection \<open>Slices\<close>

record norm_slice =
  ns_cpu :: "string option"
  ns_frequency :: "flt option"
  ns_sc :: "string option"
  ns_be :: "string option"

definition sc_share :: flt where
  "sc_share = Finite (round_to 24 (6 / 10))"

definition be_share :: flt where
  "be_share = Finite 1"

text \<open>The value \<open>n\<close> of the key \<open>k\<close>; \<open>sc_share\<close> and \<open>be_share\<close> of the window are the default budgets.\<close>

definition slice_value ::
  "yaml_cpp \<Rightarrow> string \<Rightarrow> yaml \<Rightarrow> flt \<Rightarrow> norm_slice \<times> part_defs \<Rightarrow> (norm_slice \<times> part_defs) result" where
  "slice_value Y k n win_len = (\<lambda>(r, defs).
     if k = ''cpu'' then bindE (converted (conv_string Y) (Some n)) (\<lambda>s. Inr (r\<lparr>ns_cpu := Some s\<rparr>, defs))
     else if k = ''frequency'' then bindE (converted (conv_double Y) (Some n)) (\<lambda>d. Inr (r\<lparr>ns_frequency := Some d\<rparr>, defs))
     else if k = ''sc_partition'' then
          bindE (process_xx_partition_and_get_name Y n (flt_mult 24 win_len sc_share) defs) (\<lambda>(name, defs).
          Inr (r\<lparr>ns_sc := Some name\<rparr>, defs))
     else if k = ''be_partition'' then
          bindE (process_xx_partition_and_get_name Y n (flt_mult 24 win_len be_share) defs) (\<lambda>(name, defs).
          Inr (r\<lparr>ns_be := Some name\<rparr>, defs))
     else if k = ''sc_processes'' then
          bindE (process_xx_processes_and_get_name Y n (flt_mult 24 win_len sc_share) defs) (\<lambda>(name, defs).
          Inr (r\<lparr>ns_sc := Some name\<rparr>, defs))
     else if k = ''be_processes'' then
          bindE (process_xx_processes_and_get_name Y n (flt_mult 24 win_len be_share) defs) (\<lambda>(name, defs).
          Inr (r\<lparr>ns_be := Some name\<rparr>, defs))
     else unexpected_key k)"

definition slice_key ::
  "yaml_cpp \<Rightarrow> yaml \<Rightarrow> flt \<Rightarrow> yaml \<times> yaml \<Rightarrow> norm_slice \<times> part_defs \<Rightarrow> (norm_slice \<times> part_defs) result" where
  "slice_key Y sl win_len key st =
     bindE (converted (conv_string Y) (Some (fst key))) (\<lambda>k.
     bindE (subscript Y sl k) (\<lambda>n.
     case n of None \<Rightarrow> Inl (Runtime_error ''invalid node'') | Some n \<Rightarrow> slice_value Y k n win_len st))"

definition normalize_slice :: "yaml_cpp \<Rightarrow> yaml \<Rightarrow> flt \<Rightarrow> part_defs \<Rightarrow> (norm_slice \<times> part_defs) result" where
  "normalize_slice Y sl win_len defs =
     bindE (entries sl) (\<lambda>kvs.
     bindE (foldE (slice_key Y sl win_len) kvs
              (\<lparr>ns_cpu = None, ns_frequency = None, ns_sc = None, ns_be = None\<rparr>, defs)) (\<lambda>(r, defs).
     case ns_cpu r of
       None \<Rightarrow> Inl (Runtime_error ''Missing cpu set in slice definition (`cpu` property)'')
     | Some cpu \<Rightarrow> bindE (parse_cpu_set cpu 0) (\<lambda>_. Inr (r, defs))))"

subsection \<open>Windows\<close>

record norm_window =
  nw_length :: int
  nw_slices :: "norm_slice list option"

definition has_key :: "yaml_cpp \<Rightarrow> yaml \<Rightarrow> string \<Rightarrow> bool" where
  "has_key Y n k = (case subscript Y n k of Inr (Some _) \<Rightarrow> True | _ \<Rightarrow> False)"

definition inline_slice_keys :: "string list" where
  "inline_slice_keys = [''cpu'', ''sc_partition'', ''be_partition'', ''sc_processes'', ''be_processes'']"

fun normalize_slices :: "yaml_cpp \<Rightarrow> flt \<Rightarrow> yaml list \<Rightarrow> part_defs \<Rightarrow> (norm_slice list \<times> part_defs) result" where
  "normalize_slices Y win_len [] defs = Inr ([], defs)"
| "normalize_slices Y win_len (y # ys) defs =
     bindE (normalize_slice Y y win_len defs) (\<lambda>(sl, defs).
     bindE (normalize_slices Y win_len ys defs) (\<lambda>(sls, defs). Inr (sl # sls, defs)))"

definition window_key ::
  "yaml_cpp \<Rightarrow> yaml \<Rightarrow> int \<Rightarrow> yaml \<times> yaml \<Rightarrow> norm_window \<times> part_defs \<Rightarrow> (norm_window \<times> part_defs) result" where
  "window_key Y win win_len key = (\<lambda>(r, defs).
     bindE (converted (conv_string Y) (Some (fst key))) (\<lambda>k.
     if k = ''length'' then Inr (r\<lparr>nw_length := win_len\<rparr>, defs)
     else if k = ''slices'' then
          bindE (subscript Y win k) (\<lambda>n.
          bindE (elements n) (\<lambda>ys.
          bindE (normalize_slices Y (float_of_int win_len) ys defs) (\<lambda>(sls, defs).
          Inr (r\<lparr>nw_slices := Some sls\<rparr>, defs))))
     else if k \<in> set inline_slice_keys then Inr (r, defs)
     else unexpected_key k))"

text \<open>The slice defined inline in the window; a missing \<open>cpu\<close> means all CPUs.\<close>

definition inline_slice :: "yaml_cpp \<Rightarrow> yaml \<Rightarrow> yaml result" where
  "inline_slice Y win =
     bindE (select_keys Y win inline_slice_keys) (\<lambda>kvs.
     Inr (node_of (if has_key Y win ''cpu'' then kvs else (Scalar ''cpu'', Scalar ''all'') # kvs)))"

definition check_window_keys :: "yaml_cpp \<Rightarrow> yaml \<Rightarrow> unit result" where
  "check_window_keys Y win =
     (let has = has_key Y win in
      if has ''slices'' \<and> (has ''sc_partition'' \<or> has ''be_partition'')
      then Inl (Runtime_error ''Cannot have both slices and *_partition in window definition'')
      else if has ''slices'' \<and> has ''cpu''
      then Inl (Runtime_error ''Cannot have both slices and cpu in window definition'')
      else if has ''slices'' \<and> (has ''sc_processes'' \<or> has ''be_processes'')
      then Inl (Runtime_error ''Cannot have both slices and *_processes in window definition'')
      else if has ''sc_partition'' \<and> has ''sc_processes'' \<or> has ''be_partition'' \<and> has ''be_processes''
      then Inl (Runtime_error ''Cannot have both *_partition and *_processes in the same window'')
      else Inr ())"

definition normalize_window :: "yaml_cpp \<Rightarrow> yaml \<Rightarrow> part_defs \<Rightarrow> (norm_window \<times> part_defs) result" where
  "normalize_window Y win defs =
     bindE (subscript_as Y (conv_int Y) win ''length'') (\<lambda>win_len.
     bindE (check_window_keys Y win) (\<lambda>_.
     bindE (entries win) (\<lambda>kvs.
     bindE (foldE (window_key Y win win_len) kvs (\<lparr>nw_length = win_len, nw_slices = None\<rparr>, defs)) (\<lambda>(r, defs).
     if length kvs = 1 \<and> has_key Y win ''length'' then Inr (r, defs)
     else case nw_slices r of
       Some sls \<Rightarrow> Inr (r, defs)
     | None \<Rightarrow>
         bindE (inline_slice Y win) (\<lambda>sl.
         bindE (normalize_slice Y sl (float_of_int win_len) defs) (\<lambda>(sl, defs).
         Inr (r\<lparr>nw_slices := Some [sl]\<rparr>, defs)))))))"

fun normalize_windows :: "yaml_cpp \<Rightarrow> yaml list \<Rightarrow> part_defs \<Rightarrow> (norm_window list \<times> part_defs) result" where
  "normalize_windows Y [] defs = Inr ([], defs)"
| "normalize_windows Y (y # ys) defs =
     bindE (normalize_window Y y defs) (\<lambda>(w, defs).
     bindE (normalize_windows Y ys defs) (\<lambda>(ws, defs). Inr (w # ws, defs)))"

fun normalize_partitions :: "yaml_cpp \<Rightarrow> yaml list \<Rightarrow> part_defs \<Rightarrow> part_defs result" where
  "normalize_partitions Y [] defs = Inr defs"
| "normalize_partitions Y (y # ys) defs =
     bindE (define_partition Y y Non_finite defs) (\<lambda>(name, defs). normalize_partitions Y ys defs)"

subsection \<open>The whole configuration\<close>

record norm_config =
  nc_set_cwd :: bool
  nc_demos_cpu :: string
  nc_partitions :: "norm_partition list"
  nc_windows :: "norm_window list"

abbreviation win_slices :: "norm_window \<Rightarrow> norm_slice list" where
  "win_slices win \<equiv> (case nw_slices win of None \<Rightarrow> [] | Some sls \<Rightarrow> sls)"

text \<open>The references of a slice, in the order they are checked.\<close>

definition slice_refs :: "norm_slice \<Rightarrow> string list" where
  "slice_refs sl = (case ns_sc sl of None \<Rightarrow> [] | Some n \<Rightarrow> [n]) @ (case ns_be sl of None \<Rightarrow> [] | Some n \<Rightarrow> [n])"

definition check_references :: "norm_config \<Rightarrow> unit result" where
  "check_references nc =
     foldE (\<lambda>win u. foldE (\<lambda>sl u. foldE (\<lambda>searched_name u.
         if list_ex (\<lambda>part. searched_name = nq_name part) (nc_partitions nc) then Inr ()
         else Inl (Runtime_error (''Reference to unknown partition '' @ searched_name)))
       (slice_refs sl) ()) (win_slices win) ()) (nc_windows nc) ()"

text \<open>The overlap check of one slice against the CPUs of the slices before it.\<close>

definition check_overlap :: "nat \<Rightarrow> norm_slice \<Rightarrow> cpu_set \<Rightarrow> cpu_set result" where
  "check_overlap slice_count sl acc =
     (case ns_cpu sl of None \<Rightarrow> Inl (Runtime_error ''invalid node'') | Some cpu_str \<Rightarrow>
      bindE (parse_cpu_set cpu_str 0) (\<lambda>slice_cpu.
      if cpu_str = ''all'' \<and> slice_count > 1 \<or> cpu_nonempty (acc AND slice_cpu)
      then Inl (Runtime_error ''Slices in window have overlapping CPU sets'')
      else Inr (acc OR slice_cpu)))"

definition validate_config :: "norm_config \<Rightarrow> unit result" where
  "validate_config nc =
     bindE (check_references nc) (\<lambda>_.
     foldE (\<lambda>win u. bindE (foldE (check_overlap (length (win_slices win))) (win_slices win) 0) (\<lambda>_. Inr ()))
       (nc_windows nc) ())"

text \<open>The members of \<open>Config\<close>; \<open>config_file_path\<close> is absent for an inline configuration.\<close>

record config_obj =
  config :: yaml
  config_is_regular_file :: bool
  config_file_path :: "string option"
  anonymous_partition_counter :: nat

text \<open>What loading a document gives: yaml-cpp and the file system are parameters.\<close>

datatype load_outcome =
    Bad_file
  | Yaml_exception string
  | Loaded yaml

definition load_from_file :: "load_outcome \<Rightarrow> bool \<Rightarrow> string \<Rightarrow> config_obj \<Rightarrow> config_obj result" where
  "load_from_file outcome is_regular file_name c =
     (case outcome of
        Bad_file \<Rightarrow> Inl (Runtime_error (''Cannot load configuration file: '' @ file_name))
      | Yaml_exception what \<Rightarrow> Inl (Runtime_error (''Configuration error: '' @ what))
      | Loaded y \<Rightarrow> Inr (c\<lparr>config := y, config_is_regular_file := is_regular, config_file_path := Some file_name\<rparr>))"

definition load_from_string :: "load_outcome \<Rightarrow> config_obj \<Rightarrow> config_obj result" where
  "load_from_string outcome c =
     (case outcome of
        Loaded y \<Rightarrow> Inr (c\<lparr>config := y, config_file_path := None\<rparr>)
      | Yaml_exception what \<Rightarrow> Inl (Runtime_error (''Configuration error: '' @ what))
      | Bad_file \<Rightarrow> Inl (Runtime_error ''Configuration error: ''))"

definition read_set_cwd :: "yaml_cpp \<Rightarrow> config_obj \<Rightarrow> (yaml \<times> yaml) list \<Rightarrow> bool result" where
  "read_set_cwd Y c kvs =
     (case map_get Y ''set_cwd'' kvs of
        None \<Rightarrow> Inr (config_file_path c \<noteq> None)
      | Some n \<Rightarrow> if config_file_path c \<noteq> None then converted (conv_bool Y) (Some n)
                  else Inl (Runtime_error ''set_cwd cannot be used in inline config string''))"

definition normalize :: "yaml_cpp \<Rightarrow> config_obj \<Rightarrow> norm_config result" where
  "normalize Y c =
     (case config c of
        Map kvs \<Rightarrow>
          bindE (read_set_cwd Y c kvs) (\<lambda>set_cwd.
          let kvs = remove_key Y ''set_cwd'' kvs in
          if set_cwd \<and> config_file_path c \<noteq> None \<and> \<not> config_is_regular_file c
          then Inl (Runtime_error ''set_cwd must be set to false'')
          else
          bindE (case map_get Y ''demos_cpu'' kvs of None \<Rightarrow> Inr ''all'' | Some n \<Rightarrow> converted (conv_string Y) (Some n)) (\<lambda>demos_cpu.
          bindE (parse_cpu_set demos_cpu 0) (\<lambda>_.
          let kvs = remove_key Y ''demos_cpu'' kvs in
          bindE (elements (map_get Y ''partitions'' kvs)) (\<lambda>yparts.
          bindE (normalize_partitions Y yparts ([], anonymous_partition_counter c)) (\<lambda>defs.
          let kvs = remove_key Y ''partitions'' kvs in
          bindE (elements (map_get Y ''windows'' kvs)) (\<lambda>ywins.
          bindE (normalize_windows Y ywins defs) (\<lambda>(wins, defs).
          let kvs = remove_key Y ''windows'' kvs in
          case kvs of
            kv # _ \<Rightarrow> bindE (converted (conv_string Y) (Some (fst kv))) unexpected_key
          | [] \<Rightarrow>
              let nc = \<lparr>nc_set_cwd = set_cwd, nc_demos_cpu = demos_cpu, nc_partitions = fst defs, nc_windows = wins\<rparr> in
              bindE (validate_config nc) (\<lambda>_. Inr nc))))))))
      | _ \<Rightarrow> Inl (Runtime_error ''Config must be YAML mapping node''))"

lemma no_key_left_InrE: "(case kvs of [] \<Rightarrow> m | kv # kvs' \<Rightarrow> bindE (u kv) unexpected_key) = Inr y \<Longrightarrow> (kvs = [] \<Longrightarrow> m = Inr y \<Longrightarrow> P) \<Longrightarrow> P"
  by (cases kvs) (auto simp: bindE_Inr_iff unexpected_key_def)

end
