(* ===== verification/Config_Valid.thy ===== *)
theory Config_Valid
  imports Demos_Config
begin

text \<open>
  What normalisation guarantees: the invariant of the canonical form (\<open>config_ok\<close>), the bounds of the
  default budgets, and that the canonical form is a fixed point.
\<close>

subsection \<open>Processes and partitions\<close>

definition process_norm :: "norm_process \<Rightarrow> bool" where
  "process_norm p \<longleftrightarrow> (\<exists>b j i. np_budget p = Some b \<and> np_jitter p = Some j \<and> np_init p = Some i \<and>
     0 < b \<and> 0 \<le> j \<and> j \<le> 2 * b)"

definition partition_norm :: "norm_partition \<Rightarrow> bool" where
  "partition_norm q \<longleftrightarrow> nq_processes q \<noteq> [] \<and> list_all process_norm (nq_processes q)"

lemma check_jitter_Inr: "check_jitter b j = Inr k \<longleftrightarrow> k = j \<and> 0 \<le> j \<and> j \<le> 2 * b \<and> 2 * b \<le> int_max"
  by (auto simp: check_jitter_def)

lemma normalize_process_norm:
  assumes "normalize_process Y n d = Inr r"
  shows "process_norm r"
proof -
  from assms obtain r0 b j where "0 < b" and "(case np_jitter r0 of None \<Rightarrow> Inr 0 | Some j \<Rightarrow> check_jitter b j) = Inr j"
    and "r = r0\<lparr>np_budget := Some b, np_jitter := Some j, np_init := Some (case np_init r0 of None \<Rightarrow> False | Some i \<Rightarrow> i)\<rparr>"
    by (auto simp: normalize_process_def bindE_Inr_iff[where y = r] not_le split: if_splits)
  then show ?thesis by (auto simp: process_norm_def check_jitter_Inr split: option.splits)
qed

lemma traverse_Inr_iff: "traverse f xs = Inr ys \<longleftrightarrow> list_all2 (\<lambda>x y. f x = Inr y) xs ys"
proof (induction xs arbitrary: ys)
  case (Cons x xs)
  then show ?case by (cases ys) (auto simp: bindE_Inr_iff)
qed auto

lemma normalize_processes_norm: "normalize_processes Y n d = Inr ps \<Longrightarrow> list_all process_norm ps"
  by (auto simp: normalize_processes_def traverse_Inr_iff bindE_Inr_iff list_all_length list_all2_conv_all_nth
      split: yaml.splits dest: normalize_process_norm)

lemma partition_key_norm:
  "partition_key Y part d key st = Inr st' \<Longrightarrow> list_all process_norm (snd st) \<Longrightarrow> list_all process_norm (snd st')"
  by (auto simp: partition_key_def bindE_Inr_iff unexpected_key_def
      split: prod.splits if_splits option.splits) (erule normalize_processes_norm)

lemma normalize_partition_norm:
  assumes "normalize_partition Y part d c = Inr (q, c')"
  shows "partition_norm q"
proof -
  from assms obtain name procs procs' where
    p: "(case part of Sequence ys \<Rightarrow> bindE (normalize_processes Y part d) (\<lambda>ps. Inr (None, ps))
      | Map kvs \<Rightarrow> foldE (partition_key Y part d) kvs (None, []) | _ \<Rightarrow> Inr (None, [])) = Inr (name, procs)"
    and q: "(if procs = [] then bindE (select_keys Y part single_process_keys) (\<lambda>kvs.
                 bindE (normalize_process Y (node_of kvs) d) (\<lambda>p. Inr [p])) else Inr procs) = Inr procs'"
      "nq_processes q = procs'"
    by (fastforce simp: normalize_partition_def bindE_Inr_iff Let_def split: option.splits)
  have "list_all process_norm procs"
  proof (cases part)
    case (Map kvs)
    with p have f: "foldE (partition_key Y part d) kvs (None, []) = Inr (name, procs)" by simp
    have "list_all process_norm (snd (name, procs))"
      by (rule foldE_invariant[OF f, where P = "\<lambda>st. list_all process_norm (snd st)"])
        (auto intro: partition_key_norm)
    then show ?thesis by simp
  qed (use p in \<open>auto simp: bindE_Inr_iff dest: normalize_processes_norm\<close>)
  with q(1) have "procs' \<noteq> [] \<and> list_all process_norm procs'"
    by (auto simp: bindE_Inr_iff split: if_splits dest: normalize_process_norm)
  with q(2) show ?thesis by (simp add: partition_norm_def)
qed

text \<open>Definitions are only ever added, in canonical form, and the name that is returned is defined.\<close>

definition defs_grow :: "part_defs \<Rightarrow> part_defs \<Rightarrow> bool" where
  "defs_grow d d' \<longleftrightarrow> (\<exists>new. fst d' = fst d @ new \<and> list_all partition_norm new)"

lemma defs_grow_refl [simp]: "defs_grow d d"
  by (simp add: defs_grow_def)

lemma defs_grow_trans: "defs_grow d d' \<Longrightarrow> defs_grow d' d'' \<Longrightarrow> defs_grow d d''"
  by (auto simp: defs_grow_def)

lemma define_partition_grow: "define_partition Y n b d = Inr (name, d') \<Longrightarrow> defs_grow d d'"
  by (auto simp: define_partition_def defs_grow_def bindE_Inr_iff split: prod.splits dest: normalize_partition_norm)

lemma process_xx_grow:
  "process_xx_partition_and_get_name Y n b d = Inr (name, d') \<Longrightarrow> defs_grow d d'"
  "process_xx_processes_and_get_name Y n b d = Inr (name, d') \<Longrightarrow> defs_grow d d'"
  by (auto simp: process_xx_partition_and_get_name_def process_xx_processes_and_get_name_def bindE_Inr_iff
      split: yaml.splits intro: define_partition_grow)

lemma slice_key_cases:
  assumes "slice_key Y sl len key st = Inr st'"
  obtains (cpu) s r where "r = fst st" and "st' = (r\<lparr>ns_cpu := Some s\<rparr>, snd st)"
  | (frequency) d r where "r = fst st" and "st' = (r\<lparr>ns_frequency := Some d\<rparr>, snd st)"
  | (sc) n b name d where "process_xx_partition_and_get_name Y n b (snd st) = Inr (name, d) \<or>
        process_xx_processes_and_get_name Y n b (snd st) = Inr (name, d)"
      and "st' = ((fst st)\<lparr>ns_sc := Some name\<rparr>, d)"
  | (be) n b name d where "process_xx_partition_and_get_name Y n b (snd st) = Inr (name, d) \<or>
        process_xx_processes_and_get_name Y n b (snd st) = Inr (name, d)"
      and "st' = ((fst st)\<lparr>ns_be := Some name\<rparr>, d)"
proof -
  obtain r d where st: "st = (r, d)" by (cases st)
  with assms obtain k n where "slice_value Y k n len (r, d) = Inr st'"
    unfolding slice_key_def bindE_Inr_iff by (auto split: option.split_asm)
  with st show ?thesis
    by (auto simp: slice_value_def bindE_Inr_iff unexpected_key_def split: if_split_asm intro: that)
qed

lemma slice_key_grow: "slice_key Y n len key st = Inr st' \<Longrightarrow> defs_grow (snd st) (snd st')"
  by (erule slice_key_cases) (auto dest: process_xx_grow)

subsection \<open>Slices and windows\<close>

definition slice_norm :: "norm_slice \<Rightarrow> bool" where
  "slice_norm sl \<longleftrightarrow> (\<exists>cpu s. ns_cpu sl = Some cpu \<and> parse_cpu_set cpu 0 = Inr s)"

definition window_norm :: "norm_window \<Rightarrow> bool" where
  "window_norm win \<longleftrightarrow> list_all slice_norm (win_slices win)"

lemma normalize_slice_norm:
  assumes "normalize_slice Y n len d = Inr (sl, d')"
  shows "slice_norm sl \<and> defs_grow d d'"
proof -
  let ?e = "\<lparr>ns_cpu = None, ns_frequency = None, ns_sc = None, ns_be = None\<rparr>"
  from assms obtain kvs where f: "foldE (slice_key Y n len) kvs (?e, d) = Inr (sl, d')"
    and "slice_norm sl"
    by (auto simp: normalize_slice_def slice_norm_def bindE_Inr_iff split: option.splits)
  moreover have "defs_grow d (snd (sl, d'))"
    by (rule foldE_invariant[OF f, where P = "\<lambda>st. defs_grow d (snd st)"])
      (auto dest!: slice_key_grow intro: defs_grow_trans)
  ultimately show ?thesis by simp
qed

lemma normalize_slices_norm:
  "normalize_slices Y len ys d = Inr (sls, d') \<Longrightarrow> list_all slice_norm sls \<and> defs_grow d d'"
proof (induction ys arbitrary: d sls)
  case (Cons y ys)
  then show ?case by (fastforce simp: bindE_Inr_iff dest!: normalize_slice_norm intro: defs_grow_trans)
qed simp

lemma window_key_norm:
  "window_key Y n len key st = Inr st' \<Longrightarrow> window_norm (fst st) \<Longrightarrow> window_norm (fst st') \<and> defs_grow (snd st) (snd st')"
  by (auto simp: window_key_def window_norm_def bindE_Inr_iff unexpected_key_def split: prod.splits if_splits
      dest!: normalize_slices_norm)

lemma normalize_window_norm:
  assumes "normalize_window Y n d = Inr (w, d')"
  shows "window_norm w \<and> defs_grow d d'"
proof -
  from assms obtain len kvs r d1 where
    f: "foldE (window_key Y n len) kvs (\<lparr>nw_length = len, nw_slices = None\<rparr>, d) = Inr (r, d1)"
    and w: "w = r \<and> d' = d1 \<or> (\<exists>y sl. normalize_slice Y y (float_of_int len) d1 = Inr (sl, d') \<and> w = r\<lparr>nw_slices := Some [sl]\<rparr>)"
    by (fastforce simp: normalize_window_def bindE_Inr_iff split: if_splits option.splits)
  have "window_norm (fst (r, d1)) \<and> defs_grow d (snd (r, d1))"
    by (rule foldE_invariant[OF f, where P = "\<lambda>st. window_norm (fst st) \<and> defs_grow d (snd st)"])
      (auto simp: window_norm_def[of "\<lparr>nw_length = len, nw_slices = None\<rparr>"] dest: window_key_norm intro: defs_grow_trans)
  with w show ?thesis by (auto simp: window_norm_def dest: normalize_slice_norm intro: defs_grow_trans)
qed

lemma normalize_windows_norm:
  "normalize_windows Y ys d = Inr (ws, d') \<Longrightarrow> list_all window_norm ws \<and> defs_grow d d'"
proof (induction ys arbitrary: d ws)
  case (Cons y ys)
  then show ?case by (fastforce simp: bindE_Inr_iff dest!: normalize_window_norm intro: defs_grow_trans)
qed simp

lemma normalize_partitions_grow: "normalize_partitions Y ys d = Inr d' \<Longrightarrow> defs_grow d d'"
  by (induction ys arbitrary: d) (fastforce simp: bindE_Inr_iff dest!: define_partition_grow intro: defs_grow_trans)+

subsection \<open>References and overlaps\<close>

lemma foldE_unit_Inr_iff: "foldE f xs () = Inr u \<longleftrightarrow> (\<forall>x \<in> set xs. f x () = Inr ())"
  by (induction xs) (auto simp: bindE_Inr_iff)

lemma check_references_Inr_iff:
  "check_references nc = Inr u \<longleftrightarrow> (\<forall>win \<in> set (nc_windows nc). \<forall>sl \<in> set (win_slices win).
     set (slice_refs sl) \<subseteq> nq_name ` set (nc_partitions nc))"
proof -
  have ex: "list_ex (\<lambda>part. n = nq_name part) ps \<longleftrightarrow> n \<in> nq_name ` set ps" for n ps
    by (auto simp: list_ex_iff)
  show ?thesis by (simp add: check_references_def foldE_unit_Inr_iff subset_eq ex)
qed

definition parsed_cpus :: "cpu_set \<Rightarrow> norm_slice \<Rightarrow> cpu_set result" where
  "parsed_cpus allowed sl = (case ns_cpu sl of None \<Rightarrow> Inl (Runtime_error ''invalid node'') | Some c \<Rightarrow> parse_cpu_set c allowed)"

definition disjoint_slices :: "cpu_set \<Rightarrow> norm_slice list \<Rightarrow> bool" where
  "disjoint_slices allowed sls \<longleftrightarrow> (\<forall>i < length sls. \<forall>j < length sls. i \<noteq> j \<longrightarrow>
     (\<exists>s t. parsed_cpus allowed (sls ! i) = Inr s \<and> parsed_cpus allowed (sls ! j) = Inr t \<and> s AND t = 0))"

lemma cpu_nonempty_iff: "cpu_nonempty s \<longleftrightarrow> s \<noteq> 0"
  by (simp add: cpu_nonempty_def cpu_count_pos_iff)

lemma check_overlap_Inr_iff:
  "check_overlap n sl acc = Inr acc' \<longleftrightarrow> (\<exists>c cs. ns_cpu sl = Some c \<and> parse_cpu_set c 0 = Inr cs \<and>
     (c = ''all'' \<longrightarrow> n \<le> 1) \<and> acc AND cs = 0 \<and> acc' = acc OR cs)"
  by (auto simp: check_overlap_def bindE_Inr_iff cpu_nonempty_iff not_less split: option.splits)

text \<open>The accumulated set of the overlap check meets none of the sets that follow.\<close>

lemma check_overlap_fold:
  assumes "foldE (check_overlap n) sls acc = Inr acc'"
  shows "\<exists>css. list_all2 (\<lambda>sl cs. \<exists>c. ns_cpu sl = Some c \<and> parse_cpu_set c 0 = Inr cs \<and> (c = ''all'' \<longrightarrow> n \<le> 1)) sls css \<and>
     sorted_wrt (\<lambda>a b. a AND b = 0) (acc # css)"
  using assms
proof (induction sls arbitrary: acc)
  case (Cons sl sls)
  then obtain c cs where c: "ns_cpu sl = Some c" "parse_cpu_set c 0 = Inr cs" "c = ''all'' \<longrightarrow> n \<le> 1" "acc AND cs = 0"
    and f: "foldE (check_overlap n) sls (acc OR cs) = Inr acc'"
    by (auto simp: check_overlap_Inr_iff bindE_Inr_iff)
  from Cons.IH[OF f] obtain css where
    css: "list_all2 (\<lambda>sl cs. \<exists>c. ns_cpu sl = Some c \<and> parse_cpu_set c 0 = Inr cs \<and> (c = ''all'' \<longrightarrow> n \<le> 1)) sls css"
      "sorted_wrt (\<lambda>a b. a AND b = 0) ((acc OR cs) # css)" by blast
  have "acc AND d = 0 \<and> cs AND d = 0" if "(acc OR cs) AND d = 0" for d :: cpu_set
    using that by (simp add: bit.conj_disj_distrib2 or_eq_0_iff)
  with css(2) c(4) have "sorted_wrt (\<lambda>a b. a AND b = 0) (acc # cs # css)" by auto
  with c css(1) show ?case by (intro exI[of _ "cs # css"]) simp
qed simp

lemma parse_cpu_set_other: "c \<noteq> ''all'' \<Longrightarrow> parse_cpu_set c a = parse_cpu_set c b"
  by (simp add: parse_cpu_set_def)

lemma check_overlap_disjoint:
  assumes "foldE (check_overlap (length sls)) sls 0 = Inr acc"
  shows "disjoint_slices allowed sls"
proof -
  from check_overlap_fold[OF assms] obtain css where
    l: "list_all2 (\<lambda>sl cs. \<exists>c. ns_cpu sl = Some c \<and> parse_cpu_set c 0 = Inr cs \<and> (c = ''all'' \<longrightarrow> length sls \<le> 1)) sls css"
    and s: "sorted_wrt (\<lambda>a b. a AND b = 0) css" by auto
  have css: "parsed_cpus allowed (sls ! i) = Inr (css ! i)" if "i < length sls" "1 < length sls" for i
    using list_all2_nthD[OF l that(1)] that(2) parse_cpu_set_other[of _ 0 allowed] by (fastforce simp: parsed_cpus_def)
  have "css ! i AND css ! j = 0" if "i < length sls" "j < length sls" "i \<noteq> j" for i j
    using sorted_wrt_nth_less[OF s, of i j] sorted_wrt_nth_less[OF s, of j i] that list_all2_lengthD[OF l]
    by (cases "i < j") (auto simp: and.commute)
  moreover have "1 < length sls" if "i < length sls" "j < length sls" "i \<noteq> j" for i j
    using that by linarith
  ultimately show ?thesis unfolding disjoint_slices_def using css by meson
qed

lemma validate_config_Inr_iff:
  "validate_config nc = Inr u \<longleftrightarrow> check_references nc = Inr () \<and>
     (\<forall>win \<in> set (nc_windows nc). \<exists>acc. foldE (check_overlap (length (win_slices win))) (win_slices win) 0 = Inr acc)"
  by (auto simp: validate_config_def bindE_Inr_iff foldE_unit_Inr_iff)

subsection \<open>The canonical form\<close>

definition config_ok :: "norm_config \<Rightarrow> bool" where
  "config_ok nc \<longleftrightarrow> (\<exists>s. parse_cpu_set (nc_demos_cpu nc) 0 = Inr s) \<and> list_all partition_norm (nc_partitions nc) \<and>
     list_all window_norm (nc_windows nc) \<and>
     (\<forall>win \<in> set (nc_windows nc). \<forall>sl \<in> set (win_slices win). set (slice_refs sl) \<subseteq> nq_name ` set (nc_partitions nc))"

lemma normalize_Inr:
  assumes "normalize Y c = Inr nc"
  obtains yparts ywins defs defs' s where "parse_cpu_set (nc_demos_cpu nc) 0 = Inr s"
    and "normalize_partitions Y yparts ([], anonymous_partition_counter c) = Inr defs"
    and "normalize_windows Y ywins defs = Inr (nc_windows nc, defs')" and "nc_partitions nc = fst defs'"
    and "validate_config nc = Inr ()"
proof -
  from assms obtain kvs where kvs: "config c = Map kvs" by (cases "config c") (auto simp: normalize_def)
  show ?thesis
    using assms unfolding normalize_def kvs yaml.case
    apply (elim result_elims no_key_left_InrE)
    subgoal for x xa xb xc xd xe xf wins defs xg by (rule that[of xb xc xd xe defs]) auto
    done
qed

lemma normalize_ok:
  assumes "normalize Y c = Inr nc"
  shows "config_ok nc \<and> (\<forall>allowed. \<forall>win \<in> set (nc_windows nc). disjoint_slices allowed (win_slices win))"
proof -
  from assms obtain yparts ywins defs defs' s where n: "parse_cpu_set (nc_demos_cpu nc) 0 = Inr s"
    "normalize_partitions Y yparts ([], anonymous_partition_counter c) = Inr defs"
    "normalize_windows Y ywins defs = Inr (nc_windows nc, defs')" "nc_partitions nc = fst defs'"
    and v: "validate_config nc = Inr ()" by (rule normalize_Inr)
  from n(4) defs_grow_trans[OF normalize_partitions_grow[OF n(2)] conjunct2[OF normalize_windows_norm[OF n(3)]]]
  have "list_all partition_norm (nc_partitions nc)" by (auto simp: defs_grow_def)
  with n(1) normalize_windows_norm[OF n(3)] v show ?thesis
    by (auto simp: config_ok_def validate_config_Inr_iff check_references_Inr_iff intro: check_overlap_disjoint)
qed

lemma normalize_cwd: "normalize Y c = Inr nc \<Longrightarrow> nc_set_cwd nc \<Longrightarrow> config_file_path c \<noteq> None"
  by (cases "config c")
    (auto simp: normalize_def read_set_cwd_def Let_def unexpected_key_def elim!: result_elims no_key_left_InrE split: option.splits if_splits)

text \<open>
  C5. Every configuration that normalisation accepts is in canonical form: each partition has a process,
  each process a positive budget and a jitter between 0 and twice the budget, each slice a CPU list
  that can be read, every reference names a defined partition, and on every machine the CPU sets of
  two slices of a window are disjoint.
\<close>

theorem normalized_config_ok:
  assumes "normalize Y c = Inr nc"
  shows "config_ok nc \<and> (\<forall>allowed. \<forall>win \<in> set (nc_windows nc). disjoint_slices allowed (win_slices win))"
  using assms by (rule normalize_ok)

subsection \<open>Default budgets\<close>

text \<open>A share of the window as it is written, \<open>u / 10\<close>, and as it is rounded to single precision.\<close>

definition share_value :: "int \<Rightarrow> rat \<Rightarrow> bool" where
  "share_value u s \<longleftrightarrow> of_int u / 10 \<le> s \<and> s \<le> of_int u / 10 * (1 + 1 / 2 ^ 24)"

lemma default_budget_exact:
  assumes s: "share_value u s" and u: "even u" "0 < u" "u \<le> 10" and L: "0 < L" "L < 2 ^ 20" and n: "0 < n" "n < 2 ^ 24"
  shows "int_of_float (flt_divide 24 (flt_mult 24 (float_of_int L) (Finite s)) (float_of_int n)) = Inr (u * L div (10 * n))"
proof -
  define b where "b = u * L div (10 * n)"
  define x where "x = round_to 24 (of_int L * s)"
  define y where "y = round_to 24 (x / of_int n)"
  let ?c = "1 + 1 / 2 ^ 24 :: rat"
  have fl: "float_of_int L = Finite (of_int L)" "float_of_int n = Finite (of_int n)"
    using L n by (simp_all add: float_of_int_def round_to_of_int)
  have "10 * n * b = u * L - u * L mod (10 * n)" by (simp add: b_def minus_mod_eq_mult_div [symmetric])
  moreover have "0 \<le> u * L mod (10 * n)" using n by (intro pos_mod_sign) simp
  ultimately have bL: "10 * (n * b) \<le> u * L" by simp
  have b0: "0 \<le> b" using L n u by (simp add: b_def pos_imp_zdiv_nonneg_iff)
  have s0: "0 \<le> s" using s u by (simp add: share_value_def)
  have nb1: "n * b \<le> L" using bL mult_right_mono[OF u(3), of L] L by linarith
  with L have nb: "n * b \<le> L" "n * b < 2 ^ 24" by simp_all
  have "(of_int (n * b) :: rat) \<le> of_int L * s"
  proof -
    have "(of_int (10 * (n * b)) :: rat) \<le> of_int (u * L)" using bL by (simp only: of_int_le_iff)
    then have "(of_int (n * b) :: rat) \<le> of_int L * (of_int u / 10)" by (simp add: field_simps)
    also have "\<dots> \<le> of_int L * s" using s L by (intro mult_left_mono) (auto simp: share_value_def)
    finally show ?thesis .
  qed
  then have x1: "of_int (n * b) \<le> x" unfolding x_def
    using n b0 nb by (intro round_to_ge_int) auto
  have y1: "of_int b \<le> y" unfolding y_def
  proof (rule round_to_ge_int)
    show "of_int b \<le> x / of_int n" using x1 n by (simp add: field_simps)
    have "b \<le> n * b" using n b0 by (simp add: mult_le_cancel_right1)
    then show "b < 2 ^ 24" using nb by linarith
  qed (rule b0)
  have "x \<le> of_int L * s * ?c" unfolding x_def using L s0 by (intro round_to_le) auto
  also have "\<dots> \<le> of_int L * (of_int u / 10 * ?c) * ?c"
    using s L by (intro mult_right_mono mult_left_mono) (auto simp: share_value_def)
  finally have x2: "x \<le> of_int (u * L) / 10 * ?c ^ 2" by (simp add: power2_eq_square mult_ac)
  have x0: "0 \<le> x" using x1 b0 n by (smt (verit) mult_nonneg_nonneg of_int_0_le_iff order_trans)
  have "y \<le> x / of_int n * ?c" unfolding y_def using x0 n by (intro round_to_le) auto
  then have "of_int (10 * n) * y \<le> 10 * x * ?c" using n by (simp add: field_simps)
  also have "10 * x * ?c \<le> of_int (u * L) * ?c ^ 2 * ?c" using x2 by (intro mult_right_mono) auto
  also have "of_int (u * L) * ?c ^ 2 * ?c = of_int (u * L) * ?c ^ 3" by (simp only: power2_eq_square power3_eq_cube mult.assoc)
  also have "\<dots> \<le> of_int (u * L) * (1 + 31 / 10 / 2 ^ 24)"
    using u L by (intro mult_left_mono) (auto simp: power3_eq_cube)
  finally have "of_int (10 * n) * y \<le> of_int (u * L) * (1 + 31 / 10 / 2 ^ 24)" .
  also have "\<dots> < of_int (u * L + 2)"
  proof -
    have "u * L \<le> 10 * 2 ^ 20" using mult_mono[of u 10 L "2 ^ 20"] u L by simp
    then have "(of_int (u * L) :: rat) \<le> of_int (10 * 2 ^ 20)" by (simp only: of_int_le_iff)
    then show ?thesis by (simp add: algebra_simps)
  qed
  finally have yu: "of_int (10 * n) * y < of_int (u * L + 2)" .
  have "of_int (10 * n) * of_int \<lfloor>y\<rfloor> \<le> of_int (10 * n) * y" using n by (intro mult_left_mono) auto
  with yu have "of_int (10 * n * \<lfloor>y\<rfloor>) < (of_int (u * L + 2) :: rat)" by simp
  then have "10 * n * \<lfloor>y\<rfloor> < u * L + 2" by (simp only: of_int_less_iff)
  moreover have "even (u * L)" "even (10 * n * \<lfloor>y\<rfloor>)" using u by simp_all
  moreover have "a \<le> c" if "a < c + 2" "even a" "even c" for a c :: int using that by presburger
  ultimately have "\<lfloor>y\<rfloor> * (10 * n) \<le> u * L" by (metis mult.commute)
  then have "\<lfloor>y\<rfloor> \<le> b" unfolding b_def using n zdiv_mono1[of "\<lfloor>y\<rfloor> * (10 * n)" "u * L" "10 * n"] by simp
  moreover have "b \<le> \<lfloor>y\<rfloor>" using y1 by (simp add: le_floor_iff)
  moreover have "0 \<le> y" using y1 b0 by (smt (verit) of_int_0_le_iff order_trans)
  ultimately have t: "round_to_zero y = b" by (simp add: round_to_zero_def)
  have "b \<le> int_max" using nb L b0 n mult_le_cancel_right1[of b n] by (simp add: int_max_def)
  with t b0 n show ?thesis
    by (simp add: fl flt_mult_def flt_divide_def int_of_float_def convert_to_int_def x_def y_def b_def int_max_def)
qed

lemma shares: "sc_share = Finite (5033165 / 8388608)" "be_share = Finite 1"
  "share_value 6 (5033165 / 8388608)" "share_value 10 1"
proof -
  have "round_to 24 (6 / 10) = 5033165 / 8388608" by code_simp
  then show "sc_share = Finite (5033165 / 8388608)" by (simp add: sc_share_def)
qed (simp_all add: be_share_def share_value_def)

text \<open>What the model relies on in yaml-cpp: a scalar reads as its text.\<close>

definition yaml_ok :: "yaml_cpp \<Rightarrow> bool" where
  "yaml_ok Y \<longleftrightarrow> (\<forall>s. conv_string Y (Scalar s) = Some s)"

lemma yaml_ok_simps [simp]:
  assumes "yaml_ok Y"
  shows "conv_string Y (Scalar s) = Some s"
  using assms by (simp add: yaml_ok_def)

definition default_process :: "int \<Rightarrow> string \<Rightarrow> norm_process" where
  "default_process b cmd = \<lparr>np_cmd = Some cmd, np_budget = Some b, np_jitter = Some 0, np_init = Some False, np_frequency = None\<rparr>"

lemma normalize_processes_default:
  assumes "yaml_ok Y" and "cmds \<noteq> []"
    and "int_of_float (flt_divide 24 share (float_of_int (int (length cmds)))) = Inr b"
    and "\<not> isnan (flt_divide 24 share (float_of_int (int (length cmds))))"
  shows "normalize_processes Y (Sequence (map Scalar cmds)) share =
    (if b \<le> 0 then Inl (Runtime_error ''Process budget must be a positive time duration in milliseconds'')
     else Inr (map (default_process b) cmds))"
proof -
  have p: "normalize_process Y (Scalar c) (flt_divide 24 share (float_of_int (int (length cmds)))) =
    (if b \<le> 0 then Inl (Runtime_error ''Process budget must be a positive time duration in milliseconds'')
     else Inr (default_process b c))" for c
    using assms by (simp add: normalize_process_def read_process_def converted_def empty_process_def default_process_def)
  have t: "0 < b \<Longrightarrow> traverse (\<lambda>p. normalize_process Y p (flt_divide 24 share (float_of_int (int (length cmds))))) (map Scalar cs) =
      Inr (map (default_process b) cs)" for cs
    by (induction cs) (simp_all add: p)
  from assms(2) p t[of cmds] show ?thesis
    by (cases cmds) (auto simp: normalize_processes_def not_le)
qed

lemma normalize_processes_share:
  assumes "yaml_ok Y" and "cmds \<noteq> []" and "length cmds < 2 ^ 24" and "0 < len" and "len < 2 ^ 20"
    and s: "share_value u s" "even u" "0 < u" "u \<le> 10"
  shows "normalize_processes Y (Sequence (map Scalar cmds)) (flt_mult 24 (float_of_int len) (Finite s)) =
    (if u * len div (10 * int (length cmds)) = 0
     then Inl (Runtime_error ''Process budget must be a positive time duration in milliseconds'')
     else Inr (map (default_process (u * len div (10 * int (length cmds)))) cmds))"
proof -
  let ?n = "int (length cmds)"
  have n: "0 < ?n" "?n < 2 ^ 24" using assms(2,3) by auto
  note b = default_budget_exact[OF s assms(4,5) n]
  then have "\<not> isnan (flt_divide 24 (flt_mult 24 (float_of_int len) (Finite s)) (float_of_int ?n))"
    by (cases "flt_divide 24 (flt_mult 24 (float_of_int len) (Finite s)) (float_of_int ?n)")
      (auto simp: int_of_float_def convert_to_int_def)
  note r = normalize_processes_default[OF assms(1,2) b this]
  have "0 \<le> u * len div (10 * ?n)" using n assms(4) s(3) by (simp add: pos_imp_zdiv_nonneg_iff)
  then have "(u * len div (10 * ?n) \<le> 0) = (u * len div (10 * ?n) = 0)" by simp
  with r show ?thesis by simp
qed

text \<open>
  C20. The default budgets, for a window shorter than \<open>2 ^ 20\<close> ms (17 minutes) and less than \<open>2 ^ 24\<close> processes that
  are given by their commands alone: the processes of a safety critical partition share 0.6 of the window, those of a
  best-effort partition the whole window. The two or three roundings of the single precision computation never
  show: each budget is the exact integer quotient, and a share that is less than a millisecond is rejected.
\<close>

theorem default_budgets_exact:
  assumes "yaml_ok Y" and "0 < len" and "len < 2 ^ 20" and "cmds \<noteq> []" and "length cmds < 2 ^ 24"
  shows "normalize_processes Y (Sequence (map Scalar cmds)) (flt_mult 24 (float_of_int len) sc_share) =
      (let b = 6 * len div (10 * int (length cmds)) in
       if b = 0 then Inl (Runtime_error ''Process budget must be a positive time duration in milliseconds'')
       else Inr (map (default_process b) cmds)) \<and>
    normalize_processes Y (Sequence (map Scalar cmds)) (flt_mult 24 (float_of_int len) be_share) =
      (let b = len div int (length cmds) in
       if b = 0 then Inl (Runtime_error ''Process budget must be a positive time duration in milliseconds'')
       else Inr (map (default_process b) cmds))"
proof -
  have "10 * len div (10 * int (length cmds)) = len div int (length cmds)" by simp
  with normalize_processes_share[OF assms(1,4,5,2,3) shares(3)] normalize_processes_share[OF assms(1,4,5,2,3) shares(4)]
  show ?thesis by (simp only: shares(1,2) Let_def) simp
qed

end
