(* ===== verification/Config_Objects.thy ===== *)
theory Config_Objects
  imports Config_Valid
begin

text \<open>
  Creating the objects of the scheduler from a normalised configuration
  (\<open>Config::create_scheduler_objects\<close> of \<open>src/src/config.cpp\<close>).
\<close>

subsection \<open>Creating the objects of the scheduler\<close>

record cgroup_config =
  unified_cg :: string
  cpuset_cg :: string
  freezer_cg :: string
  cfg_policy :: power_policy

text \<open>\<open>static_cast<uint64_t>(1000 * 1000 * frequency)\<close>.\<close>

definition requested_freq :: "flt option \<Rightarrow> cpu_freq option result" where
  "requested_freq f = (case f of None \<Rightarrow> Inr None
     | Some d \<Rightarrow> bindE (convert_to_int 0 (2 ^ 64 - 1) (flt_mult 53 (Finite 1000000) d)) (\<lambda>hz.
         Inr (Some (CpuFrequencyHz (word_of_int hz)))))"

text \<open>A member that the loops below require; a missing node throws.\<close>

definition required :: "'a option \<Rightarrow> 'a result" where
  "required m = (case m of None \<Rightarrow> Inl (Runtime_error ''invalid node'') | Some x \<Rightarrow> Inr x)"

definition create_process :: "string option \<Rightarrow> norm_process \<Rightarrow> partition \<times> os \<Rightarrow> (partition \<times> os) result" where
  "create_process process_cwd yprocess = (\<lambda>(p, s).
     bindE (required (np_budget yprocess)) (\<lambda>b.
     bindE (required (np_jitter yprocess)) (\<lambda>budget_jitter.
     bindE (requested_freq (np_frequency yprocess)) (\<lambda>req_freq.
     bindE (required (np_cmd yprocess)) (\<lambda>cmd.
     bindE (required (np_init yprocess)) (\<lambda>init.
     add_process cmd process_cwd b budget_jitter req_freq init p s))))))"

definition create_partition ::
  "cgroup_config \<Rightarrow> string option \<Rightarrow> norm_partition \<Rightarrow> partition list \<times> os \<Rightarrow> (partition list \<times> os) result" where
  "create_partition c process_cwd ypart = (\<lambda>(parts, s).
     bindE (partition_new (freezer_cg c) (cpuset_cg c) (unified_cg c) (nq_name ypart) s) (\<lambda>ps.
     bindE (foldE (create_process process_cwd) (nq_processes ypart) ps) (\<lambda>(p, s).
     Inr (parts @ [p], s))))"

text \<open>\<open>find_partition\<close>: a pointer into the list of partitions is an index.\<close>

fun find_partition :: "string \<Rightarrow> partition list \<Rightarrow> nat result" where
  "find_partition name [] = Inl (Runtime_error ''not reachable'')"
| "find_partition name (p # ps) = (if part_name p = name then Inr 0 else bindE (find_partition name ps) (\<lambda>i. Inr (Suc i)))"

definition find_optional :: "string option \<Rightarrow> partition list \<Rightarrow> nat option result" where
  "find_optional name parts =
     (case name of None \<Rightarrow> Inr None | Some n \<Rightarrow> bindE (find_partition n parts) (\<lambda>i. Inr (Some i)))"

text \<open>The CPUs a slice gets: those that are allowed, or the lowest allowed one if there is none.\<close>

definition slice_cpus :: "cpu_set \<Rightarrow> cpu_set \<Rightarrow> cpu_set result" where
  "slice_cpus allowed_cpus cpus =
     (if cpu_count (cpus AND allowed_cpus) = 0
      then bindE (lowest allowed_cpus) (\<lambda>i. Inr (set_cpu i 0))
      else Inr (if cpus AND allowed_cpus \<noteq> cpus then cpus AND allowed_cpus else cpus))"

definition create_slice ::
  "cpu_set \<Rightarrow> partition list \<Rightarrow> norm_slice \<Rightarrow> window \<times> os \<Rightarrow> (window \<times> os) result" where
  "create_slice allowed_cpus parts yslice = (\<lambda>(w, s).
     bindE (find_optional (ns_sc yslice) parts) (\<lambda>sc.
     bindE (find_optional (ns_be yslice) parts) (\<lambda>be.
     bindE (required (ns_cpu yslice)) (\<lambda>cpu.
     bindE (parse_cpu_set cpu allowed_cpus) (\<lambda>cpus.
     bindE (slice_cpus allowed_cpus cpus) (\<lambda>cpus.
     bindE (requested_freq (ns_frequency yslice)) (\<lambda>req_freq.
     add_slice sc be cpus req_freq w s)))))))"

definition create_window ::
  "cpu_set \<Rightarrow> partition list \<Rightarrow> norm_window \<Rightarrow> window list \<times> os \<Rightarrow> (window list \<times> os) result" where
  "create_window allowed_cpus parts ywindow = (\<lambda>(wins, s).
     bindE (foldE (create_slice allowed_cpus parts) (win_slices ywindow) (window_new (nw_length ywindow), s)) (\<lambda>(w, s).
     Inr (wins @ [w], s)))"

text \<open>
  \<open>allowed_cpus\<close> is the affinity mask of the program, \<open>cwd_of path\<close> the normalised directory of the
  configuration file (\<open>std::filesystem\<close>). The warnings are not modelled.
\<close>

definition create_scheduler_objects ::
  "cgroup_config \<Rightarrow> cpu_set \<Rightarrow> (string \<Rightarrow> string) \<Rightarrow> config_obj \<Rightarrow> norm_config \<Rightarrow> os \<Rightarrow> (cpu_set \<times> store) result" where
  "create_scheduler_objects c allowed_cpus cwd_of obj nc s =
     bindE (if nc_set_cwd nc
            then bindE (ASSERT (config_file_path obj \<noteq> None) ''config_file_path != nullopt'' s) (\<lambda>_.
                 case config_file_path obj of None \<Rightarrow> Inl (Runtime_error ''bad_optional_access'')
                 | Some path \<Rightarrow> Inr (Some (cwd_of path)))
            else Inr None) (\<lambda>process_cwd.
     bindE (foldE (create_partition c process_cwd) (nc_partitions nc) ([], s)) (\<lambda>(parts, s).
     bindE (parse_cpu_set (nc_demos_cpu nc) allowed_cpus) (\<lambda>demos_cpuset.
     bindE (foldE (create_window allowed_cpus parts) (nc_windows nc) ([], s)) (\<lambda>(wins, s).
     let st = \<lparr>partitions = parts, windows = wins, st_policy = cfg_policy c, st_os = s, start_time = 0\<rparr> in
     bindE (pp_validate (cfg_policy c) (map (\<lambda>w. map (slice_view_of st) (slices w)) wins)) (\<lambda>_.
     Inr (demos_cpuset, st))))))"

subsection \<open>The objects implement the configuration\<close>

text \<open>
  The abstract content of each object is the definition it was made from: \<open>process_of\<close>, \<open>partition_of\<close>,
  \<open>slice_of\<close> and \<open>window_of\<close> relate them.
\<close>

definition process_of :: "string option \<Rightarrow> norm_process \<Rightarrow> process \<Rightarrow> bool" where
  "process_of wd np q \<longleftrightarrow> np_cmd np = Some (argv q) \<and> np_budget np = Some (budget q) \<and>
     np_jitter np = Some (jitter_hi q - jitter_lo q) \<and> np_init np = Some (has_initialization q) \<and>
     requested_freq (np_frequency np) = Inr (requested_frequency q) \<and> working_dir q = wd"

definition partition_of :: "string option \<Rightarrow> norm_partition \<Rightarrow> partition \<Rightarrow> bool" where
  "partition_of wd nq p \<longleftrightarrow> part_name p = nq_name nq \<and> list_all2 (process_of wd) (nq_processes nq) (processes p)"

definition first_named :: "partition list \<Rightarrow> string option \<Rightarrow> nat option \<Rightarrow> bool" where
  "first_named parts name r \<longleftrightarrow> (case name of None \<Rightarrow> r = None
     | Some n \<Rightarrow> \<exists>i < length parts. r = Some i \<and> part_name (parts ! i) = n \<and> (\<forall>j < i. part_name (parts ! j) \<noteq> n))"

definition slice_of :: "cpu_set \<Rightarrow> partition list \<Rightarrow> norm_slice \<Rightarrow> slice \<Rightarrow> bool" where
  "slice_of allowed parts ns sl \<longleftrightarrow> first_named parts (ns_sc ns) (sl_sc sl) \<and> first_named parts (ns_be ns) (sl_be sl) \<and>
     bindE (parsed_cpus allowed ns) (slice_cpus allowed) = Inr (sl_cpus sl) \<and>
     requested_freq (ns_frequency ns) = Inr (sl_freq sl)"

definition window_of :: "cpu_set \<Rightarrow> partition list \<Rightarrow> norm_window \<Rightarrow> window \<Rightarrow> bool" where
  "window_of allowed parts nw w \<longleftrightarrow> win_length w = nw_length nw \<and> list_all2 (slice_of allowed parts) (win_slices nw) (slices w)"

lemma jitter_range_width: "j - j sdiv 2 - (- j) sdiv 2 = (j :: int)"
  by (auto simp: signed_divide_int_def sgn_if)

text \<open>A loop that appends one object per definition.\<close>

lemma foldE_append_list_all2:
  assumes "foldE f xs st = Inr st'" and "P st"
    and "\<And>x st st'. x \<in> set xs \<Longrightarrow> P st \<Longrightarrow> f x st = Inr st' \<Longrightarrow> P st' \<and> (\<exists>y. g st' = g st @ [y] \<and> R x y)"
  shows "P st' \<and> (\<exists>ys. g st' = g st @ ys \<and> list_all2 R xs ys)"
  using assms
proof (induction xs arbitrary: st)
  case (Cons x xs)
  from Cons.prems(1) obtain u where u: "f x st = Inr u" "foldE f xs u = Inr st'" by (auto simp: bindE_Inr_iff)
  with Cons.prems(2,3) obtain y where y: "P u" "g u = g st @ [y]" "R x y" by fastforce
  from Cons.IH[OF u(2) y(1)] Cons.prems(3) obtain ys where "P st'" "g st' = g u @ ys" "list_all2 R xs ys" by auto
  with y show ?case by (intro conjI exI[of _ "y # ys"]) auto
qed simp

lemma create_process_ok:
  assumes "create_process wd np st = Inr st'" and "fresh_part (fst st)" and "process_norm np"
  shows "fresh_part (fst st') \<and> part_name (fst st') = part_name (fst st) \<and>
    (\<exists>q. processes (fst st') = processes (fst st) @ [q] \<and> process_of wd np q)"
proof -
  obtain p s p' s' where st: "st = (p, s)" "st' = (p', s')" by fastforce
  from assms(1) obtain b j rf cmd i where
    np: "np_budget np = Some b" "np_jitter np = Some j" "requested_freq (np_frequency np) = Inr rf" "np_cmd np = Some cmd"
      "np_init np = Some i" and add: "add_process cmd wd b j rf i p s = Inr (p', s')"
    by (auto simp: create_process_def required_def bindE_Inr_iff st split: option.splits)
  have j: "0 \<le> j" "j \<le> 2 * b" using assms(3) np by (auto simp: process_norm_def)
  from add obtain n ge gf q where q: "process_new n ge gf cmd wd b j rf i s = Inr (q, s')"
    and p': "p' = p\<lparr>processes := processes p @ [q], proc_count := Suc (proc_count p), current_proc := 0, part_empty := False\<rparr>"
    by (auto simp: add_process_def bindE_Inr_iff)
  have "process_of wd np q"
    using process_new_Inr[OF q] np by (simp add: process_of_def jitter_range_width)
  with add_process_fresh[OF add _ j] assms(2) p' st show ?thesis by simp
qed

lemma create_partition_ok:
  assumes "create_partition c wd nq st = Inr st'" and "partition_norm nq"
  shows "\<exists>p. fst st' = fst st @ [p] \<and> partition_of wd nq p \<and> fresh_part p \<and> processes p \<noteq> []"
proof -
  obtain ps s where st: "st = (ps, s)" by fastforce
  from assms(1) obtain p0 s0 p s' where new: "partition_new (freezer_cg c) (cpuset_cg c) (unified_cg c) (nq_name nq) s = Inr (p0, s0)"
    and f: "foldE (create_process wd) (nq_processes nq) (p0, s0) = Inr (p, s')" and st': "st' = (ps @ [p], s')"
    by (auto simp: create_partition_def bindE_Inr_iff st)
  have p0: "fresh_part p0" "processes p0 = []" "part_name p0 = nq_name nq"
    using partition_new_fresh[OF new] new by (auto simp: partition_new_def bindE_Inr_iff)
  have "(fresh_part (fst (p, s')) \<and> part_name (fst (p, s')) = nq_name nq) \<and>
    (\<exists>ys. processes (fst (p, s')) = processes (fst (p0, s0)) @ ys \<and> list_all2 (process_of wd) (nq_processes nq) ys)"
    using assms(2) p0 create_process_ok
    by (intro foldE_append_list_all2[OF f, where g = "\<lambda>st. processes (fst st)"])
      (fastforce simp: partition_norm_def list_all_iff)+
  with p0 st st' assms(2) show ?thesis by (auto simp: partition_of_def partition_norm_def)
qed

lemma find_partition_first: "find_partition n ps = Inr i \<Longrightarrow> first_named ps (Some n) (Some i)"
proof (induction ps arbitrary: i)
  case (Cons p ps)
  then show ?case
    by (fastforce simp: first_named_def bindE_Inr_iff less_Suc_eq_0_disj split: if_splits)
qed simp

lemma find_partition_total: "n \<in> part_name ` set ps \<Longrightarrow> \<exists>i. find_partition n ps = Inr i"
  by (induction ps) auto

lemma find_optional_first: "find_optional name ps = Inr r \<Longrightarrow> first_named ps name r"
  by (auto simp: find_optional_def bindE_Inr_iff dest: find_partition_first split: option.splits)
    (simp add: first_named_def)

lemma create_slice_ok:
  assumes "create_slice allowed parts ns st = Inr st'" and "fresh_window (fst st)"
  shows "fresh_window (fst st') \<and> win_length (fst st') = win_length (fst st) \<and>
    (\<exists>sl. slices (fst st') = slices (fst st) @ [sl] \<and> slice_of allowed parts ns sl)"
proof -
  obtain w s where st: "st = (w, s)" by fastforce
  from assms(1) obtain sc be cpu cpus cpus' rf where
    r: "find_optional (ns_sc ns) parts = Inr sc" "find_optional (ns_be ns) parts = Inr be" "ns_cpu ns = Some cpu"
      "parse_cpu_set cpu allowed = Inr cpus" "slice_cpus allowed cpus = Inr cpus'" "requested_freq (ns_frequency ns) = Inr rf"
    and add: "add_slice sc be cpus' rf w s = Inr st'"
    by (auto simp: create_slice_def required_def bindE_Inr_iff st split: option.splits)
  from add obtain sl where sl: "slices (fst st') = slices w @ [sl]" "fst st' = w\<lparr>slices := slices w @ [sl]\<rparr>"
    "sl_sc sl = sc" "sl_be sl = be" "sl_cpus sl = cpus'" "sl_freq sl = rf" "running_process sl = None"
    "running_partition sl = None" "\<not> tfd_active (sl_timer sl)"
    by (auto simp: add_slice_def slice_new_def timerfd_new_def bindE_Inr_iff)
  with r st assms(2) show ?thesis
    by (auto simp: slice_of_def parsed_cpus_def fresh_window_def find_optional_first)
qed

lemma create_window_ok:
  assumes "create_window allowed parts nw st = Inr st'"
  shows "\<exists>w. fst st' = fst st @ [w] \<and> window_of allowed parts nw w \<and> fresh_window w"
proof -
  obtain ws s where st: "st = (ws, s)" by fastforce
  from assms(1) obtain w s' where
    f: "foldE (create_slice allowed parts) (win_slices nw) (window_new (nw_length nw), s) = Inr (w, s')" and st': "st' = (ws @ [w], s')"
    by (auto simp: create_window_def bindE_Inr_iff st)
  have "(fresh_window (fst (w, s')) \<and> win_length (fst (w, s')) = nw_length nw) \<and>
    (\<exists>ys. slices (fst (w, s')) = slices (fst (window_new (nw_length nw), s)) @ ys \<and> list_all2 (slice_of allowed parts) (win_slices nw) ys)"
    using create_slice_ok
    by (intro foldE_append_list_all2[OF f, where g = "\<lambda>st. slices (fst st)"]) (fastforce simp: fresh_window_def window_new_def)+
  with st st' show ?thesis by (auto simp: window_of_def window_new_def)
qed

lemma create_partitions_all2:
  assumes "foldE (create_partition c wd) qs ([], s) = Inr (parts, s1)" and "list_all partition_norm qs"
  shows "list_all2 (\<lambda>nq p. partition_of wd nq p \<and> fresh_part p \<and> processes p \<noteq> []) qs parts"
proof -
  have "True \<and> (\<exists>ys. fst (parts, s1) = fst ([], s) @ ys \<and>
      list_all2 (\<lambda>nq p. partition_of wd nq p \<and> fresh_part p \<and> processes p \<noteq> []) qs ys)"
    using create_partition_ok assms(2)
    by (intro foldE_append_list_all2[OF assms(1), where g = fst]) (fastforce simp: list_all_iff)+
  then show ?thesis by simp
qed

lemma create_scheduler_objects_Inr:
  assumes "create_scheduler_objects c allowed cwd_of obj nc s = Inr (dc, st)" and "config_ok nc"
  obtains wd where "list_all2 (\<lambda>nq p. partition_of wd nq p \<and> fresh_part p \<and> processes p \<noteq> []) (nc_partitions nc) (partitions st)"
    and "list_all2 (\<lambda>nw w. window_of allowed (partitions st) nw w \<and> fresh_window w) (nc_windows nc) (windows st)"
    and "parse_cpu_set (nc_demos_cpu nc) allowed = Inr dc" and "st_policy st = cfg_policy c"
    and "wd = (if nc_set_cwd nc then map_option cwd_of (config_file_path obj) else None)"
proof -
  from assms(1) obtain wd parts s1 wins s2 where wd: "wd = (if nc_set_cwd nc then map_option cwd_of (config_file_path obj) else None)"
    and p: "foldE (create_partition c wd) (nc_partitions nc) ([], s) = Inr (parts, s1)"
    and w: "foldE (create_window allowed parts) (nc_windows nc) ([], s1) = Inr (wins, s2)"
    and dc: "parse_cpu_set (nc_demos_cpu nc) allowed = Inr dc"
    and st: "st = \<lparr>partitions = parts, windows = wins, st_policy = cfg_policy c, st_os = s2, start_time = 0\<rparr>"
    unfolding create_scheduler_objects_def
    by (elim result_elims) (auto simp: bindE_Inr_iff ASSERT_Inr_iff split: if_splits option.splits)
  note parts_ok = create_partitions_all2[OF p]
  have "True \<and> (\<exists>ys. fst (wins, s2) = fst ([], s1) @ ys \<and>
      list_all2 (\<lambda>nw w. window_of allowed parts nw w \<and> fresh_window w) (nc_windows nc) ys)"
    using create_window_ok by (intro foldE_append_list_all2[OF w, where g = fst]) fastforce+
  with parts_ok show ?thesis using that[of wd] wd dc st assms(2) by (simp add: config_ok_def)
qed

lemma objects_of_config:
  assumes "normalize Y obj = Inr nc" and "create_scheduler_objects c allowed cwd_of obj nc s = Inr (dc, st)"
  shows "list_all2 (partition_of (if nc_set_cwd nc then map_option cwd_of (config_file_path obj) else None))
      (nc_partitions nc) (partitions st) \<and>
    list_all2 (window_of allowed (partitions st)) (nc_windows nc) (windows st) \<and>
    parse_cpu_set (nc_demos_cpu nc) allowed = Inr dc"
proof -
  have "config_ok nc" using normalize_ok[OF assms(1)] by blast
  from create_scheduler_objects_Inr[OF assms(2) this] obtain wd where
    p: "list_all2 (\<lambda>nq p. partition_of wd nq p \<and> fresh_part p \<and> processes p \<noteq> []) (nc_partitions nc) (partitions st)"
    and w: "list_all2 (\<lambda>nw w. window_of allowed (partitions st) nw w \<and> fresh_window w) (nc_windows nc) (windows st)"
    and r: "parse_cpu_set (nc_demos_cpu nc) allowed = Inr dc"
      "wd = (if nc_set_cwd nc then map_option cwd_of (config_file_path obj) else None)" by blast
  have "list_all2 (partition_of wd) (nc_partitions nc) (partitions st)" by (rule list_all2_mono[OF p]) blast
  moreover have "list_all2 (window_of allowed (partitions st)) (nc_windows nc) (windows st)" by (rule list_all2_mono[OF w]) blast
  ultimately show ?thesis using r by blast
qed

text \<open>
  C4. The objects of the scheduler implement the configuration: there is one partition per definition, in
  order, with the processes it lists (command, budget, jitter, initialisation, frequency, working directory), and
  one window per definition with the configured length and one slice per definition, whose partitions
  are the first ones of the configured names and whose CPUs are the configured ones that are allowed.
\<close>

theorem objects_implement_config:
  assumes "normalize Y obj = Inr nc" and "create_scheduler_objects c allowed cwd_of obj nc s = Inr (dc, st)"
  shows "list_all2 (partition_of (if nc_set_cwd nc then map_option cwd_of (config_file_path obj) else None))
      (nc_partitions nc) (partitions st) \<and>
    list_all2 (window_of allowed (partitions st)) (nc_windows nc) (windows st) \<and>
    parse_cpu_set (nc_demos_cpu nc) allowed = Inr dc"
  using assms by (rule objects_of_config)

text \<open>The lookup that the source marks as not reachable indeed is not.\<close>

lemma refs_resolve:
  assumes "config_ok nc" and "list_all2 (partition_of wd) (nc_partitions nc) parts"
    and "win \<in> set (nc_windows nc)" and "sl \<in> set (win_slices win)" and "n \<in> set (slice_refs sl)"
  shows "\<exists>i. find_partition n parts = Inr i"
proof -
  from assms(1,3,4,5) have "n \<in> nq_name ` set (nc_partitions nc)" unfolding config_ok_def by blast
  then obtain k where k: "k < length (nc_partitions nc)" "nq_name (nc_partitions nc ! k) = n" by (auto simp: in_set_conv_nth)
  with assms(2) have "k < length parts" "part_name (parts ! k) = n"
    by (auto simp: partition_of_def list_all2_conv_all_nth)
  then show ?thesis by (intro find_partition_total) (metis image_eqI nth_mem)
qed

subsection \<open>The CPUs of the slices\<close>

lemma slice_cpus_Inr:
  assumes "slice_cpus allowed cpus = Inr res"
  shows "res \<noteq> 0 \<and> res AND allowed = res \<and> (cpus AND allowed \<noteq> 0 \<longrightarrow> res = cpus AND allowed)"
proof (cases "cpus AND allowed = 0")
  case True
  then obtain i where i: "lowest allowed = Inr i" "res = set_cpu i 0"
    using assms cpu_count_pos_iff[of "cpus AND allowed"] by (auto simp: slice_cpus_def bindE_Inr_iff)
  have "is_set allowed i" using i(1) find_up_Inr[of allowed "[0..<max_cpus]" i] by (simp add: lowest_def)
  then have "is_set res j \<longleftrightarrow> j = i" "is_set (res AND allowed) j \<longleftrightarrow> is_set res j" for j
    using i(2) by (auto simp: is_set_def set_cpu_def bit_simps max_cpus_def)
  then show ?thesis using True cpu_set_eqI[of "res AND allowed" res] nonempty_iff[of res] by metis
next
  case False
  then have "cpu_count (cpus AND allowed) \<noteq> 0" using cpu_count_pos_iff[of "cpus AND allowed"] by simp
  with assms have "res = cpus AND allowed" by (auto simp: slice_cpus_def split: if_splits)
  with False show ?thesis by (simp add: and.assoc)
qed

text \<open>
  C15. Every slice that is created runs on allowed CPUs, on at least one. Two slices of a window share no CPU, provided
  that of the CPUs configured for each of them at least one is allowed. (Slices without an allowed CPU fall
  back to the same one, see \<open>fallback_overlaps\<close>.)
\<close>

theorem slices_have_disjoint_cpus:
  assumes "normalize Y obj = Inr nc" and "create_scheduler_objects c allowed cwd_of obj nc s = Inr (dc, st)"
    and wi: "wi < length (windows st)" and i: "i < length (slices (windows st ! wi))"
  shows "sl_cpus (slices (windows st ! wi) ! i) \<noteq> 0 \<and>
    sl_cpus (slices (windows st ! wi) ! i) AND allowed = sl_cpus (slices (windows st ! wi) ! i) \<and>
    (\<forall>j < length (slices (windows st ! wi)). j \<noteq> i \<longrightarrow>
       (\<forall>k \<in> {i, j}. \<forall>t. parsed_cpus allowed (win_slices (nc_windows nc ! wi) ! k) = Inr t \<longrightarrow> t AND allowed \<noteq> 0) \<longrightarrow>
       sl_cpus (slices (windows st ! wi) ! i) AND sl_cpus (slices (windows st ! wi) ! j) = 0)"
proof -
  let ?nw = "nc_windows nc ! wi" and ?sls = "slices (windows st ! wi)"
  have ok: "list_all2 (window_of allowed (partitions st)) (nc_windows nc) (windows st)"
    using objects_of_config[OF assms(1,2)] by blast
  then have "?nw \<in> set (nc_windows nc)" and w: "list_all2 (slice_of allowed (partitions st)) (win_slices ?nw) ?sls"
    using wi by (auto simp: list_all2_conv_all_nth window_of_def)
  then have dis: "disjoint_slices allowed (win_slices ?nw)" using normalize_ok[OF assms(1)] by blast
  have cpus: "\<exists>t. parsed_cpus allowed (win_slices ?nw ! k) = Inr t \<and> sl_cpus (?sls ! k) \<noteq> 0 \<and>
      sl_cpus (?sls ! k) AND allowed = sl_cpus (?sls ! k) \<and> (t AND allowed \<noteq> 0 \<longrightarrow> sl_cpus (?sls ! k) = t AND allowed)"
    if "k < length ?sls" for k
  proof -
    from w that have "bindE (parsed_cpus allowed (win_slices ?nw ! k)) (slice_cpus allowed) = Inr (sl_cpus (?sls ! k))"
      by (auto simp: list_all2_conv_all_nth slice_of_def)
    then obtain t where "parsed_cpus allowed (win_slices ?nw ! k) = Inr t" "slice_cpus allowed t = Inr (sl_cpus (?sls ! k))"
      by (auto simp: bindE_Inr_iff)
    with slice_cpus_Inr show ?thesis by blast
  qed
  have "sl_cpus (?sls ! i) AND sl_cpus (?sls ! j) = 0"
    if j: "j < length ?sls" "j \<noteq> i"
      and f: "\<forall>k \<in> {i, j}. \<forall>t. parsed_cpus allowed (win_slices ?nw ! k) = Inr t \<longrightarrow> t AND allowed \<noteq> 0" for j
  proof -
    from dis i j w obtain a b where "parsed_cpus allowed (win_slices ?nw ! i) = Inr a" "parsed_cpus allowed (win_slices ?nw ! j) = Inr b"
      and ab: "a AND b = 0" unfolding disjoint_slices_def list_all2_conv_all_nth by (metis (no_types, lifting))
    with f cpus[OF i] cpus[OF j(1)] have "sl_cpus (?sls ! i) = a AND allowed" "sl_cpus (?sls ! j) = b AND allowed" by auto
    then have "sl_cpus (?sls ! i) AND sl_cpus (?sls ! j) = (a AND b) AND allowed" by (simp add: and.assoc and.left_commute)
    with ab show ?thesis by simp
  qed
  with cpus[OF i] show ?thesis by blast
qed

subsection \<open>A configured scheduler\<close>

text \<open>No partition is named by two slices of a window. Normalisation does not check this.\<close>

definition single_use :: "norm_config \<Rightarrow> bool" where
  "single_use nc \<longleftrightarrow> list_all (\<lambda>win. \<forall>i < length (win_slices win). \<forall>j < length (win_slices win). i \<noteq> j \<longrightarrow>
     set (slice_refs (win_slices win ! i)) \<inter> set (slice_refs (win_slices win ! j)) = {}) (nc_windows nc)"

lemma slice_of_parts:
  assumes "slice_of allowed parts ns sl" and "k \<in> parts_of sl"
  shows "k < length parts \<and> part_name (parts ! k) \<in> set (slice_refs ns)"
  using assms by (auto simp: slice_of_def parts_of_def first_named_def slice_refs_def split: option.splits)

lemma created_objects_configured:
  assumes "normalize Y obj = Inr nc" and "create_scheduler_objects c allowed cwd_of obj nc s = Inr (dc, st)"
    and "single_use nc" and "nc_partitions nc \<noteq> []" and "nc_windows nc \<noteq> []"
  shows "configured (partitions st) (windows st)"
proof -
  have "config_ok nc" using normalize_ok[OF assms(1)] by blast
  from create_scheduler_objects_Inr[OF assms(2) this] obtain wd where
    p: "list_all2 (\<lambda>nq p. partition_of wd nq p \<and> fresh_part p \<and> processes p \<noteq> []) (nc_partitions nc) (partitions st)"
    and w: "list_all2 (\<lambda>nw w. window_of allowed (partitions st) nw w \<and> fresh_window w) (nc_windows nc) (windows st)" by blast
  have "fresh_window win \<and> window_conf (length (partitions st)) win" if "win \<in> set (windows st)" for win
  proof -
    from that obtain k where k: "k < length (windows st)" "win = windows st ! k" by (auto simp: in_set_conv_nth)
    with w have nw: "nc_windows nc ! k \<in> set (nc_windows nc)" "window_of allowed (partitions st) (nc_windows nc ! k) win" "fresh_window win"
      by (auto simp: list_all2_conv_all_nth)
    let ?nw = "nc_windows nc ! k"
    from nw(2) have sl: "list_all2 (slice_of allowed (partitions st)) (win_slices ?nw) (slices win)" by (simp add: window_of_def)
    have "parts_of (slices win ! i) \<inter> parts_of (slices win ! j) = {}"
      if "i < length (slices win)" "j < length (slices win)" "i \<noteq> j" for i j
    proof -
      have "set (slice_refs (win_slices ?nw ! i)) \<inter> set (slice_refs (win_slices ?nw ! j)) = {}"
        using assms(3) nw(1) that list_all2_lengthD[OF sl] by (auto simp: single_use_def list_all_iff)
      moreover have "slice_of allowed (partitions st) (win_slices ?nw ! i) (slices win ! i)"
        "slice_of allowed (partitions st) (win_slices ?nw ! j) (slices win ! j)"
        using sl that by (simp_all add: list_all2_conv_all_nth)
      ultimately show ?thesis using slice_of_parts by blast
    qed
    moreover have "parts_of x \<subseteq> {..<length (partitions st)}" if "x \<in> set (slices win)" for x
      using that sl by (force simp: in_set_conv_nth list_all2_conv_all_nth dest: slice_of_parts)
    ultimately show ?thesis using nw(3) by (simp add: window_conf_def)
  qed
  moreover have "\<forall>q \<in> set (partitions st). fresh_part q \<and> processes q \<noteq> []"
    using p by (auto simp: in_set_conv_nth list_all2_conv_all_nth)
  moreover have "partitions st \<noteq> []" "windows st \<noteq> []" using p w assms(4,5) by auto
  ultimately show ?thesis by (simp add: configured_def)
qed

subsection \<open>Creation succeeds\<close>

text \<open>An operation that succeeds and leaves a system whose calls succeed.\<close>

definition io_total :: "('a \<times> os) result \<Rightarrow> bool" where
  "io_total m \<longleftrightarrow> (\<exists>x t. m = Inr (x, t) \<and> io_ok t)"

lemma io_total_Inr [simp]: "io_total (Inr (x, t)) = io_ok t"
  by (simp add: io_total_def)

lemma io_total_bind: "io_total m \<Longrightarrow> (\<And>x t. io_ok t \<Longrightarrow> io_total (f (x, t))) \<Longrightarrow> io_total (bindE m f)"
  by (auto simp: io_total_def)

lemma io_total_CHECK: "io_ok s \<Longrightarrow> (\<And>t. io_ok t \<Longrightarrow> io_total (f t)) \<Longrightarrow> io_total (bindE (CHECK ev s) f)"
  by (simp add: CHECK_io_ok)

lemma io_total_fold:
  assumes "io_ok (snd st)" and "\<And>x st. x \<in> set xs \<Longrightarrow> io_ok (snd st) \<Longrightarrow> io_total (f x st)"
  shows "io_total (foldE f xs st)"
  using foldE_total[where P = "\<lambda>st. io_ok (snd st)" and f = f, of st xs] assms
  by (fastforce simp: io_total_def)

lemma io_total_cgroup_child: "io_ok s \<Longrightarrow> io_total (cgroup_child parent name s)"
  by (auto simp: cgroup_child_def cgroup_new_def create_dir_def syscall_def io_ok_def)

lemma io_total_partition_new: "io_ok s \<Longrightarrow> io_total (partition_new fp cp ep name s)"
  unfolding partition_new_def cpuset_new_def
  by (auto intro!: io_total_bind io_total_cgroup_child io_total_CHECK simp: case_prod_beta)

lemma io_total_add_process:
  assumes "io_ok s" and "j \<le> 2 * b"
  shows "io_total (add_process cmd wd b j rf i p s)"
proof -
  have "io_total (suspend q s)" if "io_ok s" for q s
    using that unfolding suspend_def freeze_def by (auto intro!: io_total_bind io_total_CHECK simp: case_prod_beta)
  then show ?thesis using assms unfolding add_process_def process_new_def evfd_new_def events_new_def freezer_new_def
    by (auto intro!: io_total_bind io_total_cgroup_child io_total_CHECK simp: case_prod_beta)
qed

definition castable :: "flt option \<Rightarrow> bool" where
  "castable f \<longleftrightarrow> (\<exists>r. requested_freq f = Inr r)"

definition creatable :: "norm_config \<Rightarrow> bool" where
  "creatable nc \<longleftrightarrow> list_all (\<lambda>q. list_all (\<lambda>p. np_cmd p \<noteq> None \<and> castable (np_frequency p)) (nq_processes q)) (nc_partitions nc) \<and>
     list_all (\<lambda>w. list_all (\<lambda>sl. castable (ns_frequency sl)) (win_slices w)) (nc_windows nc)"

lemma io_total_create_process:
  assumes "io_ok (snd st)" and "process_norm np" and "np_cmd np \<noteq> None" and "castable (np_frequency np)"
  shows "io_total (create_process wd np st)"
  using assms by (cases st) (auto simp: create_process_def required_def process_norm_def castable_def intro: io_total_add_process)

lemma io_total_create_partition:
  assumes "io_ok (snd st)" and "partition_norm nq"
    and "list_all (\<lambda>p. np_cmd p \<noteq> None \<and> castable (np_frequency p)) (nq_processes nq)"
  shows "io_total (create_partition c wd nq st)"
proof -
  obtain ps s where st: "st = (ps, s)" by fastforce
  have "io_total (foldE (create_process wd) (nq_processes nq) (p, t))" if "io_ok t" for p t
    using that assms by (intro io_total_fold io_total_create_process) (auto simp: partition_norm_def list_all_iff)
  then show ?thesis using assms(1) unfolding create_partition_def st prod.case
    by (intro io_total_bind io_total_partition_new) auto
qed

lemma io_total_create_slice:
  assumes "io_ok (snd st)" and "slice_norm sl" and "castable (ns_frequency sl)" and "allowed \<noteq> 0"
    and "\<And>n. n \<in> set (slice_refs sl) \<Longrightarrow> \<exists>i. find_partition n parts = Inr i"
  shows "io_total (create_slice allowed parts sl st)"
proof -
  obtain w s where st: "st = (w, s)" by fastforce
  from assms(2) obtain cpu c where cpu: "ns_cpu sl = Some cpu" "parse_cpu_set cpu 0 = Inr c" by (auto simp: slice_norm_def)
  then obtain c' where c': "parse_cpu_set cpu allowed = Inr c'" by (cases "cpu = ''all''") (auto simp: parse_cpu_set_def)
  obtain k where k: "slice_cpus allowed c' = Inr k"
    using lowest_nonempty[OF assms(4)] by (cases "cpu_count (c' AND allowed) = 0") (auto simp: slice_cpus_def)
  have "\<exists>r. find_optional (ns_sc sl) parts = Inr r" "\<exists>r. find_optional (ns_be sl) parts = Inr r"
    using assms(5) by (auto simp: find_optional_def slice_refs_def split: option.splits) (metis bindE.simps(2))+
  moreover obtain rf where "requested_freq (ns_frequency sl) = Inr rf" using assms(3) by (auto simp: castable_def)
  ultimately show ?thesis
    using assms(1) cpu(1) c' k
    by (auto simp: create_slice_def required_def add_slice_def slice_new_def timerfd_new_def st
        intro!: io_total_bind io_total_CHECK)
qed

lemma io_total_create_window:
  assumes "io_ok (snd st)" and "window_norm nw" and "list_all (\<lambda>sl. castable (ns_frequency sl)) (win_slices nw)" and "allowed \<noteq> 0"
    and "\<And>sl n. sl \<in> set (win_slices nw) \<Longrightarrow> n \<in> set (slice_refs sl) \<Longrightarrow> \<exists>i. find_partition n parts = Inr i"
  shows "io_total (create_window allowed parts nw st)"
proof -
  obtain ws s where st: "st = (ws, s)" by fastforce
  have "io_total (foldE (create_slice allowed parts) (win_slices nw) (w, t))" if "io_ok t" for w t
    using that assms by (intro io_total_fold io_total_create_slice) (auto simp: window_norm_def list_all_iff)
  then show ?thesis using assms(1) unfolding create_window_def st prod.case by (intro io_total_bind) auto
qed

lemma creation_total:
  assumes "normalize Y obj = Inr nc" and "creatable nc" and "io_ok s" and "allowed \<noteq> 0" and "pp_silent (cfg_policy c)"
  shows "\<exists>dc st. create_scheduler_objects c allowed cwd_of obj nc s = Inr (dc, st) \<and> io_ok (st_os st)"
proof -
  have ok: "config_ok nc" using normalize_ok[OF assms(1)] by blast
  obtain cwd where wd: "(if nc_set_cwd nc
            then bindE (ASSERT (config_file_path obj \<noteq> None) ''config_file_path != nullopt'' s) (\<lambda>_.
                 case config_file_path obj of None \<Rightarrow> Inl (Runtime_error ''bad_optional_access'')
                 | Some path \<Rightarrow> Inr (Some (cwd_of path)))
            else Inr None) = Inr cwd"
    using normalize_cwd[OF assms(1)] by (cases "nc_set_cwd nc") auto
  have "io_total (foldE (create_partition c cwd) (nc_partitions nc) ([], s))"
    using assms(2,3) ok
    by (intro io_total_fold io_total_create_partition) (auto simp: creatable_def config_ok_def list_all_iff)
  then obtain parts s1 where p: "foldE (create_partition c cwd) (nc_partitions nc) ([], s) = Inr (parts, s1)" "io_ok s1"
    by (auto simp: io_total_def)
  have "list_all2 (\<lambda>nq p. partition_of cwd nq p \<and> fresh_part p \<and> processes p \<noteq> []) (nc_partitions nc) parts"
    using create_partitions_all2[OF p(1)] ok by (simp add: config_ok_def)
  then have po: "list_all2 (partition_of cwd) (nc_partitions nc) parts" by (rule list_all2_mono) blast
  have "io_total (foldE (create_window allowed parts) (nc_windows nc) ([], s1))"
    using assms(2,4) p(2) ok refs_resolve[OF ok po]
    by (intro io_total_fold io_total_create_window) (auto simp: creatable_def config_ok_def list_all_iff)
  then obtain wins s2 where w: "foldE (create_window allowed parts) (nc_windows nc) ([], s1) = Inr (wins, s2)" "io_ok s2"
    by (auto simp: io_total_def)
  obtain dc where dc: "parse_cpu_set (nc_demos_cpu nc) allowed = Inr dc"
    using ok by (cases "nc_demos_cpu nc = ''all''") (auto simp: config_ok_def parse_cpu_set_def)
  have "pp_validate (cfg_policy c) v = Inr ()" for v
    using assms(5) by (cases "cfg_policy c") auto
  then show ?thesis using wd p w dc by (simp add: create_scheduler_objects_def)
qed

text \<open>
  C16. Creating the objects of an accepted configuration does not fail, if every process has a command and the
  frequencies fit into 64 bits (\<open>creatable\<close>), the calls of the system succeed, some CPU is allowed and the power policy has
  no handlers: then all objects are created; in particular every reference is found and no assertion of a
  process fails.
\<close>

theorem creation_succeeds:
  assumes "normalize Y obj = Inr nc" and "creatable nc" and "io_ok s" and "allowed \<noteq> 0" and "pp_silent (cfg_policy c)"
  shows "\<exists>dc st. create_scheduler_objects c allowed cwd_of obj nc s = Inr (dc, st) \<and> io_ok (st_os st)"
  using assms by (rule creation_total)

end
