(* ===== verification/Config_Roundtrip.thy ===== *)
theory Config_Roundtrip
  imports Config_Valid
begin

text \<open>
  The canonical configuration that \<open>demos-sched -d\<close> prints, as a document, is itself a configuration;
  normalising it changes nothing.
\<close>

subsection \<open>The canonical document\<close>

definition int_node :: "int \<Rightarrow> yaml" where
  "int_node i = Scalar (int_to_dec i)"

definition bool_node :: "bool \<Rightarrow> yaml" where
  "bool_node b = Scalar (if b then ''true'' else ''false'')"

definition double_node :: "yaml_cpp \<Rightarrow> flt \<Rightarrow> yaml" where
  "double_node Y d = Scalar (double_text Y d)"

definition opt_entry :: "string \<Rightarrow> ('a \<Rightarrow> yaml) \<Rightarrow> 'a option \<Rightarrow> (yaml \<times> yaml) list" where
  "opt_entry k f v = (case v of None \<Rightarrow> [] | Some x \<Rightarrow> [(Scalar k, f x)])"

text \<open>A node to which nothing was pushed is null.\<close>

definition seq_node :: "yaml list \<Rightarrow> yaml" where
  "seq_node ys = (if ys = [] then Null else Sequence ys)"

definition yaml_of_process :: "yaml_cpp \<Rightarrow> norm_process \<Rightarrow> yaml" where
  "yaml_of_process Y p = Map (opt_entry ''cmd'' Scalar (np_cmd p) @ opt_entry ''budget'' int_node (np_budget p) @
     opt_entry ''jitter'' int_node (np_jitter p) @ opt_entry ''init'' bool_node (np_init p) @
     opt_entry ''frequency'' (double_node Y) (np_frequency p))"

definition yaml_of_partition :: "yaml_cpp \<Rightarrow> norm_partition \<Rightarrow> yaml" where
  "yaml_of_partition Y q = Map [(Scalar ''name'', Scalar (nq_name q)),
     (Scalar ''processes'', seq_node (map (yaml_of_process Y) (nq_processes q)))]"

definition yaml_of_slice :: "yaml_cpp \<Rightarrow> norm_slice \<Rightarrow> yaml" where
  "yaml_of_slice Y sl = Map (opt_entry ''cpu'' Scalar (ns_cpu sl) @ opt_entry ''frequency'' (double_node Y) (ns_frequency sl) @
     opt_entry ''sc_partition'' Scalar (ns_sc sl) @ opt_entry ''be_partition'' Scalar (ns_be sl))"

definition yaml_of_window :: "yaml_cpp \<Rightarrow> norm_window \<Rightarrow> yaml" where
  "yaml_of_window Y w = Map ((Scalar ''length'', int_node (nw_length w)) #
     opt_entry ''slices'' (\<lambda>sls. seq_node (map (yaml_of_slice Y) sls)) (nw_slices w))"

definition yaml_of_config :: "yaml_cpp \<Rightarrow> norm_config \<Rightarrow> yaml" where
  "yaml_of_config Y nc = Map [(Scalar ''set_cwd'', bool_node (nc_set_cwd nc)), (Scalar ''demos_cpu'', Scalar (nc_demos_cpu nc)),
     (Scalar ''partitions'', seq_node (map (yaml_of_partition Y) (nc_partitions nc))),
     (Scalar ''windows'', seq_node (map (yaml_of_window Y) (nc_windows nc)))]"

text \<open>The conversions read back what the program writes.\<close>

definition yaml_emits :: "yaml_cpp \<Rightarrow> bool" where
  "yaml_emits Y \<longleftrightarrow> yaml_ok Y \<and> (\<forall>i. conv_int Y (int_node i) = Some i) \<and> (\<forall>b. conv_bool Y (bool_node b) = Some b) \<and>
     (\<forall>d. conv_double Y (double_node Y d) = Some d)"

lemma yaml_emits_simps [simp]:
  assumes "yaml_emits Y"
  shows "conv_string Y (Scalar s) = Some s" "conv_int Y (int_node i) = Some i" "conv_bool Y (bool_node b) = Some b"
    "conv_double Y (double_node Y d) = Some d"
  using assms by (auto simp: yaml_emits_def)

lemma elements_seq_node [simp]: "elements (Some (seq_node ys)) = Inr ys"
  by (simp add: seq_node_def)

subsection \<open>Reading it back\<close>

definition budgets_double :: "norm_process \<Rightarrow> bool" where
  "budgets_double p \<longleftrightarrow> (case np_budget p of None \<Rightarrow> True | Some b \<Rightarrow> 2 * b \<le> int_max)"

lemmas key_simps = map_get_def opt_entry_def subscript_as_def converted_def

lemma read_process_canonical:
  assumes "yaml_emits Y" and "process_norm p"
  shows "read_process Y (yaml_of_process Y p) = Inr p"
proof -
  from assms(2) obtain b j i where p: "np_budget p = Some b" "np_jitter p = Some j" "np_init p = Some i"
    by (auto simp: process_norm_def)
  show ?thesis
    by (cases p; cases "np_cmd p"; cases "np_frequency p")
      (use assms(1) p in \<open>simp_all add: read_process_def yaml_of_process_def key_simps process_key_def empty_process_def\<close>)
qed

lemma normalize_process_canonical:
  assumes "yaml_emits Y" and "process_norm p" and "budgets_double p"
  shows "normalize_process Y (yaml_of_process Y p) d = Inr p"
  using assms read_process_canonical[OF assms(1,2)]
  by (cases p) (auto simp: normalize_process_def process_norm_def budgets_double_def check_jitter_def)

lemma normalize_processes_canonical:
  assumes "yaml_emits Y" and "list_all process_norm ps" and "list_all budgets_double ps"
  shows "normalize_processes Y (Sequence (map (yaml_of_process Y) ps)) d = Inr ps"
  using assms by (auto simp: normalize_processes_def traverse_Inr_iff list_all2_conv_all_nth list_all_length
      intro!: normalize_process_canonical)

lemma normalize_partition_canonical:
  assumes "yaml_emits Y" and "partition_norm q" and "list_all budgets_double (nq_processes q)"
  shows "normalize_partition Y (yaml_of_partition Y q) d k = Inr (q, k)"
proof -
  have "nq_processes q \<noteq> []" "list_all process_norm (nq_processes q)" using assms(2) by (auto simp: partition_norm_def)
  with assms(1,3) show ?thesis
    by (cases q) (simp add: normalize_partition_def yaml_of_partition_def partition_key_def seq_node_def key_simps
        normalize_processes_canonical)
qed

lemma normalize_partitions_canonical:
  assumes "yaml_emits Y" and "list_all partition_norm qs" and "list_all (\<lambda>q. list_all budgets_double (nq_processes q)) qs"
  shows "normalize_partitions Y (map (yaml_of_partition Y) qs) (defs, k) = Inr (defs @ qs, k)"
  using assms(2,3)
  by (induction qs arbitrary: defs) (simp_all add: define_partition_def normalize_partition_canonical[OF assms(1)])

lemma normalize_slice_canonical:
  assumes "yaml_emits Y" and "slice_norm sl"
  shows "normalize_slice Y (yaml_of_slice Y sl) len defs = Inr (sl, defs)"
proof -
  from assms(2) obtain cpu s where cpu: "ns_cpu sl = Some cpu" "parse_cpu_set cpu 0 = Inr s" by (auto simp: slice_norm_def)
  obtain ds k where defs: "defs = (ds, k)" by fastforce
  show ?thesis
    by (cases sl; cases "ns_frequency sl"; cases "ns_sc sl"; cases "ns_be sl")
      (use assms(1) cpu in \<open>simp_all add: normalize_slice_def yaml_of_slice_def key_simps slice_key_def slice_value_def
         process_xx_partition_and_get_name_def defs\<close>)
qed

lemma normalize_slices_canonical:
  "yaml_emits Y \<Longrightarrow> list_all slice_norm sls \<Longrightarrow>
    normalize_slices Y len (map (yaml_of_slice Y) sls) defs = Inr (sls, defs)"
  by (induction sls) (simp_all add: normalize_slice_canonical)

lemma normalize_window_canonical:
  assumes "yaml_emits Y" and "window_norm w"
  shows "normalize_window Y (yaml_of_window Y w) defs = Inr (w, defs)"
proof (cases "nw_slices w")
  case None
  with assms show ?thesis
    by (cases w; cases defs) (simp add: normalize_window_def yaml_of_window_def key_simps check_window_keys_def has_key_def window_key_def)
next
  case (Some sls)
  with assms have "list_all slice_norm sls" by (simp add: window_norm_def)
  with assms Some show ?thesis
    by (cases w; cases defs) (simp add: normalize_window_def yaml_of_window_def key_simps check_window_keys_def has_key_def
        window_key_def normalize_slices_canonical)
qed

lemma normalize_windows_canonical:
  "yaml_emits Y \<Longrightarrow> list_all window_norm ws \<Longrightarrow>
    normalize_windows Y (map (yaml_of_window Y) ws) defs = Inr (ws, defs)"
  by (induction ws) (simp_all add: normalize_window_canonical)


end
