(* ===== verification/Config_Examples.thy ===== *)
theory Config_Examples
  imports Config_Objects Config_Roundtrip
begin

text \<open>
  Configurations evaluated: an instance of the parameters that stand for yaml-cpp and the normal forms
  that the test suite of the repository expects.
\<close>

subsection \<open>The examples of the test suite\<close>

text \<open>An instance of the parameters: decimal numbers, the boolean words of YAML.\<close>

definition read_int :: "string \<Rightarrow> int option" where
  "read_int s = (case s of
     CHR ''-'' # t \<Rightarrow> if t \<noteq> [] \<and> list_all is_digit t then Some (- int (dec_to_nat t)) else None
   | _ \<Rightarrow> if s \<noteq> [] \<and> list_all is_digit s then Some (int (dec_to_nat s)) else None)"

definition scalar_as :: "(string \<Rightarrow> 'a option) \<Rightarrow> yaml \<Rightarrow> 'a option" where
  "scalar_as f n = (case n of Scalar s \<Rightarrow> f s | _ \<Rightarrow> None)"

text \<open>A \<open>double\<close> is written as an integer or as a fraction.\<close>

definition read_double :: "string \<Rightarrow> flt option" where
  "read_double s = (case dropWhile (\<lambda>c. c \<noteq> CHR ''/'') s of
     [] \<Rightarrow> map_option (\<lambda>i. Finite (of_int i)) (read_int s)
   | _ # t \<Rightarrow> (case (read_int (takeWhile (\<lambda>c. c \<noteq> CHR ''/'') s), read_int t) of
       (Some a, Some b) \<Rightarrow> Some (if b = 0 then Non_finite else Finite (of_int a / of_int b))
     | _ \<Rightarrow> None))"

definition write_double :: "flt \<Rightarrow> string" where
  "write_double d = (case d of Non_finite \<Rightarrow> ''0/0''
     | Finite x \<Rightarrow> (case quotient_of x of (a, b) \<Rightarrow> int_to_dec a @ ''/'' @ int_to_dec b))"

definition demo_yaml :: yaml_cpp where
  "demo_yaml = \<lparr>conv_string = scalar_as Some, conv_int = scalar_as read_int,
     conv_bool = scalar_as (\<lambda>s. if s \<in> set [''true'', ''yes''] then Some True
                                else if s \<in> set [''false'', ''no''] then Some False else None),
     conv_double = scalar_as read_double, double_text = write_double\<rparr>"

lemma read_int_to_dec: "read_int (int_to_dec i) = Some i"
proof (cases "i < 0")
  case True
  then show ?thesis by (simp add: read_int_def int_to_dec_def list_all_iff nat_to_dec_digits)
next
  case False
  obtain c t where ct: "nat_to_dec (nat i) = c # t" by (cases "nat_to_dec (nat i)") auto
  have "is_digit c" using hd_nat_to_dec_digit[of "nat i"] ct by simp
  then have "c \<noteq> CHR ''-''" by (auto simp: is_digit_def)
  then have "read_int (c # t) = (if list_all is_digit (c # t) then Some (int (dec_to_nat (c # t))) else None)"
    by (auto simp: read_int_def split: char.splits bool.splits)
  moreover have "list_all is_digit (nat_to_dec (nat i))" by (simp add: list_all_iff nat_to_dec_digits)
  ultimately show ?thesis using False ct[symmetric] by (simp add: int_to_dec_def)
qed

lemma no_slash: "c \<in> set (int_to_dec i) \<Longrightarrow> c \<noteq> CHR ''/''"
  using nat_to_dec_digits[of c] by (auto simp: int_to_dec_def is_digit_def split: if_splits)

lemma read_write_double: "read_double (write_double d) = Some d"
proof (cases d)
  case (Finite x)
  obtain a b where ab: "quotient_of x = (a, b)" by fastforce
  have x: "of_int a / of_int b = x" and b: "b \<noteq> 0" using quotient_of_div[OF ab] quotient_of_denom_pos[OF ab] by auto
  have "takeWhile (\<lambda>c. c \<noteq> CHR ''/'') (int_to_dec a @ CHR ''/'' # t) = int_to_dec a"
    "dropWhile (\<lambda>c. c \<noteq> CHR ''/'') (int_to_dec a @ CHR ''/'' # t) = CHR ''/'' # t" for t
    using no_slash by (simp_all add: takeWhile_append2 dropWhile_append2)
  then show ?thesis using b by (simp add: read_double_def write_double_def Finite ab x read_int_to_dec)
qed (simp add: write_double_def read_double_def read_int_def is_digit_def dec_to_nat_def)

lemma demo_yaml_emits: "yaml_emits demo_yaml"
  unfolding yaml_emits_def yaml_ok_def
  by (simp add: demo_yaml_def scalar_as_def int_node_def bool_node_def double_node_def read_int_to_dec read_write_double
      del: yaml_emits_simps yaml_ok_simps)

lemma demo_yaml_ok: "yaml_ok demo_yaml"
  using demo_yaml_emits unfolding yaml_emits_def by blast

definition mapping :: "(string \<times> yaml) list \<Rightarrow> yaml" where
  "mapping kvs = Map (map (\<lambda>(k, v). (Scalar k, v)) kvs)"

definition inline_config :: "(string \<times> yaml) list \<Rightarrow> config_obj" where
  "inline_config kvs = \<lparr>config = mapping kvs, config_is_regular_file = False, config_file_path = None,
     anonymous_partition_counter = 0\<rparr>"

definition proc_def :: "string \<Rightarrow> int \<Rightarrow> int \<Rightarrow> norm_process" where
  "proc_def cmd b j = \<lparr>np_cmd = Some cmd, np_budget = Some b, np_jitter = Some j, np_init = Some False, np_frequency = None\<rparr>"

definition one_window :: "norm_partition list \<Rightarrow> int \<Rightarrow> string \<Rightarrow> norm_config" where
  "one_window parts len sc = \<lparr>nc_set_cwd = False, nc_demos_cpu = ''all'', nc_partitions = parts,
     nc_windows = [\<lparr>nw_length = len, nw_slices = Some
       [\<lparr>ns_cpu = Some ''all'', ns_frequency = None, ns_sc = Some sc, ns_be = None\<rparr>]\<rparr>]\<rparr>"

text \<open>
  The normal forms that \<open>src/test/0200-config.bats\<close> expects: an inline slice and named partitions, a
  partition defined in the window, a single process in place of a partition, processes as strings
  with the default budgets \<open>0.6 * 500\<close> and half of it, an empty window, and the rejected inputs.
\<close>

lemma test_suite_normal_forms:
  "normalize demo_yaml (inline_config
      [(''windows'', Sequence [mapping [(''length'', Scalar ''500''), (''sc_partition'', Scalar ''SC'')]]),
       (''partitions'', Sequence [mapping [(''name'', Scalar ''SC''), (''processes'', Sequence [mapping
          [(''cmd'', Scalar ''echo''), (''budget'', Scalar ''100''), (''jitter'', Scalar ''50'')]])]])]) =
     Inr (one_window [\<lparr>nq_name = ''SC'', nq_processes = [proc_def ''echo'' 100 50]\<rparr>] 500 ''SC'') \<and>
   normalize demo_yaml (inline_config
      [(''windows'', Sequence [mapping [(''length'', Scalar ''500''),
          (''sc_partition'', mapping [(''cmd'', Scalar ''proc1''), (''budget'', Scalar ''500'')])]])]) =
     Inr (one_window [\<lparr>nq_name = ''anonymous_0'', nq_processes = [proc_def ''proc1'' 500 0]\<rparr>] 500 ''anonymous_0'') \<and>
   normalize demo_yaml (inline_config
      [(''windows'', Sequence [mapping [(''length'', Scalar ''500''),
          (''sc_partition'', Sequence [mapping [(''cmd'', Scalar ''proc1'')]])]])]) =
     Inr (one_window [\<lparr>nq_name = ''anonymous_0'', nq_processes = [proc_def ''proc1'' 300 0]\<rparr>] 500 ''anonymous_0'') \<and>
   normalize demo_yaml (inline_config
      [(''windows'', Sequence [mapping [(''length'', Scalar ''500''),
          (''sc_processes'', Sequence [Scalar ''proc1'', Scalar ''proc2''])]])]) =
     Inr (one_window [\<lparr>nq_name = ''anonymous_0'', nq_processes = [proc_def ''proc1'' 150 0, proc_def ''proc2'' 150 0]\<rparr>]
            500 ''anonymous_0'') \<and>
   normalize demo_yaml (inline_config [(''windows'', Sequence [mapping [(''length'', Scalar ''1000'')]])]) =
     Inr \<lparr>nc_set_cwd = False, nc_demos_cpu = ''all'', nc_partitions = [], nc_windows = [\<lparr>nw_length = 1000, nw_slices = None\<rparr>]\<rparr> \<and>
   normalize demo_yaml (inline_config
      [(''partitions'', Sequence [mapping [(''name'', Scalar ''p1''), (''processes'', Sequence [mapping [(''cmd'', Scalar ''proc1'')]])]]),
       (''windows'', Sequence [mapping [(''length'', Scalar ''100''), (''sc_partition'', Scalar ''p1'')]])]) =
     Inl (Runtime_error ''Missing budget in process definition'') \<and>
   normalize demo_yaml (inline_config [(''windows'', Sequence [mapping [(''length'', Scalar ''100''), (''slices'', Sequence [mapping []])]])]) =
     Inl (Runtime_error ''Missing cpu set in slice definition (`cpu` property)'') \<and>
   normalize demo_yaml (inline_config [(''set_cwd'', Scalar ''yes'')]) =
     Inl (Runtime_error ''set_cwd cannot be used in inline config string'') \<and>
   normalize demo_yaml (inline_config [(''windows'', Sequence []), (''partitions'', Sequence []), (''garbage'', Scalar ''garbage'')]) =
     Inl (Runtime_error ''Unexpected config key: garbage'')"
  by code_simp

subsection \<open>A configuration with two slices\<close>

text \<open>CPU lists of the examples.\<close>

lemma cpu_set_of_single:
  assumes "parse_range t = Some (of_nat a, of_nat b, 1, [])" and "nexttoken (Some t) (CHR '','') = None" and "a \<le> b" and "b < max_cpus"
  shows "cpu_set_of_string t False = Inr (fold set_cpu [a..<Suc b] 0)"
proof -
  have "set_range False (of_nat a) (of_nat b) 1 0 = Some (False, fold set_cpu [a..<Suc b] 0)"
    using assms(3,4) by (intro set_range_in_bounds) auto
  with assms(1,2) show ?thesis by (simp add: cpu_set_of_string_def cpulist_parse_def del: upt_Suc)
qed
lemmas parse_eval = parse_range_def nextnumber_def is_digit_def dec_to_nat_def nexttoken_def strchr_def ptr_before_def

lemma demo_cpu_sets:
  "cpu_set_of_string ''0'' False = Inr 1" "cpu_set_of_string ''1'' False = Inr 2" "cpu_set_of_string ''2'' False = Inr 4"
  "cpu_set_of_string ''1-2'' False = Inr 6"
proof -
  have p: "parse_range ''0'' = Some (0, 0, 1, [])" "parse_range ''1'' = Some (1, 1, 1, [])" "parse_range ''2'' = Some (2, 2, 1, [])"
    "parse_range ''1-2'' = Some (1, 2, 1, [])" by (simp_all add: parse_eval)
  have n: "nexttoken (Some ''0'') (CHR '','') = None" "nexttoken (Some ''1'') (CHR '','') = None"
    "nexttoken (Some ''2'') (CHR '','') = None" "nexttoken (Some ''1-2'') (CHR '','') = None" by (simp_all add: parse_eval)
  show "cpu_set_of_string ''0'' False = Inr 1"
    using cpu_set_of_single[of "''0''" 0 0] p n by (simp add: set_cpu_def max_cpus_def)
  show "cpu_set_of_string ''1'' False = Inr 2"
    using cpu_set_of_single[of "''1''" 1 1] p n by (simp add: set_cpu_def max_cpus_def)
  show "cpu_set_of_string ''2'' False = Inr 4"
    using cpu_set_of_single[of "''2''" 2 2] p n by (simp add: set_cpu_def max_cpus_def)
  show "cpu_set_of_string ''1-2'' False = Inr 6"
    using cpu_set_of_single[of "''1-2''" 1 2] p n by (simp add: set_cpu_def max_cpus_def upt_rec)
qed

text \<open>Two slices, on CPU 0 and on CPUs 1 and 2; the partition of the second one is defined in the slice.\<close>

definition demo_document :: yaml where
  "demo_document = mapping
     [(''partitions'', Sequence [mapping [(''name'', Scalar ''SC''), (''processes'', Sequence [mapping
         [(''cmd'', Scalar ''sc''), (''budget'', Scalar ''5''), (''jitter'', Scalar ''4'')]])]]),
      (''windows'', Sequence [mapping [(''length'', Scalar ''10''), (''slices'', Sequence
         [mapping [(''cpu'', Scalar ''0''), (''sc_partition'', Scalar ''SC'')],
          mapping [(''cpu'', Scalar ''1-2''), (''be_partition'', mapping [(''cmd'', Scalar ''be''), (''budget'', Scalar ''5'')])]])]])]"

definition demo_obj :: config_obj where
  "demo_obj = \<lparr>config = demo_document, config_is_regular_file = False, config_file_path = None, anonymous_partition_counter = 0\<rparr>"

definition demo_nc :: norm_config where
  "demo_nc = \<lparr>nc_set_cwd = False, nc_demos_cpu = ''all'',
     nc_partitions = [\<lparr>nq_name = ''SC'', nq_processes = [proc_def ''sc'' 5 4]\<rparr>,
       \<lparr>nq_name = ''anonymous_0'', nq_processes = [proc_def ''be'' 5 0]\<rparr>],
     nc_windows = [\<lparr>nw_length = 10, nw_slices = Some
       [\<lparr>ns_cpu = Some ''0'', ns_frequency = None, ns_sc = Some ''SC'', ns_be = None\<rparr>,
        \<lparr>ns_cpu = Some ''1-2'', ns_frequency = None, ns_sc = None, ns_be = Some ''anonymous_0''\<rparr>]\<rparr>]\<rparr>"

definition demo_cgroups :: cgroup_config where
  "demo_cgroups = \<lparr>unified_cg = ''/u'', cpuset_cg = ''/c'', freezer_cg = ''/f'', cfg_policy = PowerPolicy_None\<rparr>"

lemma anonymous_0: "anonymous_name 0 = ''anonymous_0''"
  by code_simp

lemmas normalize_eval = normalize_def mapping_def key_simps demo_yaml_def scalar_as_def read_set_cwd_def parse_cpu_set_def
  normalize_partitions.simps define_partition_def normalize_partition_def partition_key_def normalize_processes_def
  normalize_process_def read_process_def process_key_def empty_process_def check_jitter_def int_max_def read_int_def
  is_digit_def dec_to_nat_def normalize_windows.simps normalize_window_def check_window_keys_def has_key_def window_key_def
  normalize_slice_def slice_key_def slice_value_def process_xx_partition_and_get_name_def single_process_keys_def
  node_of_def anonymous_0 validate_config_def check_references_def slice_refs_def
  check_overlap_def cpu_nonempty_iff demo_cpu_sets proc_def_def

lemma demo_normal: "normalize demo_yaml demo_obj = Inr demo_nc"
  by (simp add: normalize_eval demo_obj_def demo_document_def demo_nc_def)

lemma demo_created:
  assumes "allowed \<noteq> 0"
  obtains dc st where "create_scheduler_objects demo_cgroups allowed id demo_obj demo_nc (quiet_os True) = Inr (dc, st)"
proof -
  have "creatable demo_nc"
    by (simp add: creatable_def demo_nc_def proc_def_def castable_def requested_freq_def)
  moreover have "pp_silent (cfg_policy demo_cgroups)" by (simp add: demo_cgroups_def)
  moreover have "nc_set_cwd demo_nc = False" by (simp add: demo_nc_def)
  ultimately show ?thesis using creation_total[OF demo_normal _ _ assms, of "quiet_os True" demo_cgroups id] that by auto
qed

theorem normalized_config_ok_witness:
  "config_ok demo_nc \<and> disjoint_slices 3 (win_slices (hd (nc_windows demo_nc)))"
proof -
  have "hd (nc_windows demo_nc) \<in> set (nc_windows demo_nc)" by (simp add: demo_nc_def)
  with normalized_config_ok[OF demo_normal] show ?thesis by blast
qed

theorem default_budgets_exact_witness:
  "normalize_processes demo_yaml (Sequence [Scalar ''a'', Scalar ''b'']) (flt_mult 24 (float_of_int 500) sc_share) =
     Inr [default_process 150 ''a'', default_process 150 ''b'']"
  using default_budgets_exact[OF demo_yaml_ok, of 500 "[''a'', ''b'']"] by (simp add: Let_def)


theorem creation_succeeds_witness:
  "\<exists>dc st. create_scheduler_objects demo_cgroups 3 id demo_obj demo_nc (quiet_os True) = Inr (dc, st) \<and> io_ok (st_os st)"
  by (rule creation_succeeds[OF demo_normal])
    (simp_all add: creatable_def demo_nc_def proc_def_def castable_def requested_freq_def demo_cgroups_def)

theorem objects_implement_config_witness:
  "\<exists>dc st. create_scheduler_objects demo_cgroups 3 id demo_obj demo_nc (quiet_os True) = Inr (dc, st) \<and>
     list_all2 (window_of 3 (partitions st)) (nc_windows demo_nc) (windows st)"
proof -
  obtain dc st where c: "create_scheduler_objects demo_cgroups 3 id demo_obj demo_nc (quiet_os True) = Inr (dc, st)"
    by (rule demo_created[of 3]) simp
  from objects_implement_config[OF demo_normal c] c show ?thesis by blast
qed

theorem slices_have_disjoint_cpus_witness:
  "\<exists>dc st. create_scheduler_objects demo_cgroups 3 id demo_obj demo_nc (quiet_os True) = Inr (dc, st) \<and>
     sl_cpus (slices (windows st ! 0) ! 0) AND sl_cpus (slices (windows st ! 0) ! 1) = 0"
proof -
  obtain dc st where c: "create_scheduler_objects demo_cgroups 3 id demo_obj demo_nc (quiet_os True) = Inr (dc, st)"
    by (rule demo_created[of 3]) simp
  have "list_all2 (window_of 3 (partitions st)) (nc_windows demo_nc) (windows st)"
    using objects_of_config[OF demo_normal c] by blast
  then have l: "0 < length (windows st)" "0 < length (slices (windows st ! 0))" "1 < length (slices (windows st ! 0))"
    by (auto simp: demo_nc_def list_all2_Cons1 window_of_def)
  have "parsed_cpus 3 (win_slices (nc_windows demo_nc ! 0) ! 0) = Inr 1" "parsed_cpus 3 (win_slices (nc_windows demo_nc ! 0) ! 1) = Inr 6"
    by (simp_all add: parsed_cpus_def demo_nc_def parse_cpu_set_def demo_cpu_sets)
  then have "\<forall>k \<in> {0, 1}. \<forall>t. parsed_cpus 3 (win_slices (nc_windows demo_nc ! 0) ! k) = Inr t \<longrightarrow> t AND 3 \<noteq> 0" by simp
  with slices_have_disjoint_cpus[OF demo_normal c l(1,2)] l(3) c show ?thesis by (metis zero_neq_one)
qed

lemma created_objects_configured_witness:
  "\<exists>dc st. create_scheduler_objects demo_cgroups 3 id demo_obj demo_nc (quiet_os True) = Inr (dc, st) \<and>
     configured (partitions st) (windows st)"
proof -
  obtain dc st where c: "create_scheduler_objects demo_cgroups 3 id demo_obj demo_nc (quiet_os True) = Inr (dc, st)"
    by (rule demo_created[of 3]) simp
  have "single_use demo_nc" by (auto simp: single_use_def demo_nc_def slice_refs_def less_Suc_eq nth_Cons')
  with created_objects_configured[OF demo_normal c] c show ?thesis by (auto simp: demo_nc_def)
qed

subsection \<open>What validation does not catch\<close>

text \<open>
  Slices configured on the disjoint CPUs 1 and 2 both fall back to CPU 0 when only that is allowed.
\<close>

lemma fallback_overlaps:
  "parse_cpu_set ''1'' 1 = Inr 2 \<and> parse_cpu_set ''2'' 1 = Inr 4 \<and> slice_cpus 1 2 = Inr 1 \<and> slice_cpus 1 4 = Inr 1"
proof -
  have "slice_cpus 1 2 = Inr 1" "slice_cpus 1 4 = Inr 1" by code_simp+
  then show ?thesis by (simp add: parse_cpu_set_def demo_cpu_sets)
qed

text \<open>The same partition in two slices of a window is accepted.\<close>

lemma shared_partition_accepted:
  "\<exists>nc. normalize demo_yaml (inline_config
      [(''partitions'', Sequence [mapping [(''name'', Scalar ''SC''), (''processes'', Sequence [mapping
         [(''cmd'', Scalar ''sc''), (''budget'', Scalar ''5'')]])]]),
       (''windows'', Sequence [mapping [(''length'', Scalar ''10''), (''slices'', Sequence
         [mapping [(''cpu'', Scalar ''0''), (''sc_partition'', Scalar ''SC'')],
          mapping [(''cpu'', Scalar ''1''), (''sc_partition'', Scalar ''SC'')]])]])]) = Inr nc \<and> \<not> single_use nc"
  by (simp add: normalize_eval inline_config_def single_use_def less_Suc_eq nth_Cons') auto

text \<open>
  The canonical form of a process whose budget exceeds half of the largest \<open>int\<close> spells out the jitter
  and then overflows.
\<close>

lemma canonical_budget_overflows:
  "normalize_process demo_yaml (mapping [(''cmd'', Scalar ''c''), (''budget'', Scalar ''2000000000'')]) Non_finite =
     Inr (proc_def ''c'' 2000000000 0) \<and>
   normalize_process demo_yaml (yaml_of_process demo_yaml (proc_def ''c'' 2000000000 0)) Non_finite =
     Inl (Undefined_behaviour ''signed overflow of 2 * budget'')"
proof -
  have "read_process demo_yaml (yaml_of_process demo_yaml (proc_def ''c'' 2000000000 0)) = Inr (proc_def ''c'' 2000000000 0)"
    by (rule read_process_canonical[OF demo_yaml_emits]) (auto simp: process_norm_def proc_def_def)
  then show ?thesis by (simp add: normalize_eval)
qed

end
