(* ===== verification/Cgroup_Setup.thy ===== *)
theory Cgroup_Setup
  imports Cgroup Power_Manager Scan
begin

text \<open>
  The top-level cgroups (\<open>src/src/cgroup_setup.cpp\<close>). The files that are read are a parameter
  (\<open>None\<close> for a file that cannot be opened); the two string streams are lists of lines. An operation
  whose exception is caught gives its errno and the system after it.
\<close>

subsection \<open>The cgroups of the program\<close>

record cgroup_paths =
  unified_path :: string
  freezer_path :: string
  cpuset_path :: string
  cs_cpus :: string
  cs_mems :: string

definition no_paths :: cgroup_paths where
  "no_paths = \<lparr>unified_path = [], freezer_path = [], cpuset_path = [], cs_cpus = [], cs_mems = []\<rparr>"

text \<open>\<open>while (cgroup_f >> num >> path)\<close>.\<close>

function read_entries :: "string \<Rightarrow> (int \<times> string) list" where
  "read_entries s = (case scan_int s of None \<Rightarrow> []
     | Some (num, r) \<Rightarrow> (case scan_word r of None \<Rightarrow> [] | Some (path, r') \<Rightarrow> (num, path) # read_entries r'))"
  by pat_completeness auto

termination
  by (relation "measure length") (auto dest!: scan_int_length scan_word_length)

declare read_entries.simps [simp del]

text \<open>\<open>ifstream(file) >> s\<close> leaves \<open>s\<close> as it is where the file cannot be opened or holds no word.\<close>

definition read_word :: "string option \<Rightarrow> string \<Rightarrow> string" where
  "read_word file old = (case file of None \<Rightarrow> old | Some t \<Rightarrow> (case scan_word t of None \<Rightarrow> old | Some (w, r) \<Rightarrow> w))"

definition cgroup_entry ::
  "string \<Rightarrow> (string \<Rightarrow> string option) \<Rightarrow> int \<times> string \<Rightarrow> cgroup_paths \<Rightarrow> cgroup_paths result" where
  "cgroup_entry name fs = (\<lambda>(num, path) p.
     bindE (if num = 0
            then (if length path < 2 then Inl (Runtime_error ''out_of_range'')
                  else Inr (p\<lparr>unified_path := ''/sys/fs/cgroup/unified'' @ drop 2 path @ ''/'' @ name\<rparr>))
            else Inr p) (\<lambda>p.
     let p = (if prefix '':freezer:'' path
              then p\<lparr>freezer_path := ''/sys/fs/cgroup/freezer'' @ drop 9 path @ ''/'' @ name\<rparr> else p) in
     Inr (if prefix '':cpuset:'' path
          then (let parent = ''/sys/fs/cgroup/cpuset'' @ drop 8 path in
                p\<lparr>cpuset_path := parent @ ''/'' @ name,
                  cs_cpus := read_word (fs (parent @ ''/cpuset.effective_cpus'')) (cs_cpus p),
                  cs_mems := read_word (fs (parent @ ''/cpuset.effective_mems'')) (cs_mems p)\<rparr>)
          else p)))"

definition find_paths :: "string \<Rightarrow> (string \<Rightarrow> string option) \<Rightarrow> cgroup_paths result" where
  "find_paths name fs =
     bindE (foldE (cgroup_entry name fs) (case fs ''/proc/self/cgroup'' of None \<Rightarrow> [] | Some t \<Rightarrow> read_entries t) no_paths) (\<lambda>p.
     if unified_path p = [] then Inl (Runtime_error ''unified cgroup not found'')
     else if freezer_path p = [] then Inl (Runtime_error ''freezer cgroup not found'')
     else if cpuset_path p = [] then Inl (Runtime_error ''cpuset cgroup not found'')
     else Inr p)"

subsection \<open>Creating them\<close>

definition EPERM :: nat where
  "EPERM = 1"

definition EROFS :: nat where
  "EROFS = 30"

text \<open>The commands the user is told to run: \<open>commands\<close> and \<open>mount_cmds\<close>.\<close>

type_synonym advice = "string list \<times> string list"

definition handle_cgroup_exc :: "nat \<Rightarrow> string \<Rightarrow> advice \<Rightarrow> advice result" where
  "handle_cgroup_exc errno sys_fs_cg_path = (\<lambda>(commands, mount_cmds).
     if errno \<in> {EACCES, EPERM} then Inr (commands @ [''sudo mkdir '' @ sys_fs_cg_path], mount_cmds)
     else if errno \<in> {EROFS, ENOENT} then
       (if \<not> prefix ''/sys/fs/cgroup/'' sys_fs_cg_path
        then Inl (Runtime_error (''Unexpected cgroup path '' @ sys_fs_cg_path))
        else if str_contains ''freezer/'' (drop 15 sys_fs_cg_path)
        then Inr (commands, mount_cmds @ [''mount -t cgroup -o freezer none /sys/fs/cgroup/freezer''])
        else if str_contains ''cpuset/'' (drop 15 sys_fs_cg_path)
        then Inr (commands, mount_cmds @ [''mount -t cgroup -o cpuset none /sys/fs/cgroup/cpuset''])
        else if str_contains ''unified/'' (drop 15 sys_fs_cg_path)
        then Inr (commands, mount_cmds @ [''mount -t cgroup2 none /sys/fs/cgroup/unified''])
        else Inl (Runtime_error (''Unexpected cgroup controller path'' @ sys_fs_cg_path)))
     else Inl (IO_error errno))"

text \<open>\<open>try { cg = Cgroup(path, true); } catch\<close>: the cgroup stays default constructed where it throws.\<close>

definition no_cgroup :: cgroup where
  "no_cgroup = \<lparr>cg_remove = True, cg_path = []\<rparr>"

definition try_cgroup :: "string \<Rightarrow> advice \<times> os \<Rightarrow> (cgroup \<times> advice \<times> os) result" where
  "try_cgroup path = (\<lambda>(adv, s).
     case cgroup_new path True s of
       Inr (g, t) \<Rightarrow> Inr (g, adv, t)
     | Inl _ \<Rightarrow>
         (case syscall (Mkdir path) s of
            (None, t) \<Rightarrow> Inr (no_cgroup, adv, t)
          | (Some errno, t) \<Rightarrow> bindE (handle_cgroup_exc errno path adv) (\<lambda>adv. Inr (no_cgroup, adv, t))))"

text \<open>\<open>cg.add_process(pid)\<close> with its exception caught: whether it succeeded, and the system after it.\<close>

definition try_add_process :: "cgroup \<Rightarrow> int \<Rightarrow> os \<Rightarrow> bool \<times> os" where
  "try_add_process g p s =
     (let file = cg_path g @ ''/cgroup.procs'' in
      case syscall (Open file) s of
        (Some e, t) \<Rightarrow> (False, t)
      | (None, t) \<Rightarrow> (case syscall (Write file (int_to_dec p)) t of (Some e, u) \<Rightarrow> (False, u) | (None, u) \<Rightarrow> (True, u)))"

definition add_or_advise :: "cgroup \<Rightarrow> int \<Rightarrow> string list \<Rightarrow> advice \<times> os \<Rightarrow> advice \<times> os" where
  "add_or_advise g p lines = (\<lambda>((commands, mounts), s).
     case try_add_process g p s of (True, t) \<Rightarrow> ((commands, mounts), t) | (False, t) \<Rightarrow> ((commands @ lines, mounts), t))"

definition chown_line :: "int \<Rightarrow> string \<Rightarrow> string" where
  "chown_line uid path = ''sudo chown -R '' @ int_to_dec uid @ '' '' @ path"

text \<open>One controller: create its cgroup, initialise it, and test it with the child process.\<close>

definition setup_cgroup ::
  "string \<Rightarrow> (os \<Rightarrow> os) \<Rightarrow> int \<Rightarrow> string list \<Rightarrow> advice \<times> os \<Rightarrow> (cgroup \<times> advice \<times> os) result" where
  "setup_cgroup path initialise child lines st =
     bindE (try_cgroup path st) (\<lambda>(g, adv, s).
     Inr (g, add_or_advise g child lines (adv, if cg_path g = [] then s else initialise s)))"

definition initialise_cpuset :: "cgroup_paths \<Rightarrow> os \<Rightarrow> os" where
  "initialise_cpuset p s =
     write_stream (cpuset_path p @ ''/cgroup.clone_children'') ''1''
       (write_stream (cpuset_path p @ ''/cpuset.mems'') (cs_mems p)
         (write_stream (cpuset_path p @ ''/cpuset.cpus'') (cs_cpus p) s))"

record toplevel =
  tl_unified :: cgroup
  tl_freezer :: cgroup
  tl_cpuset :: cgroup
  tl_advice :: advice

definition create_toplevel_cgroups ::
  "string \<Rightarrow> (string \<Rightarrow> string option) \<Rightarrow> int \<Rightarrow> int \<Rightarrow> os \<Rightarrow> (bool \<times> toplevel \<times> os) result" where
  "create_toplevel_cgroups name fs uid ppid s =
     bindE (find_paths name fs) (\<lambda>p.
     bindE (CHECK Fork s) (\<lambda>s'.
     let child = fork_pid s (io_count s) in
     bindE (setup_cgroup (unified_path p) id child [chown_line uid (unified_path p),
              ''sudo echo '' @ int_to_dec ppid @ '' > '' @ unified_path p @ ''/cgroup.procs''] (([], []), s')) (\<lambda>(unified, st).
     bindE (setup_cgroup (freezer_path p) id child [chown_line uid (freezer_path p)] st) (\<lambda>(freezer, st).
     bindE (setup_cgroup (cpuset_path p) (initialise_cpuset p) child [chown_line uid (cpuset_path p)] st) (\<lambda>(cpuset, adv, s).
     Inr (fst adv = [] \<and> snd adv = [],
          \<lparr>tl_unified = unified, tl_freezer = freezer, tl_cpuset = cpuset, tl_advice = adv\<rparr>,
          snd (syscall (Kill child) s)))))))"

subsection \<open>Lemmas\<close>

text \<open>The caught operations are those of \<open>Cgroup\<close>.\<close>

lemma try_add_process_iff:
  "try_add_process g p s = (True, t) \<longleftrightarrow> cgroup_add_process g p s = Inr t"
  by (auto simp: try_add_process_def cgroup_add_process_def CHECK_def Let_def split: prod.splits option.splits)

lemma syscall_log: "syscall ev s = (r, t) \<Longrightarrow> set (io_log s) \<subseteq> set (io_log t) \<and> (r = None \<longrightarrow> ev \<in> set (io_log t))"
  by (auto simp: syscall_def split: option.splits)

lemma write_stream_log: "set (io_log s) \<subseteq> set (io_log (write_stream f t s))"
  using syscall_log[of "Write f t" s "fst (syscall (Write f t) s)" "snd (syscall (Write f t) s)"]
  by (simp add: write_stream_def)

lemma handle_cgroup_exc_advises:
  "handle_cgroup_exc e path adv = Inr adv' \<Longrightarrow> \<exists>c m. adv' = (fst adv @ c, snd adv @ m) \<and> (c \<noteq> [] \<or> m \<noteq> [])"
  by (cases adv) (auto simp: handle_cgroup_exc_def split: if_splits)

lemma try_cgroup_Inr:
  assumes "try_cgroup path (adv, s) = Inr (g, adv', t)"
  shows "set (io_log s) \<subseteq> set (io_log t) \<and> (\<exists>c m. adv' = (fst adv @ c, snd adv @ m) \<and> (c = [] \<and> m = [] \<longrightarrow> cg_path g = path))"
proof (cases "cgroup_new path True s")
  case (Inl e)
  with assms obtain errno where sc: "syscall (Mkdir path) s = (Some errno, t)" and h: "handle_cgroup_exc errno path adv = Inr adv'"
    by (auto simp: try_cgroup_def cgroup_new_def create_dir_def bindE_Inr_iff split: prod.splits option.splits if_splits)
  from handle_cgroup_exc_advises[OF h] syscall_log[OF sc] show ?thesis by blast
next
  case (Inr r)
  with assms have "r = (g, t)" "adv' = adv" by (auto simp: try_cgroup_def split: prod.splits)
  with Inr show ?thesis
    by (intro conjI exI[of _ "[]"]) (auto simp: cgroup_new_def create_dir_def bindE_Inr_iff syscall_def split: prod.splits option.splits if_splits)
qed

lemma add_or_advise_log:
  assumes "add_or_advise g p lines (adv, s) = (adv', t)" and "lines \<noteq> []"
  shows "set (io_log s) \<subseteq> set (io_log t) \<and> (\<exists>c. adv' = (fst adv @ c, snd adv) \<and>
    (c = [] \<longrightarrow> Write (cg_path g @ ''/cgroup.procs'') (int_to_dec p) \<in> set (io_log t)))"
proof -
  obtain b u where t: "try_add_process g p s = (b, u)" by fastforce
  have "set (io_log s) \<subseteq> set (io_log u) \<and> (b \<longrightarrow> Write (cg_path g @ ''/cgroup.procs'') (int_to_dec p) \<in> set (io_log u))"
    using t by (auto simp: try_add_process_def Let_def dest!: syscall_log split: prod.splits option.splits)
  with t assms show ?thesis by (cases adv; cases b) (auto simp: add_or_advise_def)
qed

lemma initialise_log: "set (io_log s) \<subseteq> set (io_log (initialise_cpuset p s))"
  unfolding initialise_cpuset_def using write_stream_log by blast

text \<open>What one controller leaves: either something to advise, or a cgroup at the path with the child in it.\<close>

lemma setup_cgroup_Inr:
  assumes "setup_cgroup path initialise child lines (adv, s) = Inr (g, adv', t)" and "lines \<noteq> []"
    and "\<And>s. set (io_log s) \<subseteq> set (io_log (initialise s))"
  shows "set (io_log s) \<subseteq> set (io_log t) \<and> (\<exists>c m. adv' = (fst adv @ c, snd adv @ m) \<and>
    (c = [] \<and> m = [] \<longrightarrow> cg_path g = path \<and> Write (path @ ''/cgroup.procs'') (int_to_dec child) \<in> set (io_log t)))"
proof -
  from assms(1) obtain adv1 s1 where t: "try_cgroup path (adv, s) = Inr (g, adv1, s1)"
    and a: "add_or_advise g child lines (adv1, if cg_path g = [] then s1 else initialise s1) = (adv', t)"
    by (auto simp: setup_cgroup_def bindE_Inr_iff)
  have "set (io_log s1) \<subseteq> set (io_log (if cg_path g = [] then s1 else initialise s1))" using assms(3) by simp
  with try_cgroup_Inr[OF t] add_or_advise_log[OF a assms(2)] show ?thesis
    by (auto 4 4) 
qed

text \<open>The three controllers that a creation goes through.\<close>

lemma create_toplevel_cgroups_Inr:
  assumes "create_toplevel_cgroups name fs uid ppid s = Inr (ok, tls, t)"
  defines "child \<equiv> fork_pid s (io_count s)"
  obtains p s0 u a1 s1 f a2 s2 c a3 s3 where "find_paths name fs = Inr p" and "CHECK Fork s = Inr s0"
    and "setup_cgroup (unified_path p) id child [chown_line uid (unified_path p),
         ''sudo echo '' @ int_to_dec ppid @ '' > '' @ unified_path p @ ''/cgroup.procs''] (([], []), s0) = Inr (u, a1, s1)"
    and "setup_cgroup (freezer_path p) id child [chown_line uid (freezer_path p)] (a1, s1) = Inr (f, a2, s2)"
    and "setup_cgroup (cpuset_path p) (initialise_cpuset p) child [chown_line uid (cpuset_path p)] (a2, s2) = Inr (c, a3, s3)"
    and "ok = (fst a3 = [] \<and> snd a3 = [])" "tls = \<lparr>tl_unified = u, tl_freezer = f, tl_cpuset = c, tl_advice = a3\<rparr>"
      "t = snd (syscall (Kill child) s3)"
proof -
  from assms show thesis
    unfolding create_toplevel_cgroups_def Let_def
    apply (elim result_elims)
    subgoal for p s0 x1 u z1 x2 f z2 x3 c y a3 s3
      by (cases z1; cases z2) (rule that[of p s0 u _ _ f _ _ c a3 s3], auto)
    done
qed

text \<open>
  C18. The program goes on exactly when nothing has to be advised, and then it can use its cgroups: they have
  the paths that \<open>/proc/self/cgroup\<close> gives, and the test process was moved into each of them.
\<close>

theorem toplevel_cgroups_usable:
  assumes "create_toplevel_cgroups name fs uid ppid s = Inr (ok, tls, t)" and "find_paths name fs = Inr p"
  shows "(ok \<longleftrightarrow> tl_advice tls = ([], [])) \<and>
    (ok \<longrightarrow> cg_path (tl_unified tls) = unified_path p \<and> cg_path (tl_freezer tls) = freezer_path p \<and>
      cg_path (tl_cpuset tls) = cpuset_path p \<and>
      (\<forall>path \<in> {unified_path p, freezer_path p, cpuset_path p}.
         Write (path @ ''/cgroup.procs'') (int_to_dec (fork_pid s (io_count s))) \<in> set (io_log t)))"
proof -
  let ?child = "fork_pid s (io_count s)"
  obtain s0 u a1 s1 f a2 s2 c a3 s3 where
    u: "setup_cgroup (unified_path p) id ?child [chown_line uid (unified_path p),
         ''sudo echo '' @ int_to_dec ppid @ '' > '' @ unified_path p @ ''/cgroup.procs''] (([], []), s0) = Inr (u, a1, s1)"
    and f: "setup_cgroup (freezer_path p) id ?child [chown_line uid (freezer_path p)] (a1, s1) = Inr (f, a2, s2)"
    and c: "setup_cgroup (cpuset_path p) (initialise_cpuset p) ?child [chown_line uid (cpuset_path p)] (a2, s2) = Inr (c, a3, s3)"
    and r: "ok = (fst a3 = [] \<and> snd a3 = [])" "tls = \<lparr>tl_unified = u, tl_freezer = f, tl_cpuset = c, tl_advice = a3\<rparr>"
      "t = snd (syscall (Kill ?child) s3)"
    by (rule create_toplevel_cgroups_Inr[OF assms(1)]) (use assms(2) in auto)
  have t: "set (io_log s3) \<subseteq> set (io_log t)"
    using syscall_log[of "Kill ?child" s3 "fst (syscall (Kill ?child) s3)" t] r(3) by simp
  from setup_cgroup_Inr[OF u] obtain c1 m1 where
    1: "a1 = (c1, m1)" "c1 = [] \<and> m1 = [] \<longrightarrow> cg_path u = unified_path p \<and>
      Write (unified_path p @ ''/cgroup.procs'') (int_to_dec ?child) \<in> set (io_log s1)" by auto
  from setup_cgroup_Inr[OF f] obtain c2 m2 where
    2: "a2 = (fst a1 @ c2, snd a1 @ m2)" "set (io_log s1) \<subseteq> set (io_log s2)" "c2 = [] \<and> m2 = [] \<longrightarrow> cg_path f = freezer_path p \<and>
      Write (freezer_path p @ ''/cgroup.procs'') (int_to_dec ?child) \<in> set (io_log s2)" by auto
  from setup_cgroup_Inr[OF c _ initialise_log] obtain c3 m3 where
    3: "a3 = (fst a2 @ c3, snd a2 @ m3)" "set (io_log s2) \<subseteq> set (io_log s3)" "c3 = [] \<and> m3 = [] \<longrightarrow> cg_path c = cpuset_path p \<and>
      Write (cpuset_path p @ ''/cgroup.procs'') (int_to_dec ?child) \<in> set (io_log s3)" by auto
  show ?thesis using r t 1 2 3 by auto
qed

text \<open>A system with the three controllers, mounted where they are expected, on which all calls succeed.\<close>

definition demo_fs :: "string \<Rightarrow> string option" where
  "demo_fs f = (if f = ''/proc/self/cgroup'' then Some ''4:freezer:/ 2:cpuset:/ 0::/user''
     else if f = ''/sys/fs/cgroup/cpuset//cpuset.effective_cpus'' then Some ''0-3'' else None)"

lemma demo_paths: "find_paths ''demos'' demo_fs = Inr \<lparr>unified_path = ''/sys/fs/cgroup/unified/user/demos'',
     freezer_path = ''/sys/fs/cgroup/freezer//demos'', cpuset_path = ''/sys/fs/cgroup/cpuset//demos'', cs_cpus = ''0-3'', cs_mems = []\<rparr>"
  by code_simp

theorem toplevel_cgroups_usable_witness:
  "\<exists>tls t. create_toplevel_cgroups ''demos'' demo_fs 0 1 (quiet_os True) = Inr (True, tls, t) \<and>
     cg_path (tl_freezer tls) = ''/sys/fs/cgroup/freezer//demos''"
proof -
  have "case create_toplevel_cgroups ''demos'' demo_fs 0 1 (quiet_os True) of Inl _ \<Rightarrow> False | Inr (ok, _, _) \<Rightarrow> ok"
    by code_simp
  then obtain tls t where c: "create_toplevel_cgroups ''demos'' demo_fs 0 1 (quiet_os True) = Inr (True, tls, t)"
    by (auto split: sum.splits prod.splits)
  from toplevel_cgroups_usable[OF c demo_paths] c show ?thesis by auto
qed

end
