(* ===== verification/Run_Plan.thy ===== *)
theory Run_Plan
  imports Scheduler_Runs
begin

text \<open>
  What a run never changes: the \<open>plan\<close> of a scheduler, that is the names of its partitions, the commands and
  budgets of their processes, the directories of their cgroups, the lengths of its windows, the CPUs and
  partitions of its slices, and the calls that made or removed a directory. Every operation keeps it, whatever
  the state it is called in.
\<close>

text \<open>What a cgroup knows of its directory: whether its destructor removes it, and the path.\<close>

type_synonym dir = "bool \<times> string"

definition dir_of :: "'a cgroup_scheme \<Rightarrow> dir" where
  "dir_of g = (cg_remove g, cg_path g)"

lemma dir_of_simps [simp]: "dir_of (g\<lparr>frozen := b\<rparr>) = dir_of g" "dir_of (g'\<lparr>current_cpus := c\<rparr>) = dir_of g'"
  by (simp_all add: dir_of_def)

type_synonym process_plan =
  "string \<times> milliseconds \<times> int \<times> int \<times> bool \<times> cpu_freq option \<times> string option \<times> dir \<times> dir"

type_synonym partition_plan = "string \<times> (dir \<times> dir \<times> dir) \<times> process_plan list"

type_synonym slice_plan = "nat option \<times> nat option \<times> cpu_set \<times> cpu_freq option"

definition proc_plan :: "process \<Rightarrow> process_plan" where
  "proc_plan q = (argv q, budget q, jitter_lo q, jitter_hi q, has_initialization q,
     requested_frequency q, working_dir q, dir_of (proc_cgf q), dir_of (proc_cge q))"

definition part_plan :: "partition \<Rightarrow> partition_plan" where
  "part_plan p = (part_name p, (dir_of (part_cge p), dir_of (part_cgf p), dir_of (part_cgc p)),
     map proc_plan (processes p))"

definition windows_plan :: "window list \<Rightarrow> (milliseconds \<times> slice_plan list) list" where
  "windows_plan wins = map (\<lambda>win. (win_length win, map slice_conf (slices win))) wins"

text \<open>Of the system: the calls on directories so far, and the outcomes of all calls.\<close>

definition os_const :: "os \<Rightarrow> os_event list \<times> (nat \<Rightarrow> nat option)" where
  "os_const s = (dir_calls s, io_outcome s)"

definition plan :: "'a store_scheme \<Rightarrow> partition_plan list \<times>
    (milliseconds \<times> slice_plan list) list \<times> (os_event list \<times> (nat \<Rightarrow> nat option))" where
  "plan w = (map part_plan (partitions w), windows_plan (windows w), os_const (st_os w))"

lemma os_extends_const: "os_extends s t \<Longrightarrow> os_const t = os_const s"
  by (simp add: os_extends_def os_const_def)

definition keeps :: "('s \<Rightarrow> 'v) \<Rightarrow> 's \<Rightarrow> 's result \<Rightarrow> bool" where
  "keeps v w m \<longleftrightarrow> (\<forall>w'. m = Inr w' \<longrightarrow> v w' = v w)"

named_theorems plan_rules \<open>operations that keep the plan\<close>

lemma keepsD: "keeps v w m \<Longrightarrow> m = Inr w' \<Longrightarrow> v w' = v w"
  by (simp add: keeps_def)

lemma keeps_Inr [simp]: "keeps v w (Inr w') \<longleftrightarrow> v w' = v w"
  by (simp add: keeps_def)

lemma keeps_Inl [simp]: "keeps v w (Inl e)"
  by (simp add: keeps_def)

lemma keeps_bind [plan_rules]:
  assumes "keeps v w m" and "\<And>u. v u = v w \<Longrightarrow> keeps v u (f u)"
  shows "keeps v w (bindE m f)"
proof (cases m)
  case (Inr u)
  with assms(1) have "v u = v w" by (rule keepsD)
  with assms(2)[of u] Inr show ?thesis by (simp add: keeps_def)
qed simp

lemma keeps_other: "(\<And>x. m = Inr x \<Longrightarrow> keeps v w (f x)) \<Longrightarrow> keeps v w (bindE m f)"
  by (cases m) (auto simp: keeps_def)

lemma keeps_fail [simp]: "keeps v w (bindE m (\<lambda>_. Inl e))"
  by (cases m) auto

lemma keeps_change: "v u = v w \<Longrightarrow> keeps v u m \<Longrightarrow> keeps v w m"
  by (simp add: keeps_def)

lemma keeps_fold [plan_rules]: "(\<And>x u. keeps v u (f x u)) \<Longrightarrow> keeps v w (foldE f xs w)"
proof (induction xs arbitrary: w)
  case (Cons x xs)
  show ?case unfolding foldE.simps by (rule keeps_bind, rule Cons.prems, rule Cons.IH, rule Cons.prems)
qed simp

subsection \<open>Processes and partitions\<close>

definition proc_keeps :: "proc_op \<Rightarrow> bool" where
  "proc_keeps f \<longleftrightarrow> (\<forall>q s q' s'. f q s = Inr (q', s') \<longrightarrow> proc_plan q' = proc_plan q \<and> os_extends s s')"

lemma proc_keepsD: "proc_keeps f \<Longrightarrow> f q s = Inr (q', s') \<Longrightarrow> proc_plan q' = proc_plan q \<and> os_extends s s'"
  unfolding proc_keeps_def by blast

lemma proc_keeps [plan_rules]:
  "proc_keeps suspend" "proc_keeps resume" "proc_keeps kill" "proc_keeps exec" "proc_keeps (set_remaining_budget b)"
  by (auto simp: proc_keeps_def proc_plan_def suspend_Inr set_remaining_budget_Inr dest!: resume_Inr kill_Inr exec_Inr CHECK_extends split: if_splits)

lemma proc_plan_simps [simp]:
  "proc_plan (mark_completed q) = proc_plan q" "proc_plan (mark_uncompleted q) = proc_plan q"
  "proc_plan (reset_budget q) = proc_plan q" "proc_plan (proc_completed_cb q) = proc_plan q"
  "proc_plan (handle_end q) = proc_plan q"
  by (simp_all add: proc_plan_def mark_completed_def mark_uncompleted_def reset_budget_def proc_completed_cb_def handle_end_def)

lemma map_update_same: "(i < length xs \<Longrightarrow> g y = g (xs ! i)) \<Longrightarrow> map g (xs[i := y]) = map g xs"
  by (cases "i < length xs") (simp_all add: map_update list_update_same_conv list_update_beyond)

lemma part_plan_upd_proc: "(\<And>q. proc_plan (f q) = proc_plan q) \<Longrightarrow> part_plan (upd_proc i f p) = part_plan p"
  by (simp add: part_plan_def upd_proc_def map_update_same)

lemma on_proc_plan:
  "on_proc i f p s = Inr (p', s') \<Longrightarrow> proc_keeps f \<Longrightarrow> part_plan p' = part_plan p \<and> os_extends s s'"
  by (auto simp: on_proc_def bindE_Inr_iff part_plan_def intro!: map_update_same split: if_splits dest: proc_keepsD)

lemma set_cpus_dir: "set_cpus cpus g s = Inr (g', t) \<Longrightarrow> dir_of g' = dir_of g"
  by (auto simp: set_cpus_def bindE_Inr_iff split: if_splits)

lemma reset_plan: "reset b cpus cb p s = Inr (p', s') \<Longrightarrow> part_plan p' = part_plan p \<and> os_extends s s'"
  by (auto dest: set_cpus_dir set_cpus_extends simp: reset_def bindE_Inr_iff ASSERT_Inr_iff clear_completed_flag_def part_plan_def Let_def split: if_splits)

lemma seek_plan: "seek_pending_process p = Inr (r, p') \<Longrightarrow> part_plan p' = part_plan p \<and> processes p' = processes p"
proof -
  assume "seek_pending_process p = Inr (r, p')"
  then have "p' = p\<lparr>current_proc := current_proc p'\<rparr>" by (drule_tac seek_pending_Inr) blast
  then obtain c where "p' = p\<lparr>current_proc := c\<rparr>" by blast
  then show ?thesis by (simp add: part_plan_def)
qed

lemma mapE_plan:
  assumes "mapE f qs s = Inr (qs', s')" and "proc_keeps f"
  shows "map proc_plan qs' = map proc_plan qs \<and> os_extends s s'"
proof -
  have "os_extends s s' \<and> list_all2 (\<lambda>q q'. proc_plan q' = proc_plan q) qs qs'"
    by (rule mapE_list_all2[where P = "os_extends s", OF assms(1) os_extends_refl])
      (use proc_keepsD[OF assms(2)] in \<open>blast intro: os_extends_trans\<close>)
  then show ?thesis by (simp add: list_all2_conv_all_nth list_eq_iff_nth_eq)
qed

lemma part_ops_plan:
  "create_processes p s = Inr (p', s') \<Longrightarrow> part_plan p' = part_plan p \<and> os_extends s s'"
  "part_kill_all p s = Inr (p', s') \<Longrightarrow> part_plan p' = part_plan p \<and> os_extends s s'"
proof -
  have "proc_keeps (\<lambda>q s. bindE (exec q s) (\<lambda>(q, s). bindE (cgroup_add_process (part_cgc p) (pid q) s) (\<lambda>s. Inr (q, s))))"
    unfolding proc_keeps_def
    by (auto simp: bindE_Inr_iff dest!: proc_keepsD[OF proc_keeps(4)] cgroup_add_process_extends elim: os_extends_trans)
  then show "create_processes p s = Inr (p', s') \<Longrightarrow> part_plan p' = part_plan p \<and> os_extends s s'"
    by (auto simp: create_processes_def bindE_Inr_iff part_plan_def dest!: mapE_plan)
  show "part_kill_all p s = Inr (p', s') \<Longrightarrow> part_plan p' = part_plan p \<and> os_extends s s'"
    by (auto simp: part_kill_all_def bindE_Inr_iff part_plan_def dest!: mapE_plan[OF _ proc_keeps(3)])
qed

lemma part_plan_simps [simp]:
  "part_plan (disconnect p) = part_plan p" "part_plan (set_process_exit_cb cb p) = part_plan p"
  "part_plan (part_proc_exit p) = part_plan p"
  by (simp_all add: part_plan_def disconnect_def set_process_exit_cb_def part_proc_exit_def)

subsection \<open>Slices\<close>

lemma load_next_plan: "load_next_process (sl, p, pp, s) = Inr (r, sl', p', pp', s') \<Longrightarrow>
    slice_conf sl' = slice_conf sl \<and> part_plan p' = part_plan p \<and> os_extends s s' \<and> pending_count p' = pending_count p"
  by (auto simp: load_next_process_def bindE_Inr_iff ASSERT_Inr_iff slice_conf_def pending_count_def dest!: seek_plan)

lemma launch_plan: "launch_process t0 t pi i b (sl, p, pp, s) = Inr (sl', p', pp', s') \<Longrightarrow>
    slice_conf sl' = slice_conf sl \<and> part_plan p' = part_plan p \<and> os_extends s s'"
proof -
  have log: "os_extends s (schedule_log t0 t sl (processes p ! i) b s)" by (simp add: schedule_log_def)
  show "launch_process t0 t pi i b (sl, p, pp, s) = Inr (sl', p', pp', s') \<Longrightarrow> ?thesis"
    by (auto simp: launch_process_def bindE_Inr_iff Let_def slice_conf_def part_plan_upd_proc
        dest!: on_proc_plan[OF _ proc_keeps(2)] timer_start_extends on_process_start_Inr; meson log os_extends_trans)
qed

lemma start_next_plan: "start_next_process t0 t pi (sl, p, pp, s) = Inr (r, sl', p', pp', s') \<Longrightarrow>
    slice_conf sl' = slice_conf sl \<and> part_plan p' = part_plan p \<and> os_extends s s'"
proof (induction "pending_count p" arbitrary: sl p pp s rule: less_induct)
  case less
  from less.prems show ?case
  proof (cases rule: start_next_process_cases)
    case (none sl1 p1 pp1 s1)
    with load_next_plan[OF none(1)] show ?thesis by simp
  next
    case (skip sl1 p1 pp1 s1 i s2)
    note l = load_next_plan[OF skip(1)]
    have "pending_count (upd_proc i mark_completed p1) < pending_count p"
      using pending_count_skip[of i p1] load_next_process_pending[OF skip(1,2)] l by simp
    from less.hyps[OF this skip(4)] l get_actual_budget_extends[OF skip(3)] show ?thesis
      by (auto simp: part_plan_upd_proc slice_conf_def intro: os_extends_trans)
  next
    case (run sl1 p1 pp1 s1 i b s2)
    from launch_plan[OF run(5)] load_next_plan[OF run(1)] get_actual_budget_extends[OF run(3)] show ?thesis
      by (auto intro: os_extends_trans)
  qed
qed

lemma stop_current_plan: "stop_current_process mark pi (sl, p, pp, s) = Inr (sl', p', pp', s') \<Longrightarrow>
    slice_conf sl' = slice_conf sl \<and> part_plan p' = part_plan p \<and> os_extends s s'"
  by (auto simp: stop_current_process_def bindE_Inr_iff ASSERT_Inr_iff Let_def slice_conf_def part_plan_upd_proc
      dest!: on_proc_plan[OF _ proc_keeps(1)] split: option.splits)

text \<open>The operations of a slice on its context.\<close>

definition ctx_keeps :: "(slice_ctx \<Rightarrow> (bool \<times> slice_ctx) result) \<Rightarrow> bool" where
  "ctx_keeps f \<longleftrightarrow> (\<forall>sl p pp s r sl' p' pp' s'. f (sl, p, pp, s) = Inr (r, sl', p', pp', s') \<longrightarrow>
     slice_conf sl' = slice_conf sl \<and> part_plan p' = part_plan p \<and> os_extends s s')"

lemma ctx_keeps [plan_rules]:
  "ctx_keeps (start_partition t0 pi cb t b)" "ctx_keeps (stop_running pi t)" "ctx_keeps (schedule_next t0 pi t)"
proof -
  show "ctx_keeps (start_partition t0 pi cb t b)"
    by (auto simp: ctx_keeps_def start_partition_def bindE_Inr_iff slice_conf_def dest!: reset_plan start_next_plan elim: os_extends_trans)
  show "ctx_keeps (schedule_next t0 pi t)"
    by (auto simp: ctx_keeps_def schedule_next_def bindE_Inr_iff dest!: stop_current_plan start_next_plan elim: os_extends_trans)
  show "ctx_keeps (stop_running pi t)"
    by (auto simp: ctx_keeps_def stop_running_def bindE_Inr_iff Let_def split: option.splits if_splits
        dest!: stop_current_plan load_next_plan on_proc_plan[OF _ proc_keeps(5)] elim: os_extends_trans)
qed

subsection \<open>The store\<close>

lemma plan_upd_part: "(\<And>p. part_plan (f p) = part_plan p) \<Longrightarrow> plan (upd_part pi f w) = plan w"
  by (simp add: plan_def upd_part_def map_update_same)

lemma plan_upd_window: "(\<And>win. win_length (f win) = win_length win) \<Longrightarrow> (\<And>win. map slice_conf (slices (f win)) = map slice_conf (slices win)) \<Longrightarrow>
    plan (upd_window wi f w) = plan w"
  by (simp add: plan_def windows_plan_def upd_window_def map_update_same)

lemma plan_upd_slice: "(\<And>sl. slice_conf (f sl) = slice_conf sl) \<Longrightarrow> plan (upd_slice wi si f w) = plan w"
  unfolding upd_slice_def by (rule plan_upd_window) (simp_all add: map_update_same)

lemma plan_simps [simp]:
  "os_extends (st_os w) s \<Longrightarrow> plan (w\<lparr>st_os := s\<rparr>) = plan w" "plan (w\<lparr>st_policy := pp\<rparr>) = plan w" "plan (w\<lparr>start_time := t\<rparr>) = plan w"
  by (simp_all add: plan_def os_extends_const)

text \<open>The operations on the store; a callback is assumed to keep the plan.\<close>

lemma on_slice_plan: "on_slice wi si pi f w = Inr (r, w') \<Longrightarrow> ctx_keeps f \<Longrightarrow> plan w' = plan w"
proof -
  assume run: "on_slice wi si pi f w = Inr (r, w')" and f: "ctx_keeps f"
  from run obtain sl p pp s where c: "f (the_slice wi si w, partitions w ! pi, st_policy w, st_os w) = Inr (r, sl, p, pp, s)"
    and w': "w' = put_ctx wi si pi (sl, p, pp, s) w"
    by (auto simp: on_slice_def get_ctx_def bindE_Inr_iff split: if_splits)
  from c f have "slice_conf sl = slice_conf (the_slice wi si w)" "part_plan p = part_plan (partitions w ! pi)" "os_const s = os_const (st_os w)"
    unfolding ctx_keeps_def by (blast dest: os_extends_const)+
  then show "plan w' = plan w"
    by (simp add: w' put_ctx_def plan_def windows_plan_def upd_slice_def upd_window_def upd_part_def map_update_same the_slice_def)
qed

lemma keeps_on_slice:
  assumes "ctx_keeps f" and "\<And>r u. plan u = plan w \<Longrightarrow> keeps plan u (g (r, u))"
  shows "keeps plan w (bindE (on_slice wi si pi f w) g)"
proof (rule keeps_other)
  fix x assume x: "on_slice wi si pi f w = Inr x"
  obtain r u where ru: "x = (r, u)" by (cases x)
  have "plan u = plan w" using on_slice_plan[OF x[unfolded ru] assms(1)] .
  with assms(2)[OF this, of r] show "keeps plan w (g x)" by (auto simp: ru keeps_def)
qed

lemma keeps_on_policy:
  "(\<And>pp s pp' s'. f pp s = Inr (pp', s') \<Longrightarrow> os_extends s s') \<Longrightarrow> keeps plan w (on_policy f w)"
  by (auto simp: keeps_def on_policy_def bindE_Inr_iff plan_def os_extends_const)

lemma keeps_policy_calls [plan_rules]:
  "keeps plan w (on_policy (on_window_start win) w)" "keeps plan w (on_policy on_sc_start w)"
  "keeps plan w (on_policy on_be_start w)" "keeps plan w (on_policy on_window_end w)"
  by (rule keeps_on_policy, auto dest: on_window_start_Inr on_sc_start_Inr on_be_start_Inr simp: on_window_end_def)+

lemma keeps_start_sc [plan_rules]: "(\<And>u. keeps plan u (cb t u)) \<Longrightarrow> keeps plan w (start_sc cb wi si t w)"
  unfolding start_sc_def by (auto split: option.splits intro!: keeps_on_slice ctx_keeps)

lemma keeps_start_be [plan_rules]: "(\<And>u. keeps plan u (cb t u)) \<Longrightarrow> keeps plan w (start_be cb wi si t w)"
  unfolding start_be_def by (auto split: option.splits intro!: keeps_on_slice ctx_keeps)

lemma keeps_disconnect_part [plan_rules]: "keeps plan w (disconnect_part r w)"
  by (auto simp: disconnect_part_def keeps_def plan_upd_part split: option.splits)

lemma keeps_slice_stop [plan_rules]:
  assumes "\<And>u. keeps plan u (cb t u)"
  shows "keeps plan w (slice_stop cb wi si t w)"
proof -
  let ?u = "upd_slice wi si (\<lambda>sl. sl\<lparr>sl_timer := timer_stop (sl_timer sl)\<rparr>) w"
  have u: "plan ?u = plan w" by (rule plan_upd_slice) (simp add: slice_conf_def)
  have s: "plan (upd_slice wi si (\<lambda>sl. sl\<lparr>running_process := None\<rparr>) v) = plan v" for v :: "'a store_scheme"
    by (rule plan_upd_slice) (simp add: slice_conf_def)
  show ?thesis unfolding slice_stop_def Let_def
    by (rule keeps_change[where v = plan, OF u]) (auto intro!: keeps_bind keeps_disconnect_part keeps_on_slice ctx_keeps assms simp: s split: option.splits)
qed

lemma keeps_schedule_next [plan_rules]: "(\<And>u. keeps plan u (cb t u)) \<Longrightarrow> keeps plan w (slice_schedule_next cb wi si t w)"
  unfolding slice_schedule_next_def by (auto split: option.splits intro!: keeps_on_slice ctx_keeps)

lemma keeps_sc_end [plan_rules]: "keeps plan w (slice_sc_end_cb n wi t w)"
proof (induction n arbitrary: w)
  case (Suc n)
  have u: "plan (upd_window wi (\<lambda>win. win\<lparr>finished_sc_partitions := Suc (finished_sc_partitions win)\<rparr>) w) = plan w"
    by (rule plan_upd_window) simp_all
  show ?case unfolding slice_sc_end_cb.simps Let_def for_slices_def
    by (rule keeps_change[where v = plan, OF u]) (auto intro!: keeps_bind keeps_fold keeps_start_be keeps_policy_calls Suc.IH)
qed (simp add: slice_sc_end_cb.simps)

lemma keeps_window_start [plan_rules]: "keeps plan w (window_start wi t w)"
proof -
  have u: "plan (upd_window wi (\<lambda>win. win\<lparr>finished_sc_partitions := 0\<rparr>) w) = plan w" by (rule plan_upd_window) simp_all
  show ?thesis unfolding window_start_def Let_def for_slices_def
    by (rule keeps_change[where v = plan, OF u]) (intro plan_rules)
qed

lemma plan_stopping [simp]: "plan (upd_window wi (\<lambda>win. win\<lparr>stopping := b\<rparr>) w) = plan w"
  by (rule plan_upd_window) simp_all

lemma keeps_window_stop [plan_rules]: "keeps plan w (window_stop wi t w)"
  unfolding window_stop_def Let_def for_slices_def
proof (rule keeps_bind[OF keeps_policy_calls(4)])
  fix u
  let ?u = "upd_window wi (\<lambda>win. win\<lparr>stopping := True\<rparr>) u"
  show "keeps plan u (bindE (foldE (\<lambda>si. slice_stop (sc_done wi) wi si t) [0..<length (slices (windows ?u ! wi))] ?u)
      (\<lambda>w. Inr (upd_window wi (\<lambda>win. win\<lparr>stopping := False\<rparr>) w)))"
    by (rule keeps_change[where v = plan and u = ?u]) (simp, intro plan_rules, simp)
qed

subsection \<open>The major frame and the partition manager\<close>

lemma plan_frame_simps [simp]:
  "plan (w\<lparr>current_win := i\<rparr>) = plan w" "plan (w\<lparr>mf_timer := tm\<rparr>) = plan w" "plan (w\<lparr>mf_timeout := t\<rparr>) = plan w"
  "plan (mf_messages w) = plan w"
  by (simp_all add: plan_def mf_messages_def print_line_def Let_def os_const_def dir_calls_def emit_def)

lemma keeps_mf_start [plan_rules]: "keeps plan w (mf_start t w)"
proof -
  let ?u = "mf_messages w"
  let ?rest = "\<lambda>w. let w = w\<lparr>mf_timeout := t + ns_of_ms (win_length (windows w ! current_win w))\<rparr> in
        bindE (timer_start (mf_timeout w) (mf_timer w) (st_os w)) (\<lambda>(tm, s). Inr (w\<lparr>mf_timer := tm, st_os := s\<rparr>))"
  have "keeps plan u (?rest u)" for u by (auto simp: Let_def intro!: keeps_other dest: timer_start_extends)
  then have "keeps plan ?u (bindE (window_start (current_win ?u) t ?u) ?rest)" by (intro keeps_bind keeps_window_start)
  then show ?thesis unfolding mf_start_def Let_def using keeps_change[where v = plan and u = ?u and w = w] by auto
qed

lemma keeps_mf_stop [plan_rules]: "keeps plan w (mf_stop t w)"
  unfolding mf_stop_def Let_def
  by (auto intro!: keeps_change[where v = plan and w = w and u = "w\<lparr>mf_timer := timer_stop (mf_timer w)\<rparr>"] keeps_window_stop)

lemma keeps_mf_timeout [plan_rules]: "keeps plan w (mf_timeout_cb w)"
  unfolding mf_timeout_cb_def move_to_next_window_def advance_window_def
  by (auto intro!: keeps_bind keeps_window_stop keeps_mf_start)

lemma keeps_for_parts [plan_rules]: "(\<And>x u. keeps plan u (f x u)) \<Longrightarrow> keeps plan w (for_parts f w)"
  unfolding for_parts_def by (rule keeps_fold)

definition part_keeps :: "(partition \<Rightarrow> os \<Rightarrow> (partition \<times> os) result) \<Rightarrow> bool" where
  "part_keeps f \<longleftrightarrow> (\<forall>p s p' s'. f p s = Inr (p', s') \<longrightarrow> part_plan p' = part_plan p \<and> os_extends s s')"

lemma part_keepsD: "part_keeps f \<Longrightarrow> f p s = Inr (p', s') \<Longrightarrow> part_plan p' = part_plan p \<and> os_extends s s'"
  unfolding part_keeps_def by blast

lemma keeps_on_part [plan_rules]: "part_keeps f \<Longrightarrow> keeps plan w (on_part pi f w)"
  by (auto simp: on_part_def keeps_def bindE_Inr_iff plan_def intro!: map_update_same os_extends_const dest: part_keepsD split: if_splits)

lemma part_keeps [plan_rules]:
  "part_keeps (reset b cpus cb)" "part_keeps create_processes" "part_keeps part_kill_all"
  "proc_keeps f \<Longrightarrow> part_keeps (on_proc qi f)"
  unfolding part_keeps_def by (blast dest: reset_plan part_ops_plan on_proc_plan)+

lemma plan_manager_simps [simp]:
  "plan (w\<lparr>remaining_process_inits := n\<rparr>) = plan w" "plan (set_exit_cb cb w) = plan w"
  "plan (w\<lparr>partitions := map disconnect (partitions w)\<rparr>) = plan w"
  by (simp_all add: plan_def set_exit_cb_def comp_def)

lemma keeps_finish_init [plan_rules]: "(\<And>u. keeps plan u (cb u)) \<Longrightarrow> keeps plan w (finish_process_init cb w)"
proof -
  assume cb: "\<And>u. keeps plan u (cb u)"
  let ?u = "(set_exit_cb Exit_process w)\<lparr>partitions := map disconnect (partitions (set_exit_cb Exit_process w))\<rparr>"
  have "plan ?u = plan w" by simp
  from keeps_change[where v = plan, OF this cb] show ?thesis by (simp add: finish_process_init_def Let_def)
qed

lemma keeps_init_process [plan_rules]: "keeps plan w (init_process pi qi w)"
proof -
  let ?u = "w\<lparr>remaining_process_inits := remaining_process_inits w + 1\<rparr>"
  have "keeps plan w (on_part pi (on_proc qi resume) ?u)" by (rule keeps_change[where v = plan and u = ?u]) (simp, intro plan_rules)
  then show ?thesis by (simp add: init_process_def)
qed

lemma keeps_run_init [plan_rules]:
  assumes "\<And>u. keeps plan u (cb u)"
  shows "keeps plan w (run_process_init cb w)"
proof -
  have "keeps plan u (for_parts (\<lambda>pi w. foldE (init_process pi) [0..<length (processes (partitions w ! pi))] w) (set_exit_cb e u))" for u :: "'a manager_scheme" and e
    by (rule keeps_change[where v = plan and u = "set_exit_cb e u"]) (simp, intro plan_rules)
  then show ?thesis unfolding run_process_init_def
    by (auto intro!: keeps_bind keeps_for_parts keeps_on_part part_keeps keeps_finish_init assms)
qed

lemma keeps_init_completion [plan_rules]:
  fixes w :: "'a manager_scheme"
  assumes "\<And>u. keeps plan u (cb u)"
  shows "keeps plan w (process_init_completion_cb cb pi qi w)"
  unfolding process_init_completion_cb_def Let_def
proof (rule keeps_bind)
  fix u :: "'a manager_scheme"
  let ?u = "u\<lparr>remaining_process_inits := remaining_process_inits u - 1\<rparr>"
  show "keeps plan u (if remaining_process_inits ?u = 0 then finish_process_init cb ?u else Inr ?u)"
    by (rule keeps_change[where v = plan and u = ?u]) (auto intro: keeps_finish_init assms)
qed (intro plan_rules)

lemma keeps_process_exit [plan_rules]: "(\<And>u. keeps plan u (cb u)) \<Longrightarrow> keeps plan w (process_exit_cb cb e w)"
  by (simp add: process_exit_cb_def)

lemma keeps_proc_exit [plan_rules]:
  assumes "\<And>u. keeps plan u (init u)" and "\<And>u. keeps plan u (compl u)"
  shows "keeps plan w (proc_exit init compl pi qi w)"
proof -
  have "keeps plan u (call_exit_cb init compl pi qi u)" for u
    unfolding call_exit_cb_def process_init_exit_cb_def Let_def
    by (auto intro!: keeps_bind keeps_process_exit keeps_init_completion assms split: exit_cb.splits)
  then show ?thesis unfolding proc_exit_def
    by (rule keeps_change[where v = plan and w = w, rotated]) (simp add: plan_upd_part)
qed

subsection \<open>The scheduler\<close>

lemma plan_sched_simps [simp]:
  "plan (w\<lparr>timeout_timer := tm\<rparr>) = plan w" "plan (w\<lparr>sched_timeout := t\<rparr>) = plan w"
  "plan (w\<lparr>loop_stopped := b\<rparr>) = plan w"
  by (simp_all add: plan_def)

lemma plan_now [simp]: "plan (snd (now w)) = plan w"
  using now_Inr[of w "fst (now w)" "snd (now w)"] by auto

lemma keeps_now: "(\<And>t u. plan u = plan w \<Longrightarrow> keeps plan u (f t u)) \<Longrightarrow> keeps plan w (case now w of (t, u) \<Rightarrow> f t u)"
proof -
  assume f: "\<And>t u. plan u = plan w \<Longrightarrow> keeps plan u (f t u)"
  obtain t u where n: "now w = (t, u)" by fastforce
  then have u: "plan u = plan w" using plan_now[of w] by simp
  from keeps_change[where v = plan, OF u f[OF u]] show ?thesis by (simp add: n)
qed

lemma keeps_shutdown [plan_rules]: "keeps plan w (initiate_shutdown w)"
  unfolding initiate_shutdown_def pm_kill_all_def by (rule keeps_now) (intro plan_rules)

lemma keeps_start_scheduler [plan_rules]: "keeps plan w (start_scheduler w)"
proof -
  have "keeps plan u (bindE (mf_start t (u\<lparr>start_time := t\<rparr>)) (\<lambda>w.
      case sched_timeout w of None \<Rightarrow> Inr w
      | Some timeout \<Rightarrow> bindE (timer_start (t + ns_of_ms timeout) (timeout_timer w) (st_os w)) (\<lambda>(tm, s).
          Inr (w\<lparr>timeout_timer := tm, st_os := s, sched_timeout := None\<rparr>))))" for t u
    by (rule keeps_change[where v = plan and u = "u\<lparr>start_time := t\<rparr>"], simp, rule keeps_bind, rule keeps_mf_start)
      (auto intro!: keeps_other dest: timer_start_extends split: option.splits)
  then show ?thesis unfolding start_scheduler_def by (auto intro: keeps_shutdown keeps_now)
qed

lemma keeps_sched_completion [plan_rules]: "keeps plan w (sched_completion_cb w)"
  unfolding sched_completion_cb_def by (rule keeps_now) (rule keeps_bind, intro plan_rules, simp)

lemma keeps_completed_event [plan_rules]: "keeps plan w (completed_event pi qi w)"
proof -
  have "proc_keeps (\<lambda>q s. bindE (evfd_ev_callback s) (\<lambda>s. Inr (proc_completed_cb q, s)))"
    by (auto simp: proc_keeps_def bindE_Inr_iff evfd_ev_callback_def dest: CHECK_extends)
  moreover have "keeps plan u (slice_completion_cb wi si u)" for wi si u
    unfolding slice_completion_cb_def by (rule keeps_now) (intro plan_rules)
  then have "keeps plan u (call_completed_cb pi qi u)" for u
    unfolding call_completed_cb_def by (auto split: completion_cb.splits intro!: keeps_init_completion keeps_start_scheduler)
  ultimately show ?thesis unfolding completed_event_def by (intro keeps_bind keeps_on_part part_keeps)
qed

lemma end_cbs_plan:
  "child_terminated_cb q s = Inr (e, q', s') \<Longrightarrow> proc_plan q' = proc_plan q \<and> os_extends s s'"
  "cgroup_event_cb q s = Inr (e, q', s') \<Longrightarrow> proc_plan q' = proc_plan q \<and> os_extends s s'"
  by (auto dest: read_populated_status_extends simp: child_terminated_cb_def cgroup_event_cb_def populated_cb_def bindE_Inr_iff Let_def handle_end_def proc_plan_def split: if_splits)

lemma keeps_end_event [plan_rules]:
  assumes "\<And>q s e q' s'. cb q s = Inr (e, q', s') \<Longrightarrow> proc_plan q' = proc_plan q \<and> os_extends s s'"
  shows "keeps plan w (end_event cb pi qi w)"
proof -
  have "keeps plan w (let w = (upd_part pi (upd_proc qi (\<lambda>_. q)) w)\<lparr>st_os := s\<rparr> in
      if ended then proc_exit start_scheduler sched_completion_cb pi qi w else Inr w)"
    if "cb (processes (partitions w ! pi) ! qi) (st_os w) = Inr (ended, q, s)" for ended q s
  proof -
    let ?u = "(upd_part pi (upd_proc qi (\<lambda>_. q)) w)\<lparr>st_os := s\<rparr>"
    have "part_plan (upd_proc qi (\<lambda>_. q) (partitions w ! pi)) = part_plan (partitions w ! pi)"
      using assms[OF that] by (simp add: part_plan_def upd_proc_def map_update_same)
    then have u: "plan ?u = plan w" using assms[OF that] by (simp add: plan_def upd_part_def map_update_same os_extends_const)
    show ?thesis unfolding Let_def
      by (rule keeps_change[where v = plan, OF u]) (auto intro!: keeps_proc_exit keeps_start_scheduler keeps_sched_completion)
  qed
  then show ?thesis unfolding end_event_def by (auto intro!: keeps_other)
qed

lemma timer_ev_extends: "timer_ev_callback tm s = Inr (tm', s') \<Longrightarrow> os_extends s s'"
  by (auto simp: timer_ev_callback_def bindE_Inr_iff dest: CHECK_extends)

lemma keeps_sched_step: "keeps plan w (sched_step ev w)"
proof (cases ev)
  case Startup
  then show ?thesis by (simp add: startup_fn_def) (intro plan_rules)
next
  case Window_timer
  then show ?thesis
    by (auto simp: window_timer_event_def intro!: keeps_other keeps_change[where v = plan and w = w, OF _ keeps_mf_timeout] dest: timer_ev_extends)
next
  case (Slice_timer wi si)
  have "plan (upd_slice wi si (\<lambda>sl. sl\<lparr>sl_timer := tm\<rparr>) w) = plan w" for tm
    by (rule plan_upd_slice) (simp add: slice_conf_def)
  then show ?thesis
    by (auto simp: Slice_timer slice_timer_event_def Let_def
        intro!: keeps_other keeps_change[where v = plan and w = w, OF _ keeps_schedule_next] keeps_sc_end dest: timer_ev_extends)
next
  case Timeout_timer
  then show ?thesis
    by (auto simp: timeout_timer_event_def timeout_cb_def intro!: keeps_other keeps_change[where v = plan and w = w, OF _ keeps_shutdown] dest: timer_ev_extends)
qed (auto simp: signal_cb_def intro!: keeps_completed_event keeps_end_event keeps_shutdown dest: end_cbs_plan)

lemma sched_run_plan: "sched_run w evs w' \<Longrightarrow> plan w' = plan w"
proof (induction rule: sched_run.induct)
  case (snoc w evs w' ev w'')
  then have "sched_step ev w' = Inr w''" by (auto elim: sched_transE)
  from keepsD[OF keeps_sched_step this] snoc show ?case by simp
qed simp

text \<open>From the objects the scheduler is built of to every state it reaches.\<close>

lemma reached_plan:
  assumes "scheduler_new parts wins m1 m2 pp s = Inr w" and "sched_setup w = Inr w0"
    and "startup_fn (set_timeout t w0) = Inr w1" and "sched_run w1 evs w2"
  shows "map part_plan (partitions w2) = map part_plan parts" "windows_plan (windows w2) = windows_plan wins"
    "os_const (st_os w2) = os_const s"
proof -
  have "plan w = (map part_plan parts, windows_plan wins, os_const s)"
    using assms(1) by (auto simp: scheduler_new_def timerfd_new_def bindE_Inr_iff plan_def set_exit_cb_def comp_def
        dest!: CHECK_extends os_extends_const)
  moreover have "keeps plan w (sched_setup w)" unfolding sched_setup_def pm_create_processes_def by (intro plan_rules)
  then have "plan w0 = plan w" using assms(2) by (rule keepsD)
  moreover have "plan w1 = plan w0"
    using keepsD[OF keeps_sched_step[of "set_timeout t w0" Startup], of w1] assms(3) by (simp add: set_timeout_def)
  ultimately have "plan w2 = (map part_plan parts, windows_plan wins, os_const s)" using sched_run_plan[OF assms(4)] by simp
  then show "map part_plan (partitions w2) = map part_plan parts" "windows_plan (windows w2) = windows_plan wins"
    "os_const (st_os w2) = os_const s"
    by (simp_all add: plan_def)
qed

end
