(* ===== verification/Clean_Up.thy ===== *)
theory Clean_Up
  imports Cgroup_Setup Config_Objects Run_Plan
begin

text \<open>
  How the program ends: when \<open>main\<close> returns from the event loop, the destructors of its objects run in the
  reverse order of their declarations. Those of the cgroups remove their directories (\<open>Cgroup::~Cgroup\<close> of
  \<open>src/src/cgroup.cpp\<close>), that of \<open>PowerManager\<close> restores the governors. A destructor that throws ends
  the program, an \<open>Inl\<close> here. Closing descriptors and stopping watchers leaves no trace in the model.
\<close>

subsection \<open>The destructors\<close>

definition process_delete :: "process \<Rightarrow> os \<Rightarrow> os" where
  "process_delete q s = cgroup_delete (proc_cge q) (cgroup_delete (proc_cgf q) s)"

definition partition_delete :: "partition \<Rightarrow> os \<Rightarrow> os" where
  "partition_delete p s =
     cgroup_delete (part_cgc p) (cgroup_delete (part_cgf p) (cgroup_delete (part_cge p)
       (fold process_delete (processes p) s)))"

definition scheduler_delete :: "scheduler \<Rightarrow> os" where
  "scheduler_delete w = fold partition_delete (partitions w) (st_os w)"

text \<open>The member \<open>pm\<close> of the policies that use it.\<close>

fun policy_manager :: "power_policy \<Rightarrow> power_manager option" where
  "policy_manager PowerPolicy_None = None"
| "policy_manager (PowerPolicy_MinBE pm) = Some pm"
| "policy_manager (PowerPolicy_FixedLow pm) = Some pm"
| "policy_manager (PowerPolicy_FixedHigh pm) = Some pm"
| "policy_manager (PowerPolicy_PerProcess pm cs) = Some pm"
| "policy_manager (PowerPolicy_Imx8_PerProcess pm cs) = Some pm"
| "policy_manager (PowerPolicy_Imx8_PerSlice pm ps) = Some pm"
| "policy_manager (PowerPolicy_Imx8_Fixed pm) = Some pm"
| "policy_manager (PowerPolicy_Imx8_Alternating pm a) = Some pm"

definition policy_delete :: "power_policy \<Rightarrow> os \<Rightarrow> os result" where
  "policy_delete pp s = (case policy_manager pp of None \<Rightarrow> Inr s
     | Some pm \<Rightarrow> bindE (power_manager_delete pm s) (\<lambda>(_, s). Inr s))"

text \<open>
  The local objects of \<open>main\<close>: the scheduler, the power policy and the three top-level cgroups. Where the
  top-level cgroups cannot be used, \<open>main\<close> returns with only these to destroy.
\<close>

definition toplevel_delete :: "toplevel \<Rightarrow> os \<Rightarrow> os" where
  "toplevel_delete tls s =
     cgroup_delete (tl_unified tls) (cgroup_delete (tl_freezer tls) (cgroup_delete (tl_cpuset tls) s))"

definition clean_up :: "toplevel \<Rightarrow> scheduler \<Rightarrow> os result" where
  "clean_up tls w =
     bindE (policy_delete (st_policy w) (scheduler_delete w)) (\<lambda>s.
     Inr (toplevel_delete tls s))"

subsection \<open>What the destructors do to the directories\<close>

text \<open>From here on every call succeeds: the kernel removes a cgroup once its processes have ended.\<close>

definition calls_ok :: "os \<Rightarrow> bool" where
  "calls_ok s \<longleftrightarrow> (\<forall>n \<ge> io_count s. io_outcome s n = None)"

text \<open>The calls \<open>evs\<close> on directories are made between two systems.\<close>

definition dirs_step :: "os \<Rightarrow> os_event list \<Rightarrow> os \<Rightarrow> bool" where
  "dirs_step s evs t \<longleftrightarrow> calls_ok t \<and> dir_calls t = rev evs @ dir_calls s"

lemma dirs_step_trans [trans]: "dirs_step s evs t \<Longrightarrow> dirs_step t evs' u \<Longrightarrow> dirs_step s (evs @ evs') u"
  by (simp add: dirs_step_def)

lemma dirs_step_refl: "calls_ok s \<Longrightarrow> dirs_step s [] s"
  by (simp add: dirs_step_def)

lemma dirs_step_ok: "dirs_step s evs t \<Longrightarrow> calls_ok t"
  by (simp add: dirs_step_def)

lemma syscall_ok:
  assumes "calls_ok s"
  obtains t where "syscall ev s = (None, t)" and "dirs_step s (if dir_call ev then [ev] else []) t"
proof (rule that)
  show "syscall ev s = (None, s\<lparr>io_count := Suc (io_count s), io_log := ev # io_log s\<rparr>)"
    using assms by (simp add: calls_ok_def syscall_def)
  show "dirs_step s (if dir_call ev then [ev] else []) (s\<lparr>io_count := Suc (io_count s), io_log := ev # io_log s\<rparr>)"
    using assms by (simp add: calls_ok_def dirs_step_def dir_calls_def)
qed

lemma CHECK_ok:
  assumes "calls_ok s" and "\<not> dir_call ev"
  obtains t where "CHECK ev s = Inr t" and "dirs_step s [] t"
proof -
  obtain t where "syscall ev s = (None, t)" "dirs_step s (if dir_call ev then [ev] else []) t"
    by (rule syscall_ok[OF assms(1)])
  with assms(2) show thesis by (intro that[of t]) (simp_all add: CHECK_def)
qed

definition removal :: "dir \<Rightarrow> os_event list" where
  "removal = (\<lambda>(rm, path). if rm \<and> path \<noteq> [] then [Rmdir path] else [])"

lemma cgroup_delete_dirs: "calls_ok s \<Longrightarrow> dirs_step s (removal (dir_of g)) (cgroup_delete g s)"
  by (rule syscall_ok[of s "Rmdir (cg_path g)"])
    (auto simp: cgroup_delete_def removal_def dir_of_def dirs_step_def)

lemma fold_dirs:
  assumes "\<And>x s. calls_ok s \<Longrightarrow> dirs_step s (evs x) (f x s)" and "calls_ok s"
  shows "dirs_step s (concat (map evs xs)) (fold f xs s)"
  using assms(2)
proof (induction xs arbitrary: s)
  case (Cons x xs)
  from assms(1)[OF Cons.prems, of x] have "dirs_step s (evs x) (f x s)" .
  also from Cons.IH[OF dirs_step_ok[OF this]] have "dirs_step (f x s) (concat (map evs xs)) (fold f xs (f x s))" .
  finally show ?case by simp
qed (simp add: dirs_step_refl)

text \<open>The directories of a process and of a partition, in the order they are removed.\<close>

definition proc_dirs :: "process_plan \<Rightarrow> dir list" where
  "proc_dirs = (\<lambda>(_, _, _, _, _, _, _, df, de). [df, de])"

definition part_dirs :: "partition_plan \<Rightarrow> dir list" where
  "part_dirs = (\<lambda>(_, (de, df, dc), qs). concat (map proc_dirs qs) @ [de, df, dc])"

definition removals :: "dir list \<Rightarrow> os_event list" where
  "removals ds = concat (map removal ds)"

lemma removals_simps [simp]:
  "removals [] = []" "removals (d # ds) = removal d @ removals ds" "removals (ds @ es) = removals ds @ removals es"
  by (simp_all add: removals_def)

lemma removals_concat: "removals (concat (map f xs)) = concat (map (\<lambda>x. removals (f x)) xs)"
  by (induction xs) simp_all

lemma process_delete_dirs: "calls_ok s \<Longrightarrow> dirs_step s (removals (proc_dirs (proc_plan q))) (process_delete q s)"
  unfolding process_delete_def
  using dirs_step_trans[OF cgroup_delete_dirs[of s "proc_cgf q"] cgroup_delete_dirs[OF dirs_step_ok[OF cgroup_delete_dirs[of s "proc_cgf q"]], of "proc_cge q"]]
  by (simp add: proc_dirs_def proc_plan_def)

lemma partition_delete_dirs: "calls_ok s \<Longrightarrow> dirs_step s (removals (part_dirs (part_plan p))) (partition_delete p s)"
proof -
  assume s: "calls_ok s"
  let ?s0 = "fold process_delete (processes p) s"
  let ?s1 = "cgroup_delete (part_cge p) ?s0"
  let ?s2 = "cgroup_delete (part_cgf p) ?s1"
  have 0: "dirs_step s (concat (map (\<lambda>q. removals (proc_dirs (proc_plan q))) (processes p))) ?s0"
    by (rule fold_dirs[OF process_delete_dirs s])
  have 1: "dirs_step ?s0 (removal (dir_of (part_cge p))) ?s1" by (rule cgroup_delete_dirs[OF dirs_step_ok[OF 0]])
  have 2: "dirs_step ?s1 (removal (dir_of (part_cgf p))) ?s2" by (rule cgroup_delete_dirs[OF dirs_step_ok[OF 1]])
  have 3: "dirs_step ?s2 (removal (dir_of (part_cgc p))) (partition_delete p s)"
    unfolding partition_delete_def by (rule cgroup_delete_dirs[OF dirs_step_ok[OF 2]])
  from dirs_step_trans[OF dirs_step_trans[OF dirs_step_trans[OF 0 1] 2] 3] show ?thesis
    by (simp add: part_dirs_def part_plan_def removals_concat comp_def)
qed

lemma scheduler_delete_dirs:
  "calls_ok (st_os w) \<Longrightarrow>
     dirs_step (st_os w) (removals (concat (map part_dirs (map part_plan (partitions w))))) (scheduler_delete w)"
  using fold_dirs[of "\<lambda>p. removals (part_dirs (part_plan p))" partition_delete "st_os w" "partitions w"] partition_delete_dirs
  by (simp add: scheduler_delete_def removals_concat comp_def)

lemma write_stream_dirs: "calls_ok s \<Longrightarrow> dirs_step s [] (write_stream file txt s)"
  by (rule syscall_ok[of s "Write file txt"]) (auto simp: write_stream_def)

lemma write_governor_ok:
  assumes "calls_ok s"
  shows "\<exists>q t. write_governor g p s = Inr (q, t) \<and> dirs_step s [] t"
proof -
  let ?file = "governor_file (policy_dir p)"
  obtain t where t: "CHECK (Open ?file) s = Inr t" "dirs_step s [] t" by (rule CHECK_ok[OF assms]) auto
  from dirs_step_trans[OF t(2) write_stream_dirs[OF dirs_step_ok[OF t(2)]]] t(1) dirs_step_refl[OF assms]
  show ?thesis by (auto simp: write_governor_def)
qed

lemma write_scaling_max_ok:
  assumes "calls_ok s"
  shows "\<exists>t. write_scaling_max_freq f p s = Inr t \<and> dirs_step s [] t"
proof -
  let ?file = "policy_dir p @ ''/scaling_max_freq''"
  obtain t where t: "CHECK (Open ?file) s = Inr t" "dirs_step s [] t" by (rule CHECK_ok[OF assms]) auto
  obtain u where "CHECK (Write ?file (khz_text f)) t = Inr u" "dirs_step t [] u"
    by (rule CHECK_ok[OF dirs_step_ok[OF t(2)], of "Write ?file (khz_text f)"]) auto
  with t dirs_step_trans[OF t(2)] show ?thesis by (auto simp: write_scaling_max_freq_def Let_def)
qed

lemma cpufreq_policy_delete_ok:
  assumes "calls_ok s"
  shows "\<exists>q t. cpufreq_policy_delete p s = Inr (q, t) \<and> dirs_step s [] t"
proof -
  obtain t where t: "(if original_scaling_max_frequency p \<noteq> max_frequency p
      then write_scaling_max_freq (original_scaling_max_frequency p) p s else Inr s) = Inr t" "dirs_step s [] t"
    using write_scaling_max_ok[OF assms, of "original_scaling_max_frequency p" p] dirs_step_refl[OF assms]
    by (cases "original_scaling_max_frequency p = max_frequency p") auto
  from write_governor_ok[OF dirs_step_ok[OF t(2)]] dirs_step_trans[OF t(2)] show ?thesis
    unfolding cpufreq_policy_delete_def t(1) by force
qed

lemma mapE_delete_ok:
  assumes "calls_ok s"
  shows "\<exists>qs t. mapE cpufreq_policy_delete ps s = Inr (qs, t) \<and> dirs_step s [] t"
proof (rule mapE_total)
  show "dirs_step s [] s" by (rule dirs_step_refl[OF assms])
  fix p t assume t: "dirs_step s [] t"
  obtain q u where "cpufreq_policy_delete p t = Inr (q, u)" "dirs_step t [] u"
    using cpufreq_policy_delete_ok[OF dirs_step_ok[OF t]] by blast
  with dirs_step_trans[OF t] show "\<exists>q u. cpufreq_policy_delete p t = Inr (q, u) \<and> dirs_step s [] u" by fastforce
qed

lemma policy_delete_ok:
  assumes "calls_ok s"
  shows "\<exists>t. policy_delete pp s = Inr t \<and> dirs_step s [] t"
proof (cases "policy_manager pp")
  case None
  with assms show ?thesis by (simp add: policy_delete_def dirs_step_refl)
next
  case (Some pm)
  have "\<exists>t. reset_intel_pstate_driver pm s = Inr t \<and> dirs_step s [] t"
  proof -
    obtain t where t: "CHECK (Open pstate_file) s = Inr t" "dirs_step s [] t" by (rule CHECK_ok[OF assms]) auto
    from dirs_step_trans[OF t(2) write_stream_dirs[OF dirs_step_ok[OF t(2)]]] t(1) dirs_step_refl[OF assms]
    show ?thesis by (auto simp: reset_intel_pstate_driver_def)
  qed
  then obtain t where t: "(if original_intel_pstate_status pm \<noteq> [] then reset_intel_pstate_driver pm s else Inr s) = Inr t"
    "dirs_step s [] t" using dirs_step_refl[OF assms] by (cases "original_intel_pstate_status pm = []") auto
  obtain qs u where "mapE cpufreq_policy_delete (policies pm) t = Inr (qs, u)" "dirs_step t [] u"
    using mapE_delete_ok[OF dirs_step_ok[OF t(2)]] by blast
  with dirs_step_trans[OF t(2)] show ?thesis by (simp add: policy_delete_def Some power_manager_delete_def t(1) cong: if_cong)
qed

text \<open>All directories of the program, in the order they are removed.\<close>

definition all_dirs :: "toplevel \<Rightarrow> partition_plan list \<Rightarrow> dir list" where
  "all_dirs tls pls = concat (map part_dirs pls) @ [dir_of (tl_cpuset tls), dir_of (tl_freezer tls), dir_of (tl_unified tls)]"

lemma toplevel_delete_dirs:
  assumes "calls_ok s"
  shows "dirs_step s (removals [dir_of (tl_cpuset tls), dir_of (tl_freezer tls), dir_of (tl_unified tls)]) (toplevel_delete tls s)"
proof -
  let ?s1 = "cgroup_delete (tl_cpuset tls) s"
  let ?s2 = "cgroup_delete (tl_freezer tls) ?s1"
  have 1: "dirs_step s (removal (dir_of (tl_cpuset tls))) ?s1" by (rule cgroup_delete_dirs[OF assms])
  have 2: "dirs_step ?s1 (removal (dir_of (tl_freezer tls))) ?s2" by (rule cgroup_delete_dirs[OF dirs_step_ok[OF 1]])
  have 3: "dirs_step ?s2 (removal (dir_of (tl_unified tls))) (toplevel_delete tls s)"
    unfolding toplevel_delete_def by (rule cgroup_delete_dirs[OF dirs_step_ok[OF 2]])
  from dirs_step_trans[OF dirs_step_trans[OF 1 2] 3] show ?thesis by simp
qed

lemma clean_up_dirs:
  assumes "calls_ok (st_os w)"
  shows "\<exists>t. clean_up tls w = Inr t \<and> dirs_step (st_os w) (removals (all_dirs tls (map part_plan (partitions w)))) t"
proof -
  note 0 = scheduler_delete_dirs[OF assms]
  obtain s where s: "policy_delete (st_policy w) (scheduler_delete w) = Inr s" "dirs_step (scheduler_delete w) [] s"
    using policy_delete_ok[OF dirs_step_ok[OF 0]] by blast
  from dirs_step_trans[OF dirs_step_trans[OF 0 s(2)] toplevel_delete_dirs[OF dirs_step_ok[OF s(2)]]] s(1) show ?thesis
    by (simp add: clean_up_def all_dirs_def)
qed

subsection \<open>What the constructors made\<close>

text \<open>Between two systems, the only calls on directories make some of those that \<open>ds\<close> says are to be removed.\<close>

definition creates :: "os \<Rightarrow> dir list \<Rightarrow> os \<Rightarrow> bool" where
  "creates s ds t \<longleftrightarrow> io_outcome t = io_outcome s \<and> (\<exists>evs. dir_calls t = evs @ dir_calls s \<and> set evs \<subseteq> {Mkdir path |path. (True, path) \<in> set ds})"

lemma creates_refl [simp]: "creates s [] s"
  by (simp add: creates_def)

lemma creates_trans [trans]:
  assumes "creates s ds t" and "creates t es u"
  shows "creates s (ds @ es) u"
proof -
  from assms obtain evs evs' where "dir_calls t = evs @ dir_calls s" "dir_calls u = evs' @ dir_calls t"
    "set evs \<subseteq> {Mkdir path |path. (True, path) \<in> set ds}" "set evs' \<subseteq> {Mkdir path |path. (True, path) \<in> set es}"
    unfolding creates_def by blast
  with assms show ?thesis unfolding creates_def by (intro conjI exI[of _ "evs' @ evs"]) auto
qed

lemma creates_os: "os_extends t u \<Longrightarrow> creates s ds t \<Longrightarrow> creates s ds u"
  by (simp add: creates_def os_extends_def)

lemma creates_mono: "creates s ds t \<Longrightarrow> set ds \<subseteq> set es \<Longrightarrow> creates s es t"
  unfolding creates_def by blast

lemma create_dir_creates:
  assumes "create_dir path may_exist s = Inr (rm, t)"
  shows "creates s [(rm, path)] t \<and> (\<not> may_exist \<longrightarrow> rm) \<and> (may_exist \<and> rm \<longrightarrow> Mkdir path \<in> set (dir_calls t))"
  using assms unfolding create_dir_def syscall_def creates_def dir_calls_def
  by (auto split: option.splits if_splits)

lemma cgroup_child_creates:
  assumes "cgroup_child parent name s = Inr (g, t)"
  shows "dir_of g = (True, child_path parent name) \<and> creates s [dir_of g] t"
  using assms create_dir_creates[of "child_path parent name" False s]
  by (auto simp: cgroup_child_def cgroup_new_def bindE_Inr_iff dir_of_def)

lemma events_new_creates:
  assumes "events_new parent name s = Inr (g, t)"
  shows "dir_of g = (True, child_path parent name) \<and> creates s [dir_of g] t"
  using assms by (auto simp: events_new_def bindE_Inr_iff dest!: cgroup_child_creates CHECK_extends intro: creates_os)

lemma freezer_new_creates:
  assumes "freezer_new parent name s = Inr (g, t)"
  shows "dir_of g = (True, child_path parent name) \<and> creates s [dir_of g] t"
  using assms
  by (auto simp: freezer_new_def bindE_Inr_iff dir_of_def cgroup.defs cgroup_freezer.defs
      dest!: cgroup_child_creates CHECK_extends intro: creates_os)

lemma cpuset_new_creates:
  assumes "cpuset_new parent name s = Inr (g, t)"
  shows "dir_of g = (True, child_path parent name) \<and> creates s [dir_of g] t"
  using assms
  by (auto simp: cpuset_new_def bindE_Inr_iff dir_of_def cgroup.defs cgroup_cpuset.defs
      dest!: cgroup_child_creates CHECK_extends intro: creates_os)

lemma process_new_creates:
  assumes "process_new name ge gf cmd wd b j rf i s = Inr (q, t)"
  shows "proc_dirs (proc_plan q) = [(True, child_path gf name), (True, child_path ge name)] \<and>
    creates s (proc_dirs (proc_plan q)) t"
proof -
  from assms obtain s1 s2 e s3 f s4 where n: "os_extends s s1" "os_extends s1 s2"
    "events_new ge name s2 = Inr (e, s3)" "freezer_new gf name s3 = Inr (f, s4)"
    and q: "proc_cge q = e" "dir_of (proc_cgf q) = dir_of f" "os_extends s4 t"
    by (auto simp: process_new_def evfd_new_def bindE_Inr_iff ASSERT_Inr_iff suspend_Inr dest!: CHECK_extends)
  have "creates s [] s2" by (rule creates_os[OF os_extends_trans[OF n(1,2)]]) simp
  from creates_trans[OF creates_trans[OF this conjunct2[OF events_new_creates[OF n(3)]]] conjunct2[OF freezer_new_creates[OF n(4)]]]
  have "creates s [dir_of f, dir_of e] s4" by (rule creates_mono) auto
  from creates_os[OF q(3) this] q events_new_creates[OF n(3)] freezer_new_creates[OF n(4)] show ?thesis
    by (simp add: proc_dirs_def proc_plan_def)
qed

text \<open>The directories of a partition below the three top-level directories, and those of its processes below its own.\<close>

definition proc_name :: "nat \<Rightarrow> string" where
  "proc_name i = ''proc'' @ nat_to_dec i"

definition below :: "string \<Rightarrow> string \<Rightarrow> nat \<Rightarrow> process_plan \<Rightarrow> bool" where
  "below df de i q \<longleftrightarrow> proc_dirs q = [(True, child_path df (proc_name i)), (True, child_path de (proc_name i))]"

definition laid_out :: "string \<Rightarrow> string \<Rightarrow> string \<Rightarrow> partition_plan \<Rightarrow> bool" where
  "laid_out unified freezer cpuset = (\<lambda>(name, dirs, qs).
     dirs = ((True, child_path unified name), (True, child_path freezer name), (True, child_path cpuset name)) \<and>
     (\<forall>i < length qs. below (child_path freezer name) (child_path unified name) i (qs ! i)))"

lemma no_slash_dec: "CHR ''/'' \<notin> set (nat_to_dec n)"
proof
  assume "CHR ''/'' \<in> set (nat_to_dec n)"
  then have "is_digit (CHR ''/'')" by (rule nat_to_dec_digits)
  then show False by (simp add: is_digit_def)
qed

lemma no_slash_name: "CHR ''/'' \<notin> set (proc_name i)"
  using no_slash_dec by (simp add: proc_name_def)

lemma add_process_creates:
  assumes "add_process cmd wd b j rf i p s = Inr (p', t)" and "laid_out u f c (part_plan p)" and "proc_count p = length (processes p)"
  shows "laid_out u f c (part_plan p') \<and> proc_count p' = length (processes p') \<and> (\<exists>ds. set (part_dirs (part_plan p')) = set (part_dirs (part_plan p)) \<union> set ds \<and> creates s ds t)"
proof -
  let ?n = "proc_name (length (processes p))"
  from assms(1,3) obtain q where q: "process_new ?n (cg_path (part_cge p)) (cg_path (part_cgf p)) cmd wd b j rf i s = Inr (q, t)"
    and p': "part_plan p' = (part_name p, (dir_of (part_cge p), dir_of (part_cgf p), dir_of (part_cgc p)), map proc_plan (processes p) @ [proc_plan q])"
    and n: "proc_count p' = length (processes p')"
    by (auto simp: add_process_def bindE_Inr_iff part_plan_def proc_name_def)
  from process_new_creates[OF q] have d: "proc_dirs (proc_plan q) = [(True, child_path (cg_path (part_cgf p)) ?n), (True, child_path (cg_path (part_cge p)) ?n)]"
    and cr: "creates s (proc_dirs (proc_plan q)) t" by blast+
  have "below (child_path f (part_name p)) (child_path u (part_name p)) (length (processes p)) (proc_plan q)"
    unfolding below_def using assms(2) d by (auto simp: laid_out_def part_plan_def dir_of_def)
  with assms(2) have "laid_out u f c (part_plan p')" by (auto simp: laid_out_def part_plan_def[of p] p' nth_append less_Suc_eq)
  moreover have "set (part_dirs (part_plan p')) = set (part_dirs (part_plan p)) \<union> set (proc_dirs (proc_plan q))"
    by (auto simp: part_dirs_def p' part_plan_def[of p])
  ultimately show ?thesis using cr n by blast
qed

lemma create_partition_creates:
  assumes "create_partition c wd nq (ps, s) = Inr (ps', t)"
  obtains p where "ps' = ps @ [p]" and "laid_out (unified_cg c) (freezer_cg c) (cpuset_cg c) (part_plan p)"
    and "creates s (part_dirs (part_plan p)) t"
proof -
  let ?ok = "\<lambda>(p, t). laid_out (unified_cg c) (freezer_cg c) (cpuset_cg c) (part_plan p) \<and> proc_count p = length (processes p) \<and>
    creates s (part_dirs (part_plan p)) t"
  from assms obtain p0 s0 p where new: "partition_new (freezer_cg c) (cpuset_cg c) (unified_cg c) (nq_name nq) s = Inr (p0, s0)"
    and f: "foldE (create_process wd) (nq_processes nq) (p0, s0) = Inr (p, t)" and ps': "ps' = ps @ [p]"
    by (auto simp: create_partition_def bindE_Inr_iff)
  from new obtain gc s1 gf s2 ge where g: "cpuset_new (cpuset_cg c) (nq_name nq) s = Inr (gc, s1)"
    "cgroup_child (freezer_cg c) (nq_name nq) s1 = Inr (gf, s2)" "cgroup_child (unified_cg c) (nq_name nq) s2 = Inr (ge, s0)"
    and p0: "part_plan p0 = (nq_name nq, (dir_of ge, dir_of gf, dir_of gc), [])" "proc_count p0 = length (processes p0)"
    by (auto simp: partition_new_def bindE_Inr_iff part_plan_def)
  note g' = cpuset_new_creates[OF g(1)] cgroup_child_creates[OF g(2)] cgroup_child_creates[OF g(3)]
  from g' have "creates s ([dir_of gc] @ [dir_of gf] @ [dir_of ge]) s0" by (blast intro: creates_trans)
  then have "creates s (part_dirs (part_plan p0)) s0" by (rule creates_mono) (auto simp: part_dirs_def p0)
  with g' have "?ok (p0, s0)" by (simp add: laid_out_def p0)
  moreover have "?ok st'" if "?ok st" "create_process wd np st = Inr st'" for np st st'
  proof -
    obtain a x b y where st: "st = (a, x)" "st' = (b, y)" by fastforce
    from that(2) obtain cmd bu j rf i where "add_process cmd wd bu j rf i a x = Inr (b, y)"
      by (auto simp: create_process_def bindE_Inr_iff st)
    from add_process_creates[OF this] that(1) st obtain ds where
      d: "laid_out (unified_cg c) (freezer_cg c) (cpuset_cg c) (part_plan b) \<and> proc_count b = length (processes b)"
      "set (part_dirs (part_plan b)) = set (part_dirs (part_plan a)) \<union> set ds" "creates x ds y" by blast
    from that(1) st have "creates s (part_dirs (part_plan a)) x" by simp
    from creates_mono[OF creates_trans[OF this d(3)], of "part_dirs (part_plan b)"] d(1,2) show ?thesis by (simp add: st)
  qed
  ultimately have "?ok (p, t)" by (rule foldE_invariant[OF f, where P = ?ok])
  with ps' show thesis by (intro that) auto
qed

lemma create_window_extends: "create_window allowed parts nw (ws, s) = Inr (ws', t) \<Longrightarrow> os_extends s t"
proof -
  assume "create_window allowed parts nw (ws, s) = Inr (ws', t)"
  then obtain w where f: "foldE (create_slice allowed parts) (win_slices nw) (window_new (nw_length nw), s) = Inr (w, t)"
    by (auto simp: create_window_def bindE_Inr_iff)
  have step: "os_extends x y" if "create_slice allowed parts ns (a, x) = Inr (b, y)" for ns a x b y
    using that by (auto simp: create_slice_def add_slice_def slice_new_def timerfd_new_def bindE_Inr_iff dest!: CHECK_extends)
  have "os_extends s (snd (w, t))"
  proof (rule foldE_invariant[OF f, where P = "\<lambda>st. os_extends s (snd st)"])
    fix ns st st'
    assume "os_extends s (snd st)" "create_slice allowed parts ns st = Inr st'"
    then show "os_extends s (snd st')" by (cases st; cases st') (auto intro: os_extends_trans dest: step)
  qed simp
  then show "os_extends s t" by simp
qed

lemma objects_create:
  assumes "create_scheduler_objects c allowed cwd_of obj nc s = Inr (dc, st)"
  shows "list_all (laid_out (unified_cg c) (freezer_cg c) (cpuset_cg c)) (map part_plan (partitions st)) \<and>
    creates s (concat (map part_dirs (map part_plan (partitions st)))) (st_os st)"
proof -
  let ?ok = "\<lambda>(ps, t). list_all (laid_out (unified_cg c) (freezer_cg c) (cpuset_cg c)) (map part_plan ps) \<and>
    creates s (concat (map part_dirs (map part_plan ps))) t"
  from assms obtain wd parts s1 dm wins s2 where p: "foldE (create_partition c wd) (nc_partitions nc) ([], s) = Inr (parts, s1)"
    and w: "foldE (create_window allowed parts) (nc_windows nc) ([], s1) = Inr (wins, s2)"
    and st: "partitions st = parts" "st_os st = s2"
    by (auto simp: create_scheduler_objects_def bindE_Inr_iff Let_def)
  have step: "?ok st'" if ok: "?ok st" and c: "create_partition c wd nq st = Inr st'" for nq st st'
  proof -
    obtain ps x ps' y where st: "st = (ps, x)" "st' = (ps', y)" by fastforce
    from c[unfolded st] obtain p where p: "ps' = ps @ [p]"
      "laid_out (unified_cg c) (freezer_cg c) (cpuset_cg c) (part_plan p)" "creates x (part_dirs (part_plan p)) y"
      by (rule create_partition_creates)
    have "creates s (concat (map part_dirs (map part_plan ps)) @ part_dirs (part_plan p)) y"
      by (rule creates_trans[OF _ p(3)]) (use ok st in simp)
    with ok st p(1,2) show ?thesis by simp
  qed
  have "?ok (parts, s1)" by (rule foldE_invariant[OF p, where P = ?ok]) (simp, erule step, assumption)
  moreover have "os_extends s1 (snd (wins, s2))"
    by (rule foldE_invariant[OF w]) (auto dest!: create_window_extends elim: os_extends_trans)
  ultimately show ?thesis using st by (auto intro: creates_os)
qed

text \<open>
  Normalisation accepts two partitions of the same name. They share all their cgroups, and so do their processes:
  freezing or killing one of two processes does the same to the other.
\<close>

lemma same_name_shares_cgroups:
  assumes "create_scheduler_objects c allowed cwd_of obj nc s = Inr (dc, st)"
    and "p \<in> set (partitions st)" "q \<in> set (partitions st)" and "part_name p = part_name q"
    and "i < length (processes p)" "i < length (processes q)"
  shows "cg_path (part_cgc p) = cg_path (part_cgc q) \<and>
    cg_path (proc_cgf (processes p ! i)) = cg_path (proc_cgf (processes q ! i)) \<and>
    cg_path (proc_cge (processes p ! i)) = cg_path (proc_cge (processes q ! i))"
proof -
  have l: "laid_out (unified_cg c) (freezer_cg c) (cpuset_cg c) (part_plan p)" "laid_out (unified_cg c) (freezer_cg c) (cpuset_cg c) (part_plan q)"
    using objects_create[OF assms(1)] assms(2,3) by (simp_all add: list_all_iff)
  then have "proc_dirs (map proc_plan (processes p) ! i) = proc_dirs (map proc_plan (processes q) ! i)"
    using assms(4-6) by (simp add: laid_out_def part_plan_def below_def)
  with assms(5,6) l show ?thesis
    by (simp add: proc_dirs_def proc_plan_def laid_out_def part_plan_def dir_of_def assms(4))
qed

text \<open>The top-level cgroups: a directory that existed before is not removed.\<close>

lemma try_add_process_const: "try_add_process g p s = (b, t) \<Longrightarrow> os_const t = os_const s"
  by (auto simp: try_add_process_def syscall_def os_const_def dir_calls_def Let_def split: option.splits prod.splits)

lemma write_stream_const [simp]: "os_const (write_stream file t s) = os_const s"
  by (simp add: write_stream_def syscall_def os_const_def dir_calls_def split: option.splits)

lemma initialise_cpuset_const [simp]: "os_const (initialise_cpuset p s) = os_const s"
  by (simp add: initialise_cpuset_def)

lemma try_cgroup_creates:
  assumes "try_cgroup path (adv, s) = Inr (g, adv', t)"
  shows "creates s [dir_of g] t \<and> (cg_path g \<noteq> [] \<and> cg_remove g \<longrightarrow> Mkdir (cg_path g) \<in> set (dir_calls t))"
proof (cases "cgroup_new path True s")
  case (Inl e)
  with assms show ?thesis
    by (auto simp: try_cgroup_def cgroup_new_def create_dir_def bindE_Inr_iff syscall_def no_cgroup_def creates_def dir_calls_def
        split: prod.splits option.splits if_splits)
next
  case (Inr r)
  with assms have "r = (g, t)" by (auto simp: try_cgroup_def split: prod.splits)
  with Inr show ?thesis
    by (auto simp: cgroup_new_def bindE_Inr_iff dir_of_def dest!: create_dir_creates)
qed

lemma setup_cgroup_creates:
  assumes "setup_cgroup path initialise child lines (adv, s) = Inr (g, adv', t)"
    and "\<And>s. os_const (initialise s) = os_const s"
  shows "creates s [dir_of g] t \<and> (cg_path g \<noteq> [] \<and> cg_remove g \<longrightarrow> Mkdir (cg_path g) \<in> set (dir_calls t))"
proof -
  from assms(1) obtain adv1 s1 where t: "try_cgroup path (adv, s) = Inr (g, adv1, s1)"
    and a: "add_or_advise g child lines (adv1, if cg_path g = [] then s1 else initialise s1) = (adv', t)"
    by (auto simp: setup_cgroup_def bindE_Inr_iff)
  from a have "os_const t = os_const (if cg_path g = [] then s1 else initialise s1)"
    by (cases adv1) (auto simp: add_or_advise_def split: prod.splits bool.splits dest!: try_add_process_const)
  then have "os_const t = os_const s1" using assms(2) by simp
  with try_cgroup_creates[OF t] show ?thesis by (simp add: creates_def os_const_def)
qed

definition top_dirs :: "toplevel \<Rightarrow> dir list" where
  "top_dirs tls = [dir_of (tl_unified tls), dir_of (tl_freezer tls), dir_of (tl_cpuset tls)]"

lemma toplevel_create:
  assumes "create_toplevel_cgroups name fs uid ppid s = Inr (ok, tls, t)"
  shows "creates s (top_dirs tls) t \<and> (\<forall>path \<noteq> []. (True, path) \<in> set (top_dirs tls) \<longrightarrow> Mkdir path \<in> set (dir_calls t))"
proof (rule create_toplevel_cgroups_Inr[OF assms])
  fix p s0 u a1 s1 f a2 s2 c a3 s3
  assume fork: "CHECK Fork s = Inr s0"
    and u: "setup_cgroup (unified_path p) id (fork_pid s (io_count s)) [chown_line uid (unified_path p),
         ''sudo echo '' @ int_to_dec ppid @ '' > '' @ unified_path p @ ''/cgroup.procs''] (([], []), s0) = Inr (u, a1, s1)"
    and f: "setup_cgroup (freezer_path p) id (fork_pid s (io_count s)) [chown_line uid (freezer_path p)] (a1, s1) = Inr (f, a2, s2)"
    and c: "setup_cgroup (cpuset_path p) (initialise_cpuset p) (fork_pid s (io_count s)) [chown_line uid (cpuset_path p)] (a2, s2) = Inr (c, a3, s3)"
    and tls: "tls = \<lparr>tl_unified = u, tl_freezer = f, tl_cpuset = c, tl_advice = a3\<rparr>" and t: "t = snd (syscall (Kill (fork_pid s (io_count s))) s3)"
  have 0: "creates s [] s0" by (rule creates_os[OF CHECK_extends[OF fork]]) simp_all
  note 1 = setup_cgroup_creates[OF u] and 2 = setup_cgroup_creates[OF f] and 3 = setup_cgroup_creates[OF c initialise_cpuset_const]
  have kill: "dir_calls t = dir_calls s3" "io_outcome t = io_outcome s3"
    by (simp_all add: t syscall_def dir_calls_def split: option.splits)
  note creates_trans[OF creates_trans[OF creates_trans[OF 0 conjunct1[OF 1]] conjunct1[OF 2]] conjunct1[OF 3]]
  moreover have "set (dir_calls s1) \<subseteq> set (dir_calls s2)" "set (dir_calls s2) \<subseteq> set (dir_calls s3)"
    using 2 3 by (auto simp: creates_def)
  ultimately show ?thesis using 1 2 3 by (auto simp: kill tls top_dirs_def creates_def dir_of_def)
qed

text \<open>A power policy makes no directory.\<close>

lemma syscall_extends: "syscall ev s = (r, t) \<Longrightarrow> \<not> dir_call ev \<Longrightarrow> os_extends s t"
  by (auto simp: syscall_def os_extends_def dir_calls_def suffix_Cons split: option.splits)

lemma write_scaling_max_freq_extends: "write_scaling_max_freq f p s = Inr t \<Longrightarrow> os_extends s t"
  by (auto simp: write_scaling_max_freq_def Let_def bindE_Inr_iff dest!: CHECK_extends elim: os_extends_trans)

lemma cpufreq_policy_new_extends: "cpufreq_policy_new dir name fs s = Inr (p, t) \<Longrightarrow> os_extends s t"
proof -
  assume "cpufreq_policy_new dir name fs s = Inr (p, t)"
  then obtain gov s1 mn s2 mx s3 smx s4 av s5 aff s6 p0 p1 s7 s8 where
    r: "read_governor dir fs s = Inr (gov, s1)" "read_freq_file (dir @ ''/cpuinfo_min_freq'') (sys_min_khz fs) s1 = Inr (mn, s2)"
      "read_freq_file (dir @ ''/cpuinfo_max_freq'') (sys_max_khz fs) s2 = Inr (mx, s3)"
      "read_freq_file (dir @ ''/scaling_max_freq'') (sys_scaling_max_khz fs) s3 = Inr (smx, s4)"
      "read_available_frequencies dir fs s4 = Inr (av, s5)" "read_affected_cpus dir fs s5 = Inr (aff, s6)"
      "write_governor ''userspace'' p0 s6 = Inr (p1, s7)"
      "(if smx \<noteq> mx then write_scaling_max_freq mx p1 s7 else Inr s7) = Inr s8" "CHECK (Open (speed_file p1)) s8 = Inr t"
    by (auto simp: cpufreq_policy_new_def Let_def bindE_Inr_iff split: prod.splits)
  have read: "read_freq_file path v x = Inr (f, y) \<Longrightarrow> os_extends x y" for path v x f y
    by (auto simp: read_freq_file_def bindE_Inr_iff split: option.splits dest!: CHECK_extends)
  have "os_extends s s1" using r(1) by (auto simp: read_governor_def bindE_Inr_iff split: if_splits dest: CHECK_extends)
  also have "os_extends s1 s2" by (rule read[OF r(2)])
  also have "os_extends s2 s3" by (rule read[OF r(3)])
  also have "os_extends s3 s4" by (rule read[OF r(4)])
  also have "os_extends s4 s5" using r(5)
    by (auto simp: read_available_frequencies_def bindE_Inr_iff ASSERT_Inr_iff split: prod.splits option.splits dest!: syscall_extends)
  also have "os_extends s5 s6" using r(6) by (auto simp: read_affected_cpus_def bindE_Inr_iff ASSERT_Inr_iff dest!: CHECK_extends)
  also have "os_extends s6 s7" using write_governor_Inr[OF r(7)] by blast
  also have "os_extends s7 s8" using r(8) by (auto split: if_splits dest: write_scaling_max_freq_extends)
  also have "os_extends s8 t" by (rule CHECK_extends[OF r(9)]) simp
  finally show "os_extends s t" .
qed

lemma setup_policy_entry_extends: "setup_policy_entry e (ps, s) = Inr (qs, t) \<Longrightarrow> os_extends s t"
  by (auto simp: setup_policy_entry_def bindE_Inr_iff split: if_splits dest: cpufreq_policy_new_extends)

lemma power_manager_new_extends: "power_manager_new fs s = Inr (pm, t) \<Longrightarrow> os_extends s t"
proof -
  assume "power_manager_new fs s = Inr (pm, t)"
  then obtain s1 st s2 ps where r: "check_support s = Inr s1"
    "(if has_intel_pstate fs then setup_intel_pstate_driver fs s1 else Inr ([], s1)) = Inr (st, s2)"
    "foldE setup_policy_entry (cpufreq_entries fs) ([], s2) = Inr (ps, t)"
    by (auto simp: power_manager_new_def setup_policy_objects_def bindE_Inr_iff)
  have "os_extends s s1" using r(1) by (auto simp: check_support_def split: prod.splits option.splits if_splits dest: syscall_extends)
  also have "os_extends s1 s2" using r(2)
    by (auto simp: setup_intel_pstate_driver_def bindE_Inr_iff split: if_splits dest!: CHECK_extends
        intro: os_extends_trans write_stream_extends)
  also have "os_extends s2 (snd (ps, t))"
    by (rule foldE_invariant[OF r(3)]) (auto dest!: setup_policy_entry_extends elim: os_extends_trans)
  finally show "os_extends s t" by simp
qed

lemma write_frequency_i_extends: "write_frequency_i i p s = Inr t \<Longrightarrow> os_extends s t"
  by (auto simp: write_frequency_i_def bindE_Inr_iff split: if_splits dest: write_frequency_extends)

lemma imx8_fixed_new_extends: "imx8_fixed_new a b fs s = Inr (pp, t) \<Longrightarrow> os_extends s t"
proof -
  assume "imx8_fixed_new a b fs s = Inr (pp, t)"
  then obtain pm s1 p q i s2 j where "power_manager_new fs s = Inr (pm, s1)" "write_frequency_i i p s1 = Inr s2" "write_frequency_i j q s2 = Inr t"
    by (auto simp: imx8_fixed_new_def bindE_Inr_iff)
  then show "os_extends s t" by (meson power_manager_new_extends write_frequency_i_extends os_extends_trans)
qed

lemma imx8_alternating_new_extends: "imx8_alternating_new a b c d fs s = Inr (pp, t) \<Longrightarrow> os_extends s t"
proof -
  assume "imx8_alternating_new a b c d fs s = Inr (pp, t)"
  then obtain pm s1 p q g1 g2 g3 g4 s2 where "power_manager_new fs s = Inr (pm, s1)"
    "(if g1 = g2 then write_frequency g1 p s1 else Inr s1) = Inr s2" "(if g3 = g4 then write_frequency g3 q s2 else Inr s2) = Inr t"
    unfolding imx8_alternating_new_def Let_def by (auto simp: bindE_Inr_iff split: sum.splits)
  moreover have "(if g = g' then write_frequency g p x else Inr x) = Inr y \<Longrightarrow> os_extends x y" for g g' p x y
    by (auto split: if_splits dest: write_frequency_extends)
  ultimately show "os_extends s t" by (meson power_manager_new_extends os_extends_trans)
qed

lemma construct_policy_extends: "construct_policy name args fs s = Inr (pp, t) \<Longrightarrow> os_extends s t"
  by (auto simp: construct_policy_def minbe_new_def fixed_low_new_def fixed_high_new_def per_process_new_def
      imx8_per_process_new_def imx8_per_slice_new_def bindE_Inr_iff split: if_splits
      dest!: power_manager_new_extends write_all_extends imx8_fixed_new_extends imx8_alternating_new_extends elim: os_extends_trans)

lemma setup_power_policy_extends: "setup_power_policy str fs s = Inr (pp, t) \<Longrightarrow> os_extends s t"
  by (auto simp: setup_power_policy_def instantiate_power_policy_def
      split: prod.splits if_splits option.splits sum.splits dest: construct_policy_extends)

text \<open>Where \<open>main\<close> gives up because a top-level cgroup cannot be used, it removes those that it has made.\<close>

lemma toplevel_failure_removes:
  assumes "create_toplevel_cgroups name fs uid ppid s = Inr (ok, tls, t)" and "calls_ok t" and "dir_calls s = []"
    and "Mkdir path \<in> set (dir_calls (toplevel_delete tls t))" and "path \<noteq> []"
  shows "Rmdir path \<in> set (dir_calls (toplevel_delete tls t))"
proof -
  have d: "dir_calls (toplevel_delete tls t) = rev (removals [dir_of (tl_cpuset tls), dir_of (tl_freezer tls), dir_of (tl_unified tls)]) @ dir_calls t"
    using toplevel_delete_dirs[OF assms(2)] by (simp add: dirs_step_def)
  have "Mkdir path \<in> set (dir_calls t)" using assms(4) by (auto simp: d removal_def split: prod.splits if_splits)
  with toplevel_create[OF assms(1)] assms(3) have "(True, path) \<in> set (top_dirs tls)" by (auto simp: creates_def)
  with assms(5) show ?thesis by (auto simp: d removal_def top_dirs_def split: prod.splits)
qed

subsection \<open>The order of the removals\<close>

definition inside :: "string \<Rightarrow> string \<Rightarrow> bool" where
  "inside x y \<longleftrightarrow> prefix (x @ ''/'') y"

lemma sorted_wrt_all: "(\<And>x y. x \<in> set xs \<Longrightarrow> y \<in> set xs \<Longrightarrow> P x y) \<Longrightarrow> sorted_wrt P xs"
  by (induction xs) auto

lemma slash_prefix:
  assumes "CHR ''/'' \<notin> set a" and "CHR ''/'' \<notin> set b" and "prefix (a @ CHR ''/'' # x) (b @ y)" and "y = [] \<or> hd y = CHR ''/''"
  shows "a = b"
proof -
  have "takeWhile (\<lambda>c. c \<noteq> CHR ''/'') (b @ y) = b"
    using assms(2,4) by (cases y) (auto simp: takeWhile_append)
  moreover obtain z where "b @ y = (a @ CHR ''/'' # x) @ z" using assms(3) by (auto simp: prefix_def)
  then have "takeWhile (\<lambda>c. c \<noteq> CHR ''/'') (b @ y) = a"
    using assms(1) by (auto simp: takeWhile_append)
  ultimately show ?thesis by simp
qed

text \<open>Three directories none of which is a prefix of another.\<close>

definition separate :: "string set \<Rightarrow> bool" where
  "separate roots \<longleftrightarrow> (\<forall>r \<in> roots. \<forall>r' \<in> roots. r \<noteq> r' \<longrightarrow> r \<parallel> r')"

lemma separate_roots: "separate roots \<Longrightarrow> r \<in> roots \<Longrightarrow> r' \<in> roots \<Longrightarrow> prefix (r @ x) (r' @ y) \<Longrightarrow> r = r' \<and> prefix x y"
  unfolding separate_def by (metis parallel_append parallelD1 same_prefix_prefix)

lemma not_inside_partition:
  assumes "separate roots" and "r \<in> roots" "r' \<in> roots" and "\<not> prefix (z @ ''/'') z'"
  shows "\<not> inside (child_path r a @ z) (child_path r' a @ z')"
  using separate_roots[OF assms(1-3), of "''/'' @ a @ z @ ''/''" "''/'' @ a @ z'"] assms(4)
  by (auto simp: inside_def child_path_def)

lemma not_inside_other:
  assumes "separate roots" and "r \<in> roots" "r' \<in> roots" and "CHR ''/'' \<notin> set a" "CHR ''/'' \<notin> set b" "a \<noteq> b"
    and "z = [] \<or> hd z = CHR ''/''" and "z' = [] \<or> hd z' = CHR ''/''"
  shows "\<not> inside (child_path r a @ z) (child_path r' b @ z')"
proof
  assume "inside (child_path r a @ z) (child_path r' b @ z')"
  then have "prefix (a @ z @ ''/'') (b @ z')"
    using separate_roots[OF assms(1-3), of "''/'' @ a @ z @ ''/''" "''/'' @ b @ z'"] by (auto simp: inside_def child_path_def)
  moreover obtain x where "z @ ''/'' = CHR ''/'' # x" using assms(7) by (cases z) auto
  ultimately show False using slash_prefix[OF assms(4,5) _ assms(8)] assms(6) by simp
qed

lemma not_inside_root:
  assumes "separate roots" and "r \<in> roots" "r' \<in> roots"
  shows "\<not> inside (r @ x) r'"
  using separate_roots[OF assms, of "x @ ''/''" "[]"] by (auto simp: inside_def)

lemma proc_dirs_cases:
  assumes "\<forall>i < length qs. below (child_path f a) (child_path u a) i (qs ! i)" and "d \<in> set (concat (map proc_dirs qs))"
  obtains r n where "r \<in> {u, f}" and "CHR ''/'' \<notin> set n" and "d = (True, child_path r a @ ''/'' @ n)"
proof -
  from assms(2) obtain q where q: "q \<in> set qs" "d \<in> set (proc_dirs q)" by auto
  with assms(1) obtain i where "below (child_path f a) (child_path u a) i q" by (auto simp: in_set_conv_nth)
  with no_slash_name obtain n where n: "CHR ''/'' \<notin> set n" "proc_dirs q = [(True, child_path (child_path f a) n), (True, child_path (child_path u a) n)]"
    unfolding below_def by blast
  have "d = (True, child_path f a @ ''/'' @ n) \<or> d = (True, child_path u a @ ''/'' @ n)"
    using q(2) by (simp add: n(2)) (simp add: child_path_def)
  then show thesis using that[of f n] that[of u n] n(1) by blast
qed

lemma part_dirs_cases:
  assumes "laid_out u f c pl" and "d \<in> set (part_dirs pl)"
  obtains r z where "r \<in> {u, f, c}" and "z = [] \<or> hd z = CHR ''/''" and "d = (True, child_path r (fst pl) @ z)"
proof -
  obtain a dirs qs where pl: "pl = (a, dirs, qs)" by (cases pl)
  from assms(2) consider (proc) "d \<in> set (concat (map proc_dirs qs))" | (part) r where "r \<in> {u, f, c}" "d = (True, child_path r a)"
    using assms(1) by (auto simp: pl part_dirs_def laid_out_def)
  then show thesis
  proof cases
    case proc
    have "\<forall>i < length qs. below (child_path f a) (child_path u a) i (qs ! i)" using assms(1) by (simp add: pl laid_out_def)
    then obtain r n where "r \<in> {u, f}" "d = (True, child_path r a @ ''/'' @ n)" by (rule proc_dirs_cases[OF _ proc]) blast
    then show thesis by (intro that[of r "''/'' @ n"]) (auto simp: pl)
  next
    case part
    then show thesis by (intro that[of r "[]"]) (auto simp: pl)
  qed
qed

lemma part_dirs_sorted:
  assumes "laid_out u f c pl" and "separate {u, f, c}"
  shows "sorted_wrt (\<lambda>d e. \<not> inside (snd d) (snd e)) (part_dirs pl)"
proof -
  obtain a dirs qs where pl: "pl = (a, dirs, qs)" by (cases pl)
  with assms(1) have below: "\<forall>i < length qs. below (child_path f a) (child_path u a) i (qs ! i)"
    and dirs: "dirs = ((True, child_path u a), (True, child_path f a), (True, child_path c a))" by (auto simp: laid_out_def)
  let ?ds = "concat (map proc_dirs qs)"
  have "sorted_wrt (\<lambda>d e. \<not> inside (snd d) (snd e)) ?ds"
  proof (rule sorted_wrt_all)
    fix d e
    assume "d \<in> set ?ds" "e \<in> set ?ds"
    then obtain r n r' n' where "r \<in> {u, f}" "d = (True, child_path r a @ ''/'' @ n)"
      and "r' \<in> {u, f}" "CHR ''/'' \<notin> set n'" "e = (True, child_path r' a @ ''/'' @ n')"
      by (meson proc_dirs_cases[OF below])
    moreover from this(4) have "\<not> prefix ((''/'' @ n) @ ''/'') (''/'' @ n')" by (auto simp: prefix_def)
    ultimately show "\<not> inside (snd d) (snd e)" using not_inside_partition[OF assms(2), of r r'] by auto
  qed
  moreover have "\<not> inside (snd d) (child_path r' a)" if "d \<in> set ?ds" "r' \<in> {u, f, c}" for d r'
    using that(1) by (rule proc_dirs_cases[OF below])
      (use not_inside_partition[OF assms(2) _ that(2), of _ "''/'' @ _" "[]"] in auto)
  moreover have "\<not> inside (child_path r a) (child_path r' a)" if "r \<in> {u, f, c}" "r' \<in> {u, f, c}" for r r'
    using not_inside_partition[OF assms(2) that, of "[]" "[]"] by simp
  ultimately show ?thesis by (auto simp: pl dirs part_dirs_def sorted_wrt_append)
qed

lemma all_dirs_sorted:
  assumes "list_all (laid_out u f c) pls" and "separate {u, f, c}" and "distinct (map fst pls)"
    and "\<forall>pl \<in> set pls. CHR ''/'' \<notin> set (fst pl)" and "u = cg_path (tl_unified tls)" "f = cg_path (tl_freezer tls)" "c = cg_path (tl_cpuset tls)"
  shows "sorted_wrt (\<lambda>d e. \<not> inside (snd d) (snd e)) (all_dirs tls pls)"
proof -
  let ?P = "\<lambda>d e. \<not> inside (snd d) (snd e)"
  have root: "\<not> inside (child_path r a @ z) r'" if "r \<in> {u, f, c}" "r' \<in> {u, f, c}" for r r' a z
    using not_inside_root[OF assms(2) that, of "''/'' @ a @ z"] by (simp add: child_path_def)
  have "sorted_wrt ?P (concat (map part_dirs pls))"
    using assms(1,3,4)
  proof (induction pls)
    case (Cons pl pls)
    have "?P d e" if "d \<in> set (part_dirs pl)" "e \<in> set (part_dirs pl')" "pl' \<in> set pls" for d e pl'
    proof -
      from Cons.prems that(3) have l: "laid_out u f c pl" "laid_out u f c pl'" "fst pl \<noteq> fst pl'"
        "CHR ''/'' \<notin> set (fst pl)" "CHR ''/'' \<notin> set (fst pl')" by (auto simp: list_all_iff)
      from that(1) obtain r z where d: "r \<in> {u, f, c}" "z = [] \<or> hd z = CHR ''/''" "d = (True, child_path r (fst pl) @ z)"
        by (rule part_dirs_cases[OF l(1)])
      from that(2) obtain r' z' where e: "r' \<in> {u, f, c}" "z' = [] \<or> hd z' = CHR ''/''" "e = (True, child_path r' (fst pl') @ z')"
        by (rule part_dirs_cases[OF l(2)])
      from not_inside_other[OF assms(2) d(1) e(1) l(4,5,3) d(2) e(2)] d(3) e(3) show ?thesis by simp
    qed
    with Cons part_dirs_sorted[OF _ assms(2), of pl] show ?case by (auto simp: sorted_wrt_append)
  qed simp
  moreover have "\<not> inside (snd d) r'" if "d \<in> set (concat (map part_dirs pls))" "r' \<in> {u, f, c}" for d r'
  proof -
    from that(1) obtain pl where pl: "pl \<in> set pls" "d \<in> set (part_dirs pl)" by auto
    with assms(1) have "laid_out u f c pl" by (auto simp: list_all_iff)
    then show ?thesis by (rule part_dirs_cases[OF _ pl(2)]) (use root that(2) in auto)
  qed
  moreover have "\<not> inside r r'" if "r \<in> {u, f, c}" "r' \<in> {u, f, c}" for r r'
    using not_inside_root[OF assms(2) that, of "[]"] by simp
  ultimately show ?thesis using assms(5-7) by (auto simp: all_dirs_def dir_of_def sorted_wrt_append)
qed

text \<open>The three controllers are mounted at different places.\<close>

lemma find_paths_roots:
  assumes "find_paths name fs = Inr p"
  shows "prefix ''/sys/fs/cgroup/unified'' (unified_path p)" "prefix ''/sys/fs/cgroup/freezer'' (freezer_path p)"
    "prefix ''/sys/fs/cgroup/cpuset'' (cpuset_path p)"
proof -
  let ?ok = "\<lambda>p. (unified_path p = [] \<or> prefix ''/sys/fs/cgroup/unified'' (unified_path p)) \<and>
    (freezer_path p = [] \<or> prefix ''/sys/fs/cgroup/freezer'' (freezer_path p)) \<and>
    (cpuset_path p = [] \<or> prefix ''/sys/fs/cgroup/cpuset'' (cpuset_path p))"
  from assms obtain es where f: "foldE (cgroup_entry name fs) es no_paths = Inr p"
    and ne: "unified_path p \<noteq> []" "freezer_path p \<noteq> []" "cpuset_path p \<noteq> []"
    by (auto simp: find_paths_def bindE_Inr_iff split: if_splits)
  have "?ok p"
  proof (rule foldE_invariant[OF f, where P = ?ok])
    show "?ok no_paths" by (simp add: no_paths_def)
    fix e p p'
    assume "?ok p" "cgroup_entry name fs e p = Inr p'"
    then show "?ok p'"
      by (cases e) (auto simp: cgroup_entry_def Let_def bindE_Inr_iff split: if_splits)
  qed
  with ne show "prefix ''/sys/fs/cgroup/unified'' (unified_path p)" "prefix ''/sys/fs/cgroup/freezer'' (freezer_path p)"
    "prefix ''/sys/fs/cgroup/cpuset'' (cpuset_path p)" by blast+
qed

lemma mounts_parallel:
  "''/sys/fs/cgroup/unified'' \<parallel> ''/sys/fs/cgroup/freezer''" "''/sys/fs/cgroup/unified'' \<parallel> ''/sys/fs/cgroup/cpuset''"
  "''/sys/fs/cgroup/freezer'' \<parallel> ''/sys/fs/cgroup/cpuset''"
  by (simp_all add: parallel_def)

lemma prefix_parallel: "prefix a x \<Longrightarrow> prefix b y \<Longrightarrow> a \<parallel> b \<Longrightarrow> x \<parallel> y"
  by (auto simp: prefix_def intro: parallel_append)

lemma toplevel_separate:
  assumes "create_toplevel_cgroups name fs uid ppid s = Inr (True, tls, t)"
  shows "separate {cg_path (tl_unified tls), cg_path (tl_freezer tls), cg_path (tl_cpuset tls)}"
    "cg_path (tl_unified tls) \<noteq> []" "cg_path (tl_freezer tls) \<noteq> []" "cg_path (tl_cpuset tls) \<noteq> []"
proof -
  obtain p where p: "find_paths name fs = Inr p" and eq: "cg_path (tl_unified tls) = unified_path p"
    "cg_path (tl_freezer tls) = freezer_path p" "cg_path (tl_cpuset tls) = cpuset_path p"
  proof (rule create_toplevel_cgroups_Inr[OF assms])
    fix p s0 u a1 s1 f a2 s2 c a3 s3
    assume 0: "find_paths name fs = Inr p" "True = (fst a3 = [] \<and> snd a3 = [])"
        "tls = \<lparr>tl_unified = u, tl_freezer = f, tl_cpuset = c, tl_advice = a3\<rparr>"
      and "setup_cgroup (unified_path p) id (fork_pid s (io_count s)) [chown_line uid (unified_path p),
         ''sudo echo '' @ int_to_dec ppid @ '' > '' @ unified_path p @ ''/cgroup.procs''] (([], []), s0) = Inr (u, a1, s1)"
      and "setup_cgroup (freezer_path p) id (fork_pid s (io_count s)) [chown_line uid (freezer_path p)] (a1, s1) = Inr (f, a2, s2)"
      and "setup_cgroup (cpuset_path p) (initialise_cpuset p) (fork_pid s (io_count s)) [chown_line uid (cpuset_path p)] (a2, s2) = Inr (c, a3, s3)"
    from setup_cgroup_Inr[OF this(4)] setup_cgroup_Inr[OF this(5)] setup_cgroup_Inr[OF this(6) _ initialise_log] 0(2)
    have "cg_path u = unified_path p" "cg_path f = freezer_path p" "cg_path c = cpuset_path p" by auto
    with 0 that show thesis by simp
  qed
  note r = find_paths_roots[OF p]
  have par: "unified_path p \<parallel> freezer_path p" "unified_path p \<parallel> cpuset_path p" "freezer_path p \<parallel> cpuset_path p"
    using prefix_parallel[OF r(1,2) mounts_parallel(1)] prefix_parallel[OF r(1,3) mounts_parallel(2)]
      prefix_parallel[OF r(2,3) mounts_parallel(3)] by blast+
  then show "separate {cg_path (tl_unified tls), cg_path (tl_freezer tls), cg_path (tl_cpuset tls)}"
    unfolding separate_def eq using parallel_commute by blast
  show "cg_path (tl_unified tls) \<noteq> []" "cg_path (tl_freezer tls) \<noteq> []" "cg_path (tl_cpuset tls) \<noteq> []"
    using r by (auto simp: eq)
qed

subsection \<open>Nothing is left behind\<close>

lemma removals_filter: "removals ds = map (\<lambda>d. Rmdir (snd d)) (filter (\<lambda>d. fst d \<and> snd d \<noteq> []) ds)"
  by (induction ds) (auto simp: removal_def)

lemma append_split_left:
  assumes "xs @ ys = l @ r # e" and "r \<notin> set ys"
  obtains e' where "xs = l @ r # e'"
  using assms by (auto simp: append_eq_append_conv2 append_eq_Cons_conv)

text \<open>
  The three facts for a state of a scheduler whose partitions lie below the top-level directories and whose
  directories are all that was made.
\<close>

lemma clean_up_complete:
  assumes roots: "u = cg_path (tl_unified tls)" "f = cg_path (tl_freezer tls)" "c = cg_path (tl_cpuset tls)"
    and sep: "separate {u, f, c}" and lay: "list_all (laid_out u f c) (map part_plan (partitions w))"
    and made: "\<And>ev. ev \<in> set (dir_calls (st_os w)) \<Longrightarrow>
      \<exists>path. ev = Mkdir path \<and> path \<noteq> [] \<and> (True, path) \<in> set (all_dirs tls (map part_plan (partitions w)))"
    and names: "distinct (map part_name (partitions w))" "\<forall>p \<in> set (partitions w). CHR ''/'' \<notin> set (part_name p)"
    and ok: "calls_ok (st_os w)"
  shows "\<exists>t. clean_up tls w = Inr t \<and> (\<forall>path. Mkdir path \<in> set (dir_calls t) \<longrightarrow> Rmdir path \<in> set (dir_calls t)) \<and>
    (\<forall>path. Rmdir path \<in> set (dir_calls t) \<longrightarrow> (True, path) \<in> set (top_dirs tls) \<or> (\<exists>r \<in> {u, f, c}. inside r path)) \<and>
    (\<forall>later path earlier. dir_calls t = later @ Rmdir path # earlier \<longrightarrow>
      (\<forall>p. Mkdir p \<notin> set later) \<and> (\<forall>p. inside path p \<longrightarrow> Rmdir p \<notin> set later))"
proof -
  let ?ds = "all_dirs tls (map part_plan (partitions w))"
  let ?rs = "removals ?ds"
  obtain t where t: "clean_up tls w = Inr t" and dt: "dir_calls t = rev ?rs @ dir_calls (st_os w)"
    using clean_up_dirs[OF ok] unfolding dirs_step_def by blast
  have rs: "ev \<in> set ?rs \<longleftrightarrow> (\<exists>path. ev = Rmdir path \<and> path \<noteq> [] \<and> (True, path) \<in> set ?ds)" for ev
    unfolding removals_filter by force
  have mk: "Rmdir path \<notin> set (dir_calls (st_os w))" for path using made by blast
  have "Rmdir path \<in> set (dir_calls t)" if "Mkdir path \<in> set (dir_calls t)" for path
    using that made[of "Mkdir path"] rs by (auto simp: dt)
  moreover have "(True, path) \<in> set (top_dirs tls) \<or> (\<exists>r \<in> {u, f, c}. inside r path)" if "Rmdir path \<in> set (dir_calls t)" for path
  proof -
    from that mk rs have "(True, path) \<in> set ?ds" by (auto simp: dt)
    then have "(True, path) \<in> set (top_dirs tls) \<or> (\<exists>pl \<in> set (map part_plan (partitions w)). (True, path) \<in> set (part_dirs pl))"
      unfolding all_dirs_def top_dirs_def by auto
    then consider "(True, path) \<in> set (top_dirs tls)" | pl where "pl \<in> set (map part_plan (partitions w))" "(True, path) \<in> set (part_dirs pl)"
      by blast
    then show ?thesis
    proof cases
      case (2 pl)
      with lay have "laid_out u f c pl" unfolding list_all_iff by blast
      then show ?thesis by (rule part_dirs_cases[OF _ 2(2)]) (auto simp: inside_def child_path_def)
    qed simp
  qed
  moreover have "(\<forall>p. Mkdir p \<notin> set later) \<and> (\<forall>p. inside path p \<longrightarrow> Rmdir p \<notin> set later)"
    if "dir_calls t = later @ Rmdir path # earlier" for later path earlier
  proof -
    from that mk obtain e where e: "rev ?rs = later @ Rmdir path # e"
      unfolding dt by (elim append_split_left) auto
    then have rev: "?rs = rev e @ Rmdir path # rev later" by (metis rev_append rev_rev_ident rev.simps(2) append_assoc append_Cons append_Nil)
    have "fst \<circ> part_plan = part_name" by (auto simp: part_plan_def)
    then have "sorted_wrt (\<lambda>d e. \<not> inside (snd d) (snd e)) ?ds"
      using names by (intro all_dirs_sorted[OF lay sep _ _ roots]) (auto simp: part_plan_def)
    then have "sorted_wrt (\<lambda>x y. \<forall>a b. x = Rmdir a \<longrightarrow> y = Rmdir b \<longrightarrow> \<not> inside a b) ?rs"
      unfolding removals_filter sorted_wrt_map by (intro sorted_wrt_filter) (auto elim: sorted_wrt_mono_rel[rotated])
    then have "\<forall>y \<in> set later. \<forall>b. y = Rmdir b \<longrightarrow> \<not> inside path b" unfolding rev by (auto simp: sorted_wrt_append)
    moreover have "Mkdir p \<notin> set later" for p
    proof
      assume "Mkdir p \<in> set later"
      then have "Mkdir p \<in> set ?rs" by (simp add: rev)
      then show False by (simp add: rs)
    qed
    ultimately show ?thesis by blast
  qed
  ultimately show ?thesis using t by blast
qed

end
