(* ===== verification/Demos_Main.thy ===== *)
theory Demos_Main
  imports Config_Examples Clean_Up
begin

text \<open>
  The program (\<open>src/src/main.cpp\<close>): its options, the re-execution through \<open>systemd-run\<close> and \<open>main\<close>, which
  composes the configuration, the cgroups, the power policy and the scheduler. What the program gets from
  its environment (documents, files, allowed CPUs) is a record.
\<close>

subsection \<open>The options\<close>

text \<open>
  \<open>getopt\<close> of the C library with the option string of the program: the options with their arguments, and
  the elements of \<open>argv\<close> that it moves to the front and to the end.
\<close>

definition optstring :: string where
  "optstring = ''c:C:p:g:m:M:t:sdhV''"

fun lookup_option :: "string \<Rightarrow> char \<Rightarrow> bool option" where
  "lookup_option [] c = None"
| "lookup_option (x # xs) c = (if x = c \<and> c \<noteq> CHR '':'' then Some (prefix '':'' xs) else lookup_option xs c)"

fun option_cluster :: "string \<Rightarrow> string list \<Rightarrow> (char \<times> string) list \<times> string list" where
  "option_cluster [] rest = ([], rest)"
| "option_cluster (c # cs) rest =
     (case lookup_option optstring c of
        None \<Rightarrow> (case option_cluster cs rest of (os, r) \<Rightarrow> ((CHR ''?'', []) # os, r))
      | Some False \<Rightarrow> (case option_cluster cs rest of (os, r) \<Rightarrow> ((c, []) # os, r))
      | Some True \<Rightarrow>
          if cs \<noteq> [] then ([(c, cs)], rest)
          else (case rest of [] \<Rightarrow> ([(CHR ''?'', [])], []) | a # rest' \<Rightarrow> ([(c, a)], rest')))"

lemma option_cluster_length: "length (snd (option_cluster cs rest)) \<le> length rest"
  by (induction cs rest rule: option_cluster.induct) (auto split: option.splits bool.splits list.splits prod.splits)

function getopt :: "string list \<Rightarrow> (char \<times> string) list \<times> string list \<times> string list" where
  "getopt [] = ([], [], [])"
| "getopt (a # rest) =
     (if a = ''--'' then ([], [a], rest)
      else if prefix ''-'' a \<and> a \<noteq> ''-''
      then (let (os, r) = option_cluster (tl a) rest; (os', front, back) = getopt r
            in (os @ os', take (Suc (length rest) - length r) (a # rest) @ front, back))
      else (case getopt rest of (os, front, back) \<Rightarrow> (os, front, a # back)))"
  by pat_completeness auto

termination
proof (relation "measure length")
  fix a :: string and rest x xa y
  assume "x = option_cluster (tl a) rest" and "(xa, y) = x"
  then show "(y, a # rest) \<in> measure length" using option_cluster_length[of "tl a" rest] by (auto simp: less_Suc_eq_le dest: sym)
qed auto

declare getopt.simps(2) [simp del]

record main_options =
  config_file :: string
  config_str :: string
  power_policy_name :: string
  demos_cg_name :: string
  window_message :: string
  mf_message :: string
  scheduler_timeout :: "milliseconds option"
  systemd_run :: bool
  dump_config :: bool

definition default_options :: main_options where
  "default_options = \<lparr>config_file = [], config_str = [], power_policy_name = [], demos_cg_name = ''demos'',
     window_message = [], mf_message = [], scheduler_timeout = None, systemd_run = False, dump_config = False\<rparr>"

text \<open>\<open>std::stoll\<close>; \<open>None\<close> is an exception.\<close>

definition stoll :: "string \<Rightarrow> int option" where
  "stoll s = (case scan_int s of None \<Rightarrow> None
     | Some (i, _) \<Rightarrow> if - (2 ^ 63) \<le> i \<and> i < 2 ^ 63 then Some i else None)"

text \<open>
  How \<open>main\<close> ends: with an exit status, replaced by another program, aborted by an exception that nobody
  catches, gone wrong in a way the language does not define, or in the event loop of a scheduler. When the loop
  ends, \<open>main\<close> returns 0 after \<open>clean_up\<close>.
\<close>

datatype main_outcome =
    Exit nat
  | Execvp "string list"
  | Terminated
  | Crashed error
  | Running scheduler "milliseconds option" cpu_set toplevel

fun main_option :: "char \<times> string \<Rightarrow> main_options \<Rightarrow> main_outcome + main_options" where
  "main_option (c, optarg) opts =
     (if c = CHR ''c'' then Inr (opts\<lparr>config_file := optarg\<rparr>)
      else if c = CHR ''C'' then Inr (opts\<lparr>config_str := optarg\<rparr>)
      else if c = CHR ''p'' then Inr (opts\<lparr>power_policy_name := optarg\<rparr>)
      else if c = CHR ''g'' then Inr (opts\<lparr>demos_cg_name := optarg\<rparr>)
      else if c = CHR ''m'' then Inr (opts\<lparr>window_message := optarg\<rparr>)
      else if c = CHR ''M'' then Inr (opts\<lparr>mf_message := optarg\<rparr>)
      else if c = CHR ''t'' then
        (case stoll optarg of None \<Rightarrow> Inl Terminated | Some i \<Rightarrow> Inr (opts\<lparr>scheduler_timeout := Some i\<rparr>))
      else if c = CHR ''s'' then Inr (opts\<lparr>systemd_run := True\<rparr>)
      else if c = CHR ''d'' then Inr (opts\<lparr>dump_config := True\<rparr>)
      else if c = CHR ''V'' then Inl (Exit 0)
      else if c = CHR ''h'' then Inl (Exit 0)
      else Inl (Exit 1))"

definition parse_options :: "string list \<Rightarrow> main_outcome + main_options" where
  "parse_options args = foldE main_option (fst (getopt (tl args))) default_options"

text \<open>\<open>argv\<close> as \<open>getopt\<close> leaves it, and the command of the re-execution.\<close>

definition permuted :: "string list \<Rightarrow> string list" where
  "permuted args = (case getopt (tl args) of (_, front, back) \<Rightarrow> hd args # front @ back)"

definition reexec_args :: "string list \<Rightarrow> string list" where
  "reexec_args args =
     [''systemd-run'', ''--scope'', ''-p'', ''Delegate=yes'', ''--user''] @
     map snd (filter (\<lambda>(i, a). i = 0 \<or> a \<noteq> ''-s'') (enumerate 0 args))"

subsection \<open>\<open>main\<close>\<close>

record main_env =
  yaml_lib :: yaml_cpp
  yaml_file :: "string \<Rightarrow> load_outcome"
  yaml_text :: "string \<Rightarrow> load_outcome"
  regular_file :: "string \<Rightarrow> bool"
  parent_directory :: "string \<Rightarrow> string"
  file_text :: "string \<Rightarrow> string option"
  cpufreq_files :: pm_sysfs
  env_uid :: int
  env_ppid :: int
  allowed_cpus :: cpu_set

definition new_config :: config_obj where
  "new_config = \<lparr>config = Null, config_is_regular_file = False, config_file_path = None, anonymous_partition_counter = 0\<rparr>"

text \<open>Loading the configuration and converting it to its normal form.\<close>

definition main_config :: "main_env \<Rightarrow> main_options \<Rightarrow> (config_obj \<times> norm_config) result" where
  "main_config E opts =
     bindE (if config_file opts \<noteq> []
            then load_from_file (yaml_file E (config_file opts)) (regular_file E (config_file opts)) (config_file opts) new_config
            else load_from_string (yaml_text E (config_str opts)) new_config) (\<lambda>obj.
     bindE (normalize (yaml_lib E) obj) (\<lambda>nc. Inr (obj, nc)))"

definition cgroup_config_of :: "toplevel \<Rightarrow> power_policy \<Rightarrow> cgroup_config" where
  "cgroup_config_of tls pp = \<lparr>unified_cg = cg_path (tl_unified tls), cpuset_cg = cg_path (tl_cpuset tls),
     freezer_cg = cg_path (tl_freezer tls), cfg_policy = pp\<rparr>"

text \<open>The body of the \<open>try\<close> block up to the event loop.\<close>

definition main_body :: "main_env \<Rightarrow> main_options \<Rightarrow> os \<Rightarrow> main_outcome result" where
  "main_body E opts s =
     (if config_file opts = [] \<and> config_str opts = [] then Inr (Exit 1)
      else
        bindE (main_config E opts) (\<lambda>(obj, nc).
        if dump_config opts then Inr (Exit 0)
        else
        bindE (create_toplevel_cgroups (demos_cg_name opts) (file_text E) (env_uid E) (env_ppid E) s) (\<lambda>(ok, tls, s).
        if \<not> ok then Inr (Exit 1)
        else
        bindE (setup_power_policy (power_policy_name opts) (cpufreq_files E) s) (\<lambda>(pp, s).
        bindE (create_scheduler_objects (cgroup_config_of tls pp) (allowed_cpus E) (parent_directory E) obj nc s) (\<lambda>(demos_cpu, st).
        if partitions st = [] \<or> windows st = [] then Inl (Runtime_error ''Need at least one partition in one window'')
        else
        bindE (scheduler_new (partitions st) (windows st) (window_message opts) (mf_message opts) (st_policy st) (st_os st)) (\<lambda>sched.
        bindE (sched_setup sched) (\<lambda>sched.
        Inr (Running sched (scheduler_timeout opts) demos_cpu tls))))))))"

text \<open>The handlers of the \<open>try\<close> block catch every exception.\<close>

fun caught :: "main_outcome result \<Rightarrow> main_outcome" where
  "caught (Inr out) = out"
| "caught (Inl (Undefined_behaviour what)) = Crashed (Undefined_behaviour what)"
| "caught (Inl Diverges) = Crashed Diverges"
| "caught (Inl Out_of_fuel) = Crashed Out_of_fuel"
| "caught (Inl _) = Exit 1"

definition demos_main :: "main_env \<Rightarrow> string list \<Rightarrow> os \<Rightarrow> main_outcome" where
  "demos_main E args s =
     (case parse_options args of
        Inl out \<Rightarrow> out
      | Inr opts \<Rightarrow>
          if \<not> dump_config opts \<and> systemd_run opts
          then (case io_outcome s (io_count s) of None \<Rightarrow> Execvp (reexec_args (permuted args)) | Some _ \<Rightarrow> Terminated)
          else caught (main_body E opts s))"

subsection \<open>Reading the options\<close>

text \<open>Options written as separate words: each letter with its own dash, its argument in the next word.\<close>

definition option_words :: "char \<times> string \<Rightarrow> string list" where
  "option_words = (\<lambda>(c, a). [CHR ''-'', c] # (if lookup_option optstring c = Some True then [a] else []))"

definition option_ok :: "char \<times> string \<Rightarrow> bool" where
  "option_ok = (\<lambda>(c, a). lookup_option optstring c = Some True \<or> lookup_option optstring c = Some False \<and> a = [])"

lemma no_dash_option: "lookup_option optstring (CHR ''-'') = None"
  by (simp add: optstring_def)

lemma getopt_words: "list_all option_ok opts \<Longrightarrow> getopt (concat (map option_words opts)) = (opts, concat (map option_words opts), [])"
proof (induction opts)
  case (Cons x opts)
  obtain c a where x: "x = (c, a)" by (cases x)
  let ?w = "concat (map option_words opts)"
  have IH: "getopt ?w = (opts, ?w, [])" using Cons by simp
  have "c \<noteq> CHR ''-''" using Cons.prems no_dash_option by (auto simp: x option_ok_def)
  moreover from Cons.prems have "lookup_option optstring c = Some True \<or> lookup_option optstring c = Some False \<and> a = []"
    by (simp add: x option_ok_def)
  ultimately show ?case using IH by (auto simp: x option_words_def getopt.simps(2))
qed simp

lemma filter_enumerate:
  "map snd (filter (\<lambda>(i, a). i = 0 \<or> P a) (enumerate 0 (x # xs))) = x # filter P xs"
proof -
  have "map snd (filter (\<lambda>(i, a). i = 0 \<or> P a) (enumerate (Suc n) xs)) = filter P xs" for n
    by (induction xs arbitrary: n) auto
  then show ?thesis by simp
qed

lemma s_takes_no_argument: "lookup_option optstring (CHR ''s'') = Some False"
  by (simp add: optstring_def)

lemma filter_option_words:
  "\<forall>(c, a) \<in> set opts. a \<noteq> ''-s'' \<Longrightarrow>
     filter (\<lambda>a. a \<noteq> ''-s'') (concat (map option_words opts)) = concat (map option_words (filter (\<lambda>x. fst x \<noteq> CHR ''s'') opts))"
proof (induction opts)
  case (Cons x opts)
  obtain c a where x: "x = (c, a)" by (cases x)
  have "filter (\<lambda>a. a \<noteq> ''-s'') (option_words x) = (if c = CHR ''s'' then [] else option_words x)"
    using Cons.prems s_takes_no_argument by (simp add: x option_words_def)
  with Cons show ?case by (simp add: x)
qed simp

lemma main_option_no_s:
  "fst x \<noteq> CHR ''s'' \<Longrightarrow> main_option x (opts\<lparr>systemd_run := b\<rparr>) = map_sum id (\<lambda>opts. opts\<lparr>systemd_run := b\<rparr>) (main_option x opts)"
  by (cases x) (auto split: option.splits)

lemma demos_main_reexec:
  assumes "case parse_options args of Inl _ \<Rightarrow> False | Inr opts \<Rightarrow> systemd_run opts \<and> \<not> dump_config opts"
    and "reexec_args (permuted args) = cmd"
  shows "demos_main E args (quiet_os b) = Execvp cmd"
  using assms by (auto simp: demos_main_def quiet_os_def split: sum.splits)

lemma fold_without_s:
  "foldE main_option (filter (\<lambda>x. fst x \<noteq> CHR ''s'') xs) (opts\<lparr>systemd_run := False\<rparr>) =
     map_sum id (\<lambda>opts. opts\<lparr>systemd_run := False\<rparr>) (foldE main_option xs opts)"
proof (induction xs arbitrary: opts)
  case (Cons x xs)
  show ?case
  proof (cases "fst x = CHR ''s''")
    case True
    then have "main_option x opts = Inr (opts\<lparr>systemd_run := True\<rparr>)" by (cases x) simp
    with True Cons[of "opts\<lparr>systemd_run := True\<rparr>"] show ?thesis by simp
  next
    case False
    with Cons main_option_no_s[OF False, of False opts] show ?thesis by (cases "main_option x opts") simp_all
  qed
qed simp

text \<open>Only the re-execution ends with another program.\<close>

lemma main_option_Inl: "main_option x opts = Inl out \<Longrightarrow> out \<in> {Exit 0, Exit 1, Terminated}"
  by (cases x) (auto split: option.splits if_splits)

lemma parse_options_Inl: "parse_options args = Inl out \<Longrightarrow> out \<in> {Exit 0, Exit 1, Terminated}"
proof -
  have "foldE main_option xs opts = Inl out \<Longrightarrow> out \<in> {Exit 0, Exit 1, Terminated}" for xs opts
  proof (induction xs arbitrary: opts)
    case (Cons x xs)
    then show ?case using main_option_Inl[of x opts out] by (cases "main_option x opts") auto
  qed simp
  then show "parse_options args = Inl out \<Longrightarrow> out \<in> {Exit 0, Exit 1, Terminated}" by (simp add: parse_options_def)
qed

lemma caught_Inr: "caught r = Execvp cmd \<Longrightarrow> r = Inr (Execvp cmd)" "caught r = Running w tmo cpus tls \<Longrightarrow> r = Inr (Running w tmo cpus tls)"
  by (cases r rule: caught.cases; auto)+

lemma main_body_no_exec: "main_body E opts s \<noteq> Inr (Execvp cmd)"
  unfolding main_body_def by (auto simp: bindE_Inr_iff split: if_splits prod.splits)

lemma demos_main_exec:
  assumes "demos_main E args s = Execvp cmd"
  obtains opts where "parse_options args = Inr opts" "systemd_run opts" "cmd = reexec_args (permuted args)"
proof (cases "parse_options args")
  case (Inl out)
  with assms parse_options_Inl[OF Inl] show ?thesis by (simp add: demos_main_def)
next
  case (Inr opts)
  with assms main_body_no_exec[of E opts s cmd] show ?thesis
    by (intro that[of opts]) (auto simp: demos_main_def split: if_splits option.splits dest: caught_Inr)
qed

text \<open>
  C19. The re-execution, for a command line in which every option is a word of its own, with its argument in the next
  word, and no argument is \<open>-s\<close>: the command that is executed runs the program with the same options but \<open>-s\<close>. It reads
  them to the same values, and does not re-execute again. (Where \<open>-s\<close> shares its dash with another option, see
  \<open>reexec_repeats\<close>.)
\<close>

theorem reexec_keeps_options:
  assumes "args = prog # concat (map option_words opts)" and "list_all option_ok opts" and "\<forall>(c, a) \<in> set opts. a \<noteq> ''-s''"
    and "demos_main E args s = Execvp cmd"
  shows "\<exists>args'. cmd = [''systemd-run'', ''--scope'', ''-p'', ''Delegate=yes'', ''--user''] @ args' \<and>
    parse_options args' = map_sum id (\<lambda>opts. opts\<lparr>systemd_run := False\<rparr>) (parse_options args) \<and>
    (\<forall>E s cmd. demos_main E args' s \<noteq> Execvp cmd)"
proof -
  let ?ws = "concat (map option_words opts)"
  let ?opts = "filter (\<lambda>x. fst x \<noteq> CHR ''s'') opts"
  let ?args = "prog # concat (map option_words ?opts)"
  have g: "getopt ?ws = (opts, ?ws, [])" "getopt (concat (map option_words ?opts)) = (?opts, concat (map option_words ?opts), [])"
    using assms(2) by (auto intro!: getopt_words simp: list_all_iff)
  have "permuted args = args" by (simp add: permuted_def assms(1) g)
  with demos_main_exec[OF assms(4)] have "cmd = reexec_args args" by metis
  then have cmd: "cmd = [''systemd-run'', ''--scope'', ''-p'', ''Delegate=yes'', ''--user''] @ ?args"
    by (simp add: reexec_args_def assms(1) filter_enumerate filter_option_words[OF assms(3)] del: enumerate_simps)
  have p: "parse_options ?args = map_sum id (\<lambda>opts. opts\<lparr>systemd_run := False\<rparr>) (parse_options args)"
    using fold_without_s[of opts default_options] g by (simp add: parse_options_def assms(1) default_options_def)
  have "demos_main E ?args s \<noteq> Execvp cmd" for E s cmd
  proof
    assume "demos_main E ?args s = Execvp cmd"
    then obtain opts' where "parse_options ?args = Inr opts'" "systemd_run opts'" by (rule demos_main_exec)
    with p show False by (cases "parse_options args") auto
  qed
  with cmd p show ?thesis by blast
qed

subsection \<open>The whole program\<close>

lemma main_body_running:
  assumes "main_body E opts s = Inr (Running w tmo cpus tls)"
  obtains obj nc pp s1 s2 dc st w' where "main_config E opts = Inr (obj, nc)"
    and "create_toplevel_cgroups (demos_cg_name opts) (file_text E) (env_uid E) (env_ppid E) s = Inr (True, tls, s1)"
    and "setup_power_policy (power_policy_name opts) (cpufreq_files E) s1 = Inr (pp, s2)"
    and "create_scheduler_objects (cgroup_config_of tls pp) (allowed_cpus E) (parent_directory E) obj nc s2 = Inr (dc, st)"
    and "partitions st \<noteq> []" "windows st \<noteq> []"
    and "scheduler_new (partitions st) (windows st) (window_message opts) (mf_message opts) (st_policy st) (st_os st) = Inr w'"
    and "sched_setup w' = Inr w" "tmo = scheduler_timeout opts" "cpus = dc"
  using assms unfolding main_body_def
  by (auto simp: bindE_Inr_iff split: if_splits prod.splits)

lemma demos_main_running:
  assumes "demos_main E args s = Running w tmo cpus tls"
  obtains opts where "parse_options args = Inr opts" "main_body E opts s = Inr (Running w tmo cpus tls)"
proof (cases "parse_options args")
  case (Inl out)
  with assms parse_options_Inl[OF Inl] show ?thesis by (simp add: demos_main_def)
next
  case (Inr opts)
  with assms show ?thesis
    by (intro that[of opts]) (auto simp: demos_main_def split: if_splits option.splits dest: caught_Inr)
qed

text \<open>How an object implements its definition depends only on what a run never changes.\<close>

lemma partition_of_plan: "part_plan p' = part_plan p \<Longrightarrow> partition_of wd nq p' = partition_of wd nq p"
proof -
  assume eq: "part_plan p' = part_plan p"
  define R :: "norm_process \<Rightarrow> process_plan \<Rightarrow> bool" where "R = (\<lambda>np (a, b, lo, hi, ini, rf, d, _). np_cmd np = Some a \<and> np_budget np = Some b \<and>
      np_jitter np = Some (hi - lo :: int) \<and> np_init np = Some ini \<and> requested_freq (np_frequency np) = Inr rf \<and> d = wd)"
  have q: "process_of wd = (\<lambda>np q. R np (proc_plan q))"
    by (intro ext) (simp add: process_of_def proc_plan_def R_def)
  have "list_all2 (process_of wd) nps qs = list_all2 R nps (map proc_plan qs)" for nps qs
    by (simp add: list.rel_map q)
  with eq show ?thesis by (simp add: partition_of_def part_plan_def)
qed

lemma window_of_plan:
  assumes "map part_name ps' = map part_name ps" and "windows_plan ws' = windows_plan ws"
  shows "list_all2 (window_of allowed ps') nws ws' = list_all2 (window_of allowed ps) nws ws"
proof -
  have len: "length ps' = length ps" using assms(1) by (metis length_map)
  have nth: "part_name (ps' ! j) = part_name (ps ! j)" if "j < length ps" for j
    using assms(1) that len by (metis nth_map)
  have f: "first_named ps' n r = first_named ps n r" for n r
    using len nth by (auto simp: first_named_def split: option.splits)
  define R where "R = (\<lambda>ns (sc, be, cpus, rf). first_named ps (ns_sc ns) sc \<and> first_named ps (ns_be ns) be \<and>
     bindE (parsed_cpus allowed ns) (slice_cpus allowed) = Inr cpus \<and> requested_freq (ns_frequency ns) = Inr rf)"
  have s: "slice_of allowed ps' = (\<lambda>ns sl. R ns (slice_conf sl))" "slice_of allowed ps = (\<lambda>ns sl. R ns (slice_conf sl))"
    by (intro ext, simp add: slice_of_def R_def slice_conf_def f)+
  have w: "list_all2 (window_of allowed qs) nws xs =
      list_all2 (\<lambda>nw (len, sls). len = nw_length nw \<and> list_all2 R (win_slices nw) sls) nws (windows_plan xs)"
    if "slice_of allowed qs = (\<lambda>ns sl. R ns (slice_conf sl))" for qs xs
    by (simp add: windows_plan_def window_of_def[abs_def] list.rel_map that)
  show ?thesis using w[OF s(1)] w[OF s(2)] assms(2) by simp
qed

lemma main_objects:
  assumes "demos_main E args s = Running w0 tmo cpus tls" and "parse_options args = Inr opts" and "main_config E opts = Inr (obj, nc)"
  obtains parts wins pp s1 w' where
    "list_all2 (partition_of (if nc_set_cwd nc then map_option (parent_directory E) (config_file_path obj) else None)) (nc_partitions nc) parts"
    and "list_all2 (window_of (allowed_cpus E) parts) (nc_windows nc) wins"
    and "parse_cpu_set (nc_demos_cpu nc) (allowed_cpus E) = Inr cpus"
    and "scheduler_new parts wins (window_message opts) (mf_message opts) pp s1 = Inr w'" and "sched_setup w' = Inr w0"
    and "single_use nc \<Longrightarrow> configured parts wins"
proof -
  from assms(1) obtain opts' where "parse_options args = Inr opts'" and b: "main_body E opts' s = Inr (Running w0 tmo cpus tls)"
    by (rule demos_main_running)
  with assms(2) have "opts' = opts" by simp
  from main_body_running[OF b] obtain obj' nc' pp s2 dc st w' where c: "main_config E opts = Inr (obj', nc')"
    and cr: "create_scheduler_objects (cgroup_config_of tls pp) (allowed_cpus E) (parent_directory E) obj' nc' s2 = Inr (dc, st)"
    and ne: "partitions st \<noteq> []" "windows st \<noteq> []" and cpus: "cpus = dc"
    and new: "scheduler_new (partitions st) (windows st) (window_message opts) (mf_message opts) (st_policy st) (st_os st) = Inr w'"
    and su: "sched_setup w' = Inr w0"
    unfolding \<open>opts' = opts\<close> by metis
  from c assms(3) have "obj' = obj" "nc' = nc" by simp_all
  note cr = cr[unfolded this]
  have n: "normalize (yaml_lib E) obj = Inr nc" using assms(3) by (auto simp: main_config_def bindE_Inr_iff)
  note o = objects_of_config[OF n cr]
  have "configured (partitions st) (windows st)" if "single_use nc"
    by (rule created_objects_configured[OF n cr that]) (use ne o in auto)
  with o cpus that[OF _ _ _ new su] show ?thesis by blast
qed

lemma main_keeps_objects:
  assumes "demos_main E args s = Running w0 tmo cpus tls" and "parse_options args = Inr opts" and "main_config E opts = Inr (obj, nc)"
    and "startup_fn (set_timeout tmo w0) = Inr w1" and "sched_run w1 evs w2"
  shows "list_all2 (partition_of (if nc_set_cwd nc then map_option (parent_directory E) (config_file_path obj) else None))
      (nc_partitions nc) (partitions w2) \<and>
    list_all2 (window_of (allowed_cpus E) (partitions w2)) (nc_windows nc) (windows w2) \<and>
    parse_cpu_set (nc_demos_cpu nc) (allowed_cpus E) = Inr cpus"
proof -
  let ?wd = "if nc_set_cwd nc then map_option (parent_directory E) (config_file_path obj) else None"
  obtain parts wins pp s1 w' where p: "list_all2 (partition_of ?wd) (nc_partitions nc) parts"
    and w: "list_all2 (window_of (allowed_cpus E) parts) (nc_windows nc) wins"
    and c: "parse_cpu_set (nc_demos_cpu nc) (allowed_cpus E) = Inr cpus"
    and new: "scheduler_new parts wins (window_message opts) (mf_message opts) pp s1 = Inr w'" and su: "sched_setup w' = Inr w0"
    by (rule main_objects[OF assms(1-3)])
  note pl = reached_plan[OF new su assms(4,5)]
  have names: "map part_name (partitions w2) = map part_name parts"
    using arg_cong[OF pl(1), of "map fst"] by (simp add: comp_def part_plan_def)
  have len: "length (partitions w2) = length parts" using pl(1) by (metis length_map)
  have "part_plan (partitions w2 ! i) = part_plan (parts ! i)" if "i < length parts" for i
    using arg_cong[OF pl(1), of "\<lambda>xs. xs ! i"] that len by simp
  then have same: "partition_of ?wd nq (partitions w2 ! i) = partition_of ?wd nq (parts ! i)" if "i < length parts" for i nq
    using that by (intro partition_of_plan) blast
  have "list_all2 (partition_of ?wd) (nc_partitions nc) (partitions w2)"
    using p unfolding list_all2_conv_all_nth len by (metis same)
  with w c show ?thesis unfolding window_of_plan[OF names pl(2)] by blast
qed

text \<open>
  C2. In every state of every run of the program, whatever callbacks the event loop makes in whatever order, the
  scheduled objects still are those that the configuration given on its command line defines, and the program runs
  on the CPUs the configuration gives it.
\<close>

theorem main_runs_configuration:
  assumes "demos_main E args s = Running w0 tmo cpus tls" and "parse_options args = Inr opts" and "main_config E opts = Inr (obj, nc)"
    and "startup_fn (set_timeout tmo w0) = Inr w1" and "sched_run w1 evs w2"
  shows "list_all2 (partition_of (if nc_set_cwd nc then map_option (parent_directory E) (config_file_path obj) else None))
      (nc_partitions nc) (partitions w2) \<and>
    list_all2 (window_of (allowed_cpus E) (partitions w2)) (nc_windows nc) (windows w2) \<and>
    parse_cpu_set (nc_demos_cpu nc) (allowed_cpus E) = Inr cpus"
  by (rule main_keeps_objects[OF assms])

text \<open>While the windows are scheduled: \<open>main_isolates\<close> below, with its abbreviations as premises.\<close>

lemma main_isolated:
  assumes "demos_main E args s = Running w0 tmo cpus tls" and "parse_options args = Inr opts" and "main_config E opts = Inr (obj, nc)"
    and "single_use nc" and "startup_fn (set_timeout tmo w0) = Inr w1" and "timely_run w1 evs w2" and "tfd_active (mf_timer w2)"
    and "k < length (partitions w2)" and "i \<in> thawed (partitions w2 ! k)"
  defines "win \<equiv> nc_windows nc ! current_win w2" and "part \<equiv> nc_partitions nc ! k"
  shows "thawed (partitions w2 ! k) = {i} \<and> i < length (nq_processes part) \<and>
    np_cmd (nq_processes part ! i) = Some (argv (processes (partitions w2 ! k) ! i)) \<and>
    current_win w2 < length (nc_windows nc) \<and>
    (\<exists>!si. si < length (win_slices win) \<and> nq_name part \<in> set (slice_refs (win_slices win ! si)) \<and>
      running_partition (the_slice (current_win w2) si w2) = Some k \<and> running_process (the_slice (current_win w2) si w2) = Some i) \<and>
    (\<forall>wi si. wi \<noteq> current_win w2 \<longrightarrow> valid_slice wi si w2 \<longrightarrow> running_process (the_slice wi si w2) = None)"
proof -
  let ?wd = "if nc_set_cwd nc then map_option (parent_directory E) (config_file_path obj) else None"
  obtain parts wins pp s1 w' where new: "scheduler_new parts wins (window_message opts) (mf_message opts) pp s1 = Inr w'"
    and su: "sched_setup w' = Inr w0" and conf: "configured parts wins"
    by (rule main_objects[OF assms(1-3)]) (use assms(4) in blast)
  from main_keeps_objects[OF assms(1-3,5) timely_run_run[OF assms(6)]]
  have p: "list_all2 (partition_of ?wd) (nc_partitions nc) (partitions w2)"
    and w: "list_all2 (window_of (allowed_cpus E) (partitions w2)) (nc_windows nc) (windows w2)" by blast+
  have "phase_ok w2" using reached_ok[OF new su conf assms(5,6)] by blast
  with assms(7) have fr: "frame_running w2"
    by (auto simp: phase_ok_def init_phase_def phase_init_def calm_def phase_shutdown_def phase_running_def)
  from frame_running_isolates(1)[OF fr, rule_format, OF assms(8,9)] obtain si where
    one: "thawed (partitions w2 ! k) = {i}" and si: "valid_slice (current_win w2) si w2"
    and r: "k \<in> parts_of (the_slice (current_win w2) si w2)"
      "running_partition (the_slice (current_win w2) si w2) = Some k" "running_process (the_slice (current_win w2) si w2) = Some i"
    by blast
  have cw: "current_win w2 < length (nc_windows nc)" using w si by (simp add: valid_slice_def list_all2_lengthD)
  have "window_of (allowed_cpus E) (partitions w2) win (windows w2 ! current_win w2)"
    using w cw by (simp add: win_def list_all2_conv_all_nth)
  then have sl: "length (win_slices win) = length (slices (windows w2 ! current_win w2))"
    "\<And>j. j < length (win_slices win) \<Longrightarrow> slice_of (allowed_cpus E) (partitions w2) (win_slices win ! j) (the_slice (current_win w2) j w2)"
    by (auto simp: window_of_def list_all2_conv_all_nth the_slice_def)
  have lt: "si < length (win_slices win)" using si sl(1) by (simp add: valid_slice_def)
  have pk: "partition_of ?wd part (partitions w2 ! k)" using p assms(8) by (simp add: part_def list_all2_conv_all_nth)
  then have name: "part_name (partitions w2 ! k) = nq_name part" by (simp add: partition_of_def)
  have ref: "nq_name part \<in> set (slice_refs (win_slices win ! si))" using slice_of_parts[OF sl(2)[OF lt] r(1)] name by simp
  have "j = si" if "j < length (win_slices win)" "nq_name part \<in> set (slice_refs (win_slices win ! j))" for j
    using assms(4) cw lt ref that unfolding single_use_def win_def list_all_length by blast
  with lt ref r(2,3) have ex: "\<exists>!si. si < length (win_slices win) \<and> nq_name part \<in> set (slice_refs (win_slices win ! si)) \<and>
      running_partition (the_slice (current_win w2) si w2) = Some k \<and> running_process (the_slice (current_win w2) si w2) = Some i"
    by blast
  have other: "\<forall>wi si. wi \<noteq> current_win w2 \<longrightarrow> valid_slice wi si w2 \<longrightarrow> running_process (the_slice wi si w2) = None"
    using frame_running_isolates(2)[OF fr] by blast
  have "i < length (processes (partitions w2 ! k))" using assms(9) by (auto simp: thawed_def)
  with pk have "i < length (nq_processes part)" "np_cmd (nq_processes part ! i) = Some (argv (processes (partitions w2 ! k) ! i))"
    by (auto simp: partition_of_def process_of_def list_all2_conv_all_nth)
  with one cw ex other show ?thesis by blast
qed

text \<open>
  C1. Isolation, for a configuration in which no two slices of a window name the same partition (\<open>single_use\<close>, which the
  validation does not check), in every run in which, during the initialisation, the initialising processes report
  completion or exit while they are thawed and no stop signal arrives (\<open>timely_run\<close>). While the windows are
  scheduled, a process that is not frozen is the only one of its partition that runs, and it is one that the
  configuration lists there. It is executed by exactly one slice of the current window of the configuration, which names
  its partition, and the slices of all other windows execute nothing.
\<close>

theorem main_isolates:
  assumes "demos_main E args s = Running w0 tmo cpus tls" and "parse_options args = Inr opts" and "main_config E opts = Inr (obj, nc)"
    and "single_use nc" and "startup_fn (set_timeout tmo w0) = Inr w1" and "timely_run w1 evs w2" and "tfd_active (mf_timer w2)"
    and "k < length (partitions w2)" and "i \<in> thawed (partitions w2 ! k)"
  shows "let win = nc_windows nc ! current_win w2; part = nc_partitions nc ! k in
    thawed (partitions w2 ! k) = {i} \<and> i < length (nq_processes part) \<and>
    np_cmd (nq_processes part ! i) = Some (argv (processes (partitions w2 ! k) ! i)) \<and>
    current_win w2 < length (nc_windows nc) \<and>
    (\<exists>!si. si < length (win_slices win) \<and> nq_name part \<in> set (slice_refs (win_slices win ! si)) \<and>
      running_partition (the_slice (current_win w2) si w2) = Some k \<and> running_process (the_slice (current_win w2) si w2) = Some i) \<and>
    (\<forall>wi si. wi \<noteq> current_win w2 \<longrightarrow> valid_slice wi si w2 \<longrightarrow> running_process (the_slice wi si w2) = None)"
  unfolding Let_def by (rule main_isolated[OF assms])

text \<open>The directories: what the constructors made, and what is there in every state of a run.\<close>

lemma main_directories:
  assumes "demos_main E args s = Running w0 tmo cpus tls" and "dir_calls s = []"
    and "startup_fn (set_timeout tmo w0) = Inr w1" and "sched_run w1 evs w2"
  defines "u \<equiv> cg_path (tl_unified tls)" and "f \<equiv> cg_path (tl_freezer tls)" and "c \<equiv> cg_path (tl_cpuset tls)"
  shows "separate {u, f, c}" "list_all (laid_out u f c) (map part_plan (partitions w2))"
    "ev \<in> set (dir_calls (st_os w2)) \<Longrightarrow>
      \<exists>path. ev = Mkdir path \<and> path \<noteq> [] \<and> (True, path) \<in> set (all_dirs tls (map part_plan (partitions w2)))"
    "(True, path) \<in> set (top_dirs tls) \<Longrightarrow> Mkdir path \<in> set (dir_calls (st_os w2))"
    "io_outcome (st_os w2) = io_outcome s"
proof -
  from assms(1) obtain opts where "parse_options args = Inr opts" "main_body E opts s = Inr (Running w0 tmo cpus tls)"
    by (rule demos_main_running)
  from main_body_running[OF this(2)] obtain obj nc pp s1 s2 dc st w' where
    tl: "create_toplevel_cgroups (demos_cg_name opts) (file_text E) (env_uid E) (env_ppid E) s = Inr (True, tls, s1)"
    and pp: "setup_power_policy (power_policy_name opts) (cpufreq_files E) s1 = Inr (pp, s2)"
    and cr: "create_scheduler_objects (cgroup_config_of tls pp) (allowed_cpus E) (parent_directory E) obj nc s2 = Inr (dc, st)"
    and new: "scheduler_new (partitions st) (windows st) (window_message opts) (mf_message opts) (st_policy st) (st_os st) = Inr w'"
    and su: "sched_setup w' = Inr w0" by metis
  let ?ds = "concat (map part_dirs (map part_plan (partitions st)))"
  note pl = reached_plan(1,2)[OF new su assms(3,4)] reached_plan(3)[OF new su assms(3,4), unfolded os_const_def prod.inject]
    and t = toplevel_create[OF tl] and sep = toplevel_separate[OF tl]
  from objects_create[OF cr] have lay: "list_all (laid_out u f c) (map part_plan (partitions st))" and made: "creates s2 ?ds (st_os st)"
    by (simp_all add: cgroup_config_of_def u_def f_def c_def)
  show "separate {u, f, c}" using sep by (simp add: u_def f_def c_def)
  show "list_all (laid_out u f c) (map part_plan (partitions w2))" using lay by (simp only: pl)
  have "creates s (top_dirs tls) s2" by (rule creates_os[OF setup_power_policy_extends[OF pp]]) (use t in blast)
  note made' = creates_trans[OF this made]
  then show "io_outcome (st_os w2) = io_outcome s" by (simp add: creates_def pl)
  from made' assms(2) have all: "set (dir_calls (st_os w2)) \<subseteq> {Mkdir path |path. (True, path) \<in> set (top_dirs tls @ ?ds)}"
    by (auto simp: creates_def pl)
  have top: "path \<noteq> []" if "(True, path) \<in> set (top_dirs tls)" for path
    using that sep by (auto simp: top_dirs_def dir_of_def)
  have part: "path \<noteq> []" if "(True, path) \<in> set ?ds" for path
  proof -
    from that obtain p where "p \<in> set (partitions st)" "(True, path) \<in> set (part_dirs (part_plan p))" by auto
    moreover from lay this(1) have "laid_out u f c (part_plan p)" by (simp add: list_all_iff)
    ultimately show ?thesis by (elim part_dirs_cases) (auto simp: child_path_def)
  qed
  have same: "set (all_dirs tls (map part_plan (partitions w2))) = set (top_dirs tls @ ?ds)"
    by (auto simp: all_dirs_def top_dirs_def pl)
  show "\<exists>path. ev = Mkdir path \<and> path \<noteq> [] \<and> (True, path) \<in> set (all_dirs tls (map part_plan (partitions w2)))"
    if "ev \<in> set (dir_calls (st_os w2))"
    unfolding same using that all top part by fastforce
  have "set (dir_calls s1) \<subseteq> set (dir_calls (st_os w2))"
    using made setup_power_policy_extends[OF pp] by (auto simp: creates_def pl os_extends_dirs)
  then show "Mkdir path \<in> set (dir_calls (st_os w2))" if "(True, path) \<in> set (top_dirs tls)"
    using t top[OF that] that by blast
qed

lemma dir_calls_log: "dir_call ev \<Longrightarrow> ev \<in> set (dir_calls s) \<longleftrightarrow> ev \<in> set (io_log s)"
  by (simp add: dir_calls_def)

text \<open>
  C3. The program leaves none of its cgroups behind, if the calls of the clean-up succeed (\<open>calls_ok\<close>: the kernel
  removes the cgroup of processes that have ended) and the names of the partitions are distinct and contain no
  slash. When it returns from the event loop, it removes every directory it has made, a directory only after all those
  inside it, and makes none any more. What it removes beyond the directories it made lies inside one of its
  three top-level cgroups: there it also removes a cgroup that it found under the name it needs. A top-level cgroup
  that the user had prepared itself stays.
\<close>

theorem main_removes_cgroups:
  assumes "demos_main E args s = Running w0 tmo cpus tls" and "dir_calls s = []"
    and "startup_fn (set_timeout tmo w0) = Inr w1" and "sched_run w1 evs w2" and "calls_ok (st_os w2)"
    and "distinct (map part_name (partitions w2))" and "\<forall>p \<in> set (partitions w2). CHR ''/'' \<notin> set (part_name p)"
  shows "\<exists>t. clean_up tls w2 = Inr t \<and> (\<forall>path. Mkdir path \<in> set (io_log t) \<longrightarrow> Rmdir path \<in> set (io_log t)) \<and>
    (\<forall>path. Rmdir path \<in> set (io_log t) \<longrightarrow> Mkdir path \<in> set (io_log t) \<or>
      (\<exists>top \<in> {tl_unified tls, tl_freezer tls, tl_cpuset tls}. inside (cg_path top) path)) \<and>
    (\<forall>later path earlier. dir_calls t = later @ Rmdir path # earlier \<longrightarrow>
      (\<forall>p. Mkdir p \<notin> set later) \<and> (\<forall>p. inside path p \<longrightarrow> Rmdir p \<notin> set later))"
proof -
  note d = main_directories[OF assms(1-4)]
  from clean_up_complete[OF HOL.refl HOL.refl HOL.refl d(1,2) d(3) assms(6,7,5)] obtain t where t: "clean_up tls w2 = Inr t"
    and all: "\<forall>path. Mkdir path \<in> set (dir_calls t) \<longrightarrow> Rmdir path \<in> set (dir_calls t)"
    and own: "\<forall>path. Rmdir path \<in> set (dir_calls t) \<longrightarrow> (True, path) \<in> set (top_dirs tls) \<or>
      (\<exists>r \<in> {cg_path (tl_unified tls), cg_path (tl_freezer tls), cg_path (tl_cpuset tls)}. inside r path)"
    and order: "\<forall>later path earlier. dir_calls t = later @ Rmdir path # earlier \<longrightarrow>
      (\<forall>p. Mkdir p \<notin> set later) \<and> (\<forall>p. inside path p \<longrightarrow> Rmdir p \<notin> set later)" by blast
  have "set (dir_calls (st_os w2)) \<subseteq> set (dir_calls t)" 
    using clean_up_dirs[OF assms(5), of tls] t by (auto simp: dirs_step_def)
  with own d(4) have "\<forall>path. Rmdir path \<in> set (dir_calls t) \<longrightarrow> Mkdir path \<in> set (dir_calls t) \<or>
      (\<exists>top \<in> {tl_unified tls, tl_freezer tls, tl_cpuset tls}. inside (cg_path top) path)" by blast
  with t all order show ?thesis by (simp add: dir_calls_log)
qed

subsection \<open>A run of the program\<close>

text \<open>One window of 10 ms with a safety-critical process of 5 ms and a best-effort process.\<close>

definition main_document :: yaml where
  "main_document = mapping [(''windows'', Sequence [mapping [(''length'', Scalar ''10''),
     (''sc_partition'', mapping [(''cmd'', Scalar ''sc''), (''budget'', Scalar ''5'')]),
     (''be_partition'', mapping [(''cmd'', Scalar ''be''), (''budget'', Scalar ''3'')])]])]"

definition main_demo_env :: main_env where
  "main_demo_env = \<lparr>yaml_lib = demo_yaml, yaml_file = (\<lambda>_. Bad_file), yaml_text = (\<lambda>_. Loaded main_document),
     regular_file = (\<lambda>_. False), parent_directory = id, file_text = demo_fs,
     cpufreq_files = \<lparr>has_intel_pstate = False, pstate_status = [], cpufreq_entries = []\<rparr>,
     env_uid = 0, env_ppid = 1, allowed_cpus = 3\<rparr>"

definition main_demo_args :: "string list" where
  "main_demo_args = [''demos-sched'', ''-C'', ''config'', ''-mwindow'']"

definition main_demo_nc :: norm_config where
  "main_demo_nc = \<lparr>nc_set_cwd = False, nc_demos_cpu = ''all'',
     nc_partitions = [\<lparr>nq_name = ''anonymous_0'', nq_processes = [proc_def ''sc'' 5 0]\<rparr>,
       \<lparr>nq_name = ''anonymous_1'', nq_processes = [proc_def ''be'' 3 0]\<rparr>],
     nc_windows = [\<lparr>nw_length = 10, nw_slices = Some
       [\<lparr>ns_cpu = Some ''all'', ns_frequency = None, ns_sc = Some ''anonymous_0'', ns_be = Some ''anonymous_1''\<rparr>]\<rparr>]\<rparr>"

lemma main_demo_config:
  "case parse_options main_demo_args of Inl _ \<Rightarrow> False | Inr opts \<Rightarrow> (case main_config main_demo_env opts of Inl _ \<Rightarrow> False
     | Inr (obj, nc) \<Rightarrow> nc = main_demo_nc)"
  by code_simp

lemma main_demo_run:
  "case demos_main main_demo_env main_demo_args demo_os of
     Running w0 tmo cpus tls \<Rightarrow> succeeds (bindE (startup_fn (set_timeout tmo w0)) (foldE timely_guarded [Slice_timer 0 0]))
       (\<lambda>w2. tfd_active (mf_timer w2) \<and> length (partitions w2) = 2 \<and> length (processes (partitions w2 ! 1)) = 1 \<and>
         \<not> frozen (proc_cgf (proc_at w2 (1, 0))) \<and> schedule_of w2 = [(0, ''sc'', 5), (5, ''be'', 3)])
   | _ \<Rightarrow> False"
  by code_simp

lemma main_demo:
  obtains opts obj w0 tmo cpus tls w1 w2 where "demos_main main_demo_env main_demo_args demo_os = Running w0 tmo cpus tls"
    and "parse_options main_demo_args = Inr opts" and "main_config main_demo_env opts = Inr (obj, main_demo_nc)"
    and "startup_fn (set_timeout tmo w0) = Inr w1" and "sched_run w1 [Slice_timer 0 0] w2" and "timely_run w1 [Slice_timer 0 0] w2"
    and "tfd_active (mf_timer w2)" and "length (partitions w2) = 2" and "0 \<in> thawed (partitions w2 ! 1)"
proof -
  from main_demo_config obtain opts obj where o: "parse_options main_demo_args = Inr opts" "main_config main_demo_env opts = Inr (obj, main_demo_nc)"
    by (auto split: sum.splits)
  from main_demo_run obtain w0 tmo cpus tls where m: "demos_main main_demo_env main_demo_args demo_os = Running w0 tmo cpus tls"
    by (auto split: main_outcome.splits)
  with main_demo_run obtain w1 w2 where "startup_fn (set_timeout tmo w0) = Inr w1" "timely_run w1 [Slice_timer 0 0] w2"
    "tfd_active (mf_timer w2)" "length (partitions w2) = 2" "length (processes (partitions w2 ! 1)) = 1" "\<not> frozen (proc_cgf (proc_at w2 (1, 0)))"
    by (auto elim!: succeedsE simp: bindE_Inr_iff timely_run_def)
  then have "sched_run w1 [Slice_timer 0 0] w2" "0 \<in> thawed (partitions w2 ! 1)"
    by (auto simp: thawed_def proc_at_def intro: timely_run_run)
  then show ?thesis
    by (rule that[OF m o \<open>startup_fn (set_timeout tmo w0) = Inr w1\<close> _ \<open>timely_run w1 [Slice_timer 0 0] w2\<close> \<open>tfd_active (mf_timer w2)\<close> \<open>length (partitions w2) = 2\<close>])
qed

text \<open>The calls on directories of this run, in their order: the cgroup of the processes of a partition lies inside it.\<close>

lemma main_demo_directories:
  "case demos_main main_demo_env main_demo_args demo_os of
     Running w0 tmo cpus tls \<Rightarrow> succeeds (bindE (startup_fn (set_timeout tmo w0)) (\<lambda>w1.
         bindE (foldE sched_guarded [Slice_timer 0 0] w1) (clean_up tls)))
       (\<lambda>t. rev (dir_calls t) =
         (let u = ''/sys/fs/cgroup/unified/user/demos''; f = ''/sys/fs/cgroup/freezer//demos''; c = ''/sys/fs/cgroup/cpuset//demos'';
              a = ''/anonymous_0''; b = ''/anonymous_1''; p = ''/proc0'' in
          map Mkdir [u, f, c, c @ a, f @ a, u @ a, u @ a @ p, f @ a @ p, c @ b, f @ b, u @ b, u @ b @ p, f @ b @ p] @
          map Rmdir [f @ a @ p, u @ a @ p, u @ a, f @ a, c @ a, f @ b @ p, u @ b @ p, u @ b, f @ b, c @ b, c, f, u]))
   | _ \<Rightarrow> False"
  by code_simp

text \<open>Two partitions of one name are accepted, and the freezer of one process is that of another (\<open>same_name_shares_cgroups\<close>).\<close>

lemma same_name_accepted:
  "normalize demo_yaml (inline_config
      [(''windows'', Sequence [mapping [(''length'', Scalar ''500''), (''sc_partition'', Scalar ''P'')]]),
       (''partitions'', Sequence [
          mapping [(''name'', Scalar ''P''), (''processes'', Sequence [mapping [(''cmd'', Scalar ''a''), (''budget'', Scalar ''100''), (''jitter'', Scalar ''50'')]])],
          mapping [(''name'', Scalar ''P''), (''processes'', Sequence [mapping [(''cmd'', Scalar ''b''), (''budget'', Scalar ''100''), (''jitter'', Scalar ''50'')]])]])]) =
     Inr (one_window [\<lparr>nq_name = ''P'', nq_processes = [proc_def ''a'' 100 50]\<rparr>, \<lparr>nq_name = ''P'', nq_processes = [proc_def ''b'' 100 50]\<rparr>] 500 ''P'')"
  by code_simp

lemma main_demo_single_use: "single_use main_demo_nc"
  by (simp add: single_use_def main_demo_nc_def)

theorem main_runs_configuration_witness:
  "\<exists>w0 tmo cpus tls w1 w2. demos_main main_demo_env main_demo_args demo_os = Running w0 tmo cpus tls \<and>
     sched_run w1 [Slice_timer 0 0] w2 \<and> list_all2 (window_of 3 (partitions w2)) (nc_windows main_demo_nc) (windows w2)"
proof -
  obtain opts obj w0 tmo cpus tls w1 w2 where d: "demos_main main_demo_env main_demo_args demo_os = Running w0 tmo cpus tls"
    "parse_options main_demo_args = Inr opts" "main_config main_demo_env opts = Inr (obj, main_demo_nc)"
    "startup_fn (set_timeout tmo w0) = Inr w1" "sched_run w1 [Slice_timer 0 0] w2" by (rule main_demo)
  from main_runs_configuration[OF d] d(1,5) show ?thesis by (auto simp: main_demo_env_def)
qed

theorem main_isolates_witness:
  "\<exists>w0 tmo cpus tls w1 w2. demos_main main_demo_env main_demo_args demo_os = Running w0 tmo cpus tls \<and>
     sched_run w1 [Slice_timer 0 0] w2 \<and> thawed (partitions w2 ! 1) = {0} \<and> argv (processes (partitions w2 ! 1) ! 0) = ''be''"
proof -
  obtain opts obj w0 tmo cpus tls w1 w2 where d: "demos_main main_demo_env main_demo_args demo_os = Running w0 tmo cpus tls"
    "parse_options main_demo_args = Inr opts" "main_config main_demo_env opts = Inr (obj, main_demo_nc)"
    "startup_fn (set_timeout tmo w0) = Inr w1" "sched_run w1 [Slice_timer 0 0] w2" "timely_run w1 [Slice_timer 0 0] w2"
    "tfd_active (mf_timer w2)" "length (partitions w2) = 2" "0 \<in> thawed (partitions w2 ! 1)" by (rule main_demo)
  have "1 < length (partitions w2)" using d(8) by simp
  from main_isolates[OF d(1-3) main_demo_single_use d(4,6,7) this d(9)] d(1,5) show ?thesis
    by (auto simp: Let_def main_demo_nc_def proc_def_def)
qed

theorem main_removes_cgroups_witness:
  "\<exists>w0 tmo cpus tls w1 w2 t. demos_main main_demo_env main_demo_args demo_os = Running w0 tmo cpus tls \<and>
     sched_run w1 [Slice_timer 0 0] w2 \<and> clean_up tls w2 = Inr t \<and> (\<forall>path. Mkdir path \<in> set (io_log t) \<longrightarrow> Rmdir path \<in> set (io_log t))"
proof -
  obtain opts obj w0 tmo cpus tls w1 w2 where d: "demos_main main_demo_env main_demo_args demo_os = Running w0 tmo cpus tls"
    "parse_options main_demo_args = Inr opts" "main_config main_demo_env opts = Inr (obj, main_demo_nc)"
    "startup_fn (set_timeout tmo w0) = Inr w1" "sched_run w1 [Slice_timer 0 0] w2" by (rule main_demo)
  have s: "dir_calls demo_os = []" "io_outcome demo_os = (\<lambda>n. None)" by (simp_all add: demo_os_def quiet_os_def dir_calls_def)
  from main_directories(5)[OF d(1) s(1) d(4,5)] have ok: "calls_ok (st_os w2)" by (simp add: calls_ok_def s)
  from main_keeps_objects[OF d] have "list_all2 (\<lambda>nq p. part_name p = nq_name nq) (nc_partitions main_demo_nc) (partitions w2)"
    by (auto simp: partition_of_def elim: list_all2_mono)
  then have names: "map part_name (partitions w2) = [''anonymous_0'', ''anonymous_1'']"
    by (auto simp: main_demo_nc_def list_all2_Cons1)
  have "distinct (map part_name (partitions w2))" by (simp add: names)
  moreover have "CHR ''/'' \<notin> set (part_name p)" if "p \<in> set (partitions w2)" for p
  proof -
    from that have "part_name p \<in> set (map part_name (partitions w2))" by simp
    then show ?thesis unfolding names by auto
  qed
  ultimately show ?thesis using main_removes_cgroups[OF d(1) s(1) d(4,5) ok] d(1,5) by blast
qed

theorem reexec_keeps_options_witness:
  "parse_options (''demos-sched'' # concat (map option_words [(CHR ''c'', ''f'')])) =
     map_sum id (\<lambda>opts. opts\<lparr>systemd_run := False\<rparr>) (parse_options [''demos-sched'', ''-s'', ''-c'', ''f''])"
proof -
  have w: "concat (map option_words [(CHR ''s'', []), (CHR ''c'', ''f'')]) = [''-s'', ''-c'', ''f'']"
    "concat (map option_words [(CHR ''c'', ''f'')]) = [''-c'', ''f'']" by code_simp+
  have "list_all option_ok [(CHR ''s'', []), (CHR ''c'', ''f'')]" by code_simp
  moreover have "demos_main main_demo_env [''demos-sched'', ''-s'', ''-c'', ''f''] (quiet_os True) =
      Execvp ([''systemd-run'', ''--scope'', ''-p'', ''Delegate=yes'', ''--user''] @ [''demos-sched'', ''-c'', ''f''])"
  proof (rule demos_main_reexec)
    show "case parse_options [''demos-sched'', ''-s'', ''-c'', ''f''] of Inl _ \<Rightarrow> False | Inr opts \<Rightarrow> systemd_run opts \<and> \<not> dump_config opts"
      by code_simp
  qed code_simp
  ultimately show ?thesis
    using reexec_keeps_options[of "[''demos-sched'', ''-s'', ''-c'', ''f'']" "''demos-sched''"
        "[(CHR ''s'', []), (CHR ''c'', ''f'')]" main_demo_env "quiet_os True"] w by auto
qed

text \<open>An \<open>-s\<close> that shares its dash with another option is not removed: the program re-executes itself for ever.\<close>

lemma reexec_repeats:
  "demos_main E [''demos-sched'', ''-sc'', ''f''] (quiet_os True) =
     Execvp ([''systemd-run'', ''--scope'', ''-p'', ''Delegate=yes'', ''--user''] @ [''demos-sched'', ''-sc'', ''f''])"
proof (rule demos_main_reexec)
  show "case parse_options [''demos-sched'', ''-sc'', ''f''] of Inl _ \<Rightarrow> False | Inr opts \<Rightarrow> systemd_run opts \<and> \<not> dump_config opts"
    by code_simp
qed code_simp

end
